(* ===== verification/Prelude.thy ===== *)
theory Prelude
  imports Complex_Main "HOL-Library.Word"
begin

text \<open>
  Shared vocabulary of the development: the outcome type of a C++ operation, the C++ numeric
  conversions the sources rely on, extended doubles for the places where the code divides by an
  unguarded quantity, and the generic list lemmas used by several components.
\<close>

named_theorems outcome_simps \<open>equations that run an operation over an outcome\<close>
named_theorems inv_intros \<open>one preservation lemma per operation\<close>

section \<open>Outcomes\<close>

text \<open>
  A C++ operation either returns or ends in a fault: a read through \<open>end()\<close>, a
  \<open>std::out_of_range\<close> from \<open>map::at\<close>, a \<open>std::runtime_error\<close>, a null dereference, an index outside a vector, a process
  exit (\<open>ERROR()\<close>), a thread that waits for a mutex it holds itself, or, for the operations that recurse along the object graph and for the
  unbounded loops, the end of the fuel given to the model.
\<close>

datatype fault =
    Deref_end
  | Out_of_range
  | Null_deref
  | Bad_index
  | Bad_cast
  | Runtime_error
  | Process_exit
  | Deadlock
  | No_fuel

type_synonym 'a outcome = "fault + 'a"

fun obind :: "'a outcome \<Rightarrow> ('a \<Rightarrow> 'b outcome) \<Rightarrow> 'b outcome" where
  "obind (Inl e) f = Inl e"
| "obind (Inr x) f = f x"

lemma obind_Inr_iff: "obind r f = Inr y \<longleftrightarrow> (\<exists>x. r = Inr x \<and> f x = Inr y)"
  by (cases r) auto

lemma obind_InrE [elim!]:
  assumes "obind r f = Inr y"
  obtains x where "r = Inr x" and "f x = Inr y"
  using assms by (auto simp: obind_Inr_iff)

lemma obind_assoc [outcome_simps]: "obind (obind r f) g = obind r (\<lambda>x. obind (f x) g)"
  by (cases r) auto

text \<open>A \<open>for\<close> loop over a range whose body may fault.\<close>

fun ofold :: "('x \<Rightarrow> 's \<Rightarrow> 's outcome) \<Rightarrow> 'x list \<Rightarrow> 's \<Rightarrow> 's outcome" where
  "ofold f [] s = Inr s"
| "ofold f (x # xs) s = obind (f x s) (ofold f xs)"

lemma obind_cong: "r = r' \<Longrightarrow> (\<And>x. r' = Inr x \<Longrightarrow> f x = g x) \<Longrightarrow> obind r f = obind r' g"
  by (cases r') auto

lemma ofold_append [outcome_simps]:
  "ofold f (xs @ ys) s = obind (ofold f xs s) (ofold f ys)"
  by (induction xs arbitrary: s) (simp_all add: obind_assoc cong: obind_cong)

text \<open>The loop rule: an invariant on the part still to visit is carried to the end.\<close>

lemma ofold_invariant:
  assumes "ofold f xs s = Inr t"
    and "P xs s"
    and "\<And>y ys u v. P (y # ys) u \<Longrightarrow> f y u = Inr v \<Longrightarrow> P ys v"
  shows "P [] t"
  using assms(1,2) by (induction xs arbitrary: s) (auto intro: assms(3))

lemma ofold_total:
  assumes "P xs s"
    and "\<And>y ys u. P (y # ys) u \<Longrightarrow> \<exists>v. f y u = Inr v \<and> P ys v"
  shows "\<exists>t. ofold f xs s = Inr t \<and> P [] t"
  using assms(1)
proof (induction xs arbitrary: s)
  case (Cons x xs)
  then obtain v where "f x s = Inr v" and "P xs v"
    using assms(2) by blast
  with Cons.IH [of v] show ?case by simp
qed simp

section \<open>Numeric conversions\<close>

text \<open>
  \<open>double\<close> arithmetic is exact arithmetic over \<open>real\<close>: rounding is not modelled. The conversion
  \<open>double\<close> to \<open>int64_t\<close> truncates towards zero; outside the range of \<open>int64_t\<close> the standard leaves
  the value open and the model takes the minimum, as the x86-64 conversion instruction does.
\<close>

definition trunc :: "real \<Rightarrow> int" where
  "trunc x = (if 0 \<le> x then \<lfloor>x\<rfloor> else \<lceil>x\<rceil>)"

definition in_int64 :: "int \<Rightarrow> bool" where
  "in_int64 k \<longleftrightarrow> - (2 ^ 63) \<le> k \<and> k < 2 ^ 63"

definition to_int64 :: "real \<Rightarrow> int" where
  "to_int64 x = (let k = trunc x in if in_int64 k then k else - (2 ^ 63))"

text \<open>The doubles that survive the conversion.\<close>

definition int64_valued :: "real \<Rightarrow> bool" where
  "int64_valued x \<longleftrightarrow> of_int (to_int64 x) = x"

lemma trunc_of_int [simp]: "trunc (of_int k) = k"
  by (simp add: trunc_def)

lemma trunc_minus: "trunc (- x) = - trunc x"
  by (auto simp: trunc_def ceiling_def)

lemma abs_trunc_le: "\<bar>real_of_int (trunc x)\<bar> \<le> \<bar>x\<bar>"
proof (cases "0 \<le> x")
  case True
  then show ?thesis by (simp add: trunc_def)
next
  case False
  then have "x \<le> real_of_int \<lceil>x\<rceil>" and "\<lceil>x\<rceil> \<le> 0" by (simp_all add: ceiling_le_iff)
  with False show ?thesis by (simp add: trunc_def)
qed

lemma in_int64_bound: "in_int64 (to_int64 x)"
  by (simp add: to_int64_def in_int64_def Let_def)

lemma to_int64_of_int [simp]: "in_int64 k \<Longrightarrow> to_int64 (of_int k) = k"
  by (simp add: to_int64_def)

lemma int64_valued_of_int [simp]: "int64_valued (of_int k) \<longleftrightarrow> in_int64 k"
  by (metis int64_valued_def in_int64_bound of_int_eq_iff to_int64_of_int)

lemma int64_valued_literals [simp]:
  "int64_valued 0" "int64_valued 1"
  "int64_valued (numeral n) \<longleftrightarrow> in_int64 (numeral n)"
  "int64_valued (- numeral n) \<longleftrightarrow> in_int64 (- numeral n)"
  using int64_valued_of_int [of 0] int64_valued_of_int [of 1]
    int64_valued_of_int [of "numeral n"] int64_valued_of_int [of "- numeral n"]
  by (simp_all add: in_int64_def)

lemma to_int64_literals [simp]:
  "to_int64 0 = 0" "to_int64 1 = 1"
  "in_int64 (numeral n) \<Longrightarrow> to_int64 (numeral n) = numeral n"
  "in_int64 (- numeral n) \<Longrightarrow> to_int64 (- numeral n) = - numeral n"
  using to_int64_of_int [of 0] to_int64_of_int [of 1]
    to_int64_of_int [of "numeral n"] to_int64_of_int [of "- numeral n"]
  by (simp_all add: in_int64_def)

lemma int64_valued_to_int64 [simp]: "int64_valued (of_int (to_int64 x))"
  by (simp add: in_int64_bound)

subsection \<open>Doubles that may stop being finite\<close>

text \<open>
  Where the code divides by a quantity it has not checked, the quotient of a non-zero number by
  zero is infinite and the quotient of zero by zero is not a number. Comparisons with a value that
  is not a number are false, so \<open>std::max(a, b)\<close>, that is \<open>a < b ? b : a\<close>, then keeps its first
  argument. The sign of a zero divisor is not modelled: the divisors that reach zero here are
  integers or sums started at zero.
\<close>

datatype dbl = Fin real | PInf | NInf | NaN

fun dbl_div :: "real \<Rightarrow> real \<Rightarrow> dbl" where
  "dbl_div x y =
     (if y \<noteq> 0 then Fin (x / y) else if 0 < x then PInf else if x < 0 then NInf else NaN)"

fun dbl_add :: "dbl \<Rightarrow> dbl \<Rightarrow> dbl" where
  "dbl_add (Fin x) (Fin y) = Fin (x + y)"
| "dbl_add NaN _ = NaN"
| "dbl_add _ NaN = NaN"
| "dbl_add (Fin x) b = b"
| "dbl_add a (Fin y) = a"
| "dbl_add PInf PInf = PInf"
| "dbl_add NInf NInf = NInf"
| "dbl_add _ _ = NaN"

text \<open>A finite number times a double, and a double over a finite number.\<close>

definition inf_times :: "dbl \<Rightarrow> dbl \<Rightarrow> real \<Rightarrow> dbl" where
  "inf_times pos neg x = (if 0 < x then pos else if x < 0 then neg else NaN)"

fun dbl_scale :: "real \<Rightarrow> dbl \<Rightarrow> dbl" where
  "dbl_scale x (Fin y) = Fin (x * y)"
| "dbl_scale x PInf = inf_times PInf NInf x"
| "dbl_scale x NInf = inf_times NInf PInf x"
| "dbl_scale x NaN = NaN"

fun dbl_over :: "dbl \<Rightarrow> real \<Rightarrow> dbl" where
  "dbl_over (Fin x) y = dbl_div x y"
| "dbl_over PInf y = (if y < 0 then NInf else PInf)"
| "dbl_over NInf y = (if y < 0 then PInf else NInf)"
| "dbl_over NaN y = NaN"

fun dbl_less :: "dbl \<Rightarrow> dbl \<Rightarrow> bool" where
  "dbl_less (Fin x) (Fin y) = (x < y)"
| "dbl_less (Fin x) PInf = True"
| "dbl_less NInf (Fin y) = True"
| "dbl_less NInf PInf = True"
| "dbl_less _ _ = False"

definition dbl_max :: "dbl \<Rightarrow> dbl \<Rightarrow> dbl" where
  "dbl_max a b = (if dbl_less a b then b else a)"

lemma dbl_max_Fin [simp]: "dbl_max (Fin x) (Fin y) = Fin (max x y)"
  by (simp add: dbl_max_def max_def)

lemma dbl_max_NaN [simp]: "dbl_max a NaN = a"
  by (cases a) (simp_all add: dbl_max_def)

section \<open>Lists\<close>

lemma sum_list_map_mult: "(\<Sum>x\<leftarrow>xs. c * f x) = c * (\<Sum>x\<leftarrow>xs. f x :: real)"
  by (induction xs) (simp_all add: algebra_simps)

lemma sum_list_nonneg_map:
  "(\<And>x. x \<in> set xs \<Longrightarrow> 0 \<le> f x) \<Longrightarrow> 0 \<le> (\<Sum>x\<leftarrow>xs. f x :: real)"
  by (induction xs) auto

lemma sum_list_map_mono:
  "(\<And>x. x \<in> set xs \<Longrightarrow> f x \<le> g x) \<Longrightarrow> (\<Sum>x\<leftarrow>xs. f x :: real) \<le> (\<Sum>x\<leftarrow>xs. g x)"
  by (induction xs) (auto intro: add_mono)

lemma filter_sorted_wrt: "sorted_wrt P xs \<Longrightarrow> sorted_wrt P (filter Q xs)"
  by (induction xs) auto

end
