(* ===== verification/V3_Status.thy ===== *)
theory V3_Status
  imports Prelude
begin

text \<open>
  The value types of BatteryOS-V3: battery status and its protobuf image, millisecond timestamps,
  the partition scales and the enumerations. A \<open>timepoint_t\<close> is its count of milliseconds as an
  \<open>int\<close>; a \<open>uint64_t\<close> is a \<open>64 word\<close>. The voltage is the one status field that the code computes by
  an unguarded division, so it is an extended double.
\<close>

type_synonym timepoint = int

section \<open>Enumerations\<close>

datatype RefreshMode = LAZY | ACTIVE

datatype PolicyType = RESERVED | TRANCHED | PROPORTIONAL

datatype BatteryType = Physical | Aggregate | Partition | PartitionManager | Secure

section \<open>Battery status\<close>

record BatteryStatus =
  voltage_mV :: dbl
  current_mA :: real
  capacity_mAh :: real
  max_capacity_mAh :: real
  max_charging_current_mA :: real
  max_discharging_current_mA :: real
  status_time :: "64 word"

definition default_status :: BatteryStatus where
  "default_status =
     \<lparr>voltage_mV = Fin 0, current_mA = 0, capacity_mAh = 0, max_capacity_mAh = 0,
      max_charging_current_mA = 0, max_discharging_current_mA = 0, status_time = 0\<rparr>"

definition checkIfZero :: "BatteryStatus \<Rightarrow> bool" where
  "checkIfZero st \<longleftrightarrow>
     voltage_mV st = Fin 0 \<and> current_mA st = 0 \<and> capacity_mAh st = 0 \<and>
     max_capacity_mAh st = 0 \<and> max_charging_current_mA st = 0 \<and>
     max_discharging_current_mA st = 0"

text \<open>\<open>operator==\<close> leaves the time out; a voltage that is not a number equals nothing.\<close>

definition dbl_eq :: "dbl \<Rightarrow> dbl \<Rightarrow> bool" where
  "dbl_eq a b \<longleftrightarrow> a = b \<and> a \<noteq> NaN"

definition status_eq :: "BatteryStatus \<Rightarrow> BatteryStatus \<Rightarrow> bool" where
  "status_eq l r \<longleftrightarrow>
     dbl_eq (voltage_mV l) (voltage_mV r) \<and> current_mA l = current_mA r \<and>
     capacity_mAh l = capacity_mAh r \<and> max_capacity_mAh l = max_capacity_mAh r \<and>
     max_charging_current_mA l = max_charging_current_mA r \<and>
     max_discharging_current_mA l = max_discharging_current_mA r"

subsection \<open>The protobuf image\<close>

text \<open>The message \<open>bosproto::BatteryStatus\<close> of \<open>protobuf/battery.proto\<close>.\<close>

record ProtoStatus =
  pb_voltage_mv :: dbl
  pb_current_ma :: real
  pb_capacity_mah :: real
  pb_max_capacity_mah :: real
  pb_max_charging_current_ma :: real
  pb_max_discharging_current_ma :: real
  pb_timestamp :: "64 word"

definition toProto :: "BatteryStatus \<Rightarrow> ProtoStatus" where
  "toProto st =
     \<lparr>pb_voltage_mv = voltage_mV st, pb_current_ma = current_mA st,
      pb_capacity_mah = capacity_mAh st, pb_max_capacity_mah = max_capacity_mAh st,
      pb_max_charging_current_ma = max_charging_current_mA st,
      pb_max_discharging_current_ma = max_discharging_current_mA st,
      pb_timestamp = status_time st\<rparr>"

definition fromProto :: "ProtoStatus \<Rightarrow> BatteryStatus" where
  "fromProto p =
     \<lparr>voltage_mV = pb_voltage_mv p, current_mA = pb_current_ma p,
      capacity_mAh = pb_capacity_mah p, max_capacity_mAh = pb_max_capacity_mah p,
      max_charging_current_mA = pb_max_charging_current_ma p,
      max_discharging_current_mA = pb_max_discharging_current_ma p,
      status_time = pb_timestamp p\<rparr>"

section \<open>Timestamps\<close>

definition convertToMilliseconds :: "timepoint \<Rightarrow> 64 word" where
  "convertToMilliseconds t = word_of_int t"

definition convertToTimestamp :: "64 word \<Rightarrow> timepoint" where
  "convertToTimestamp ms = sint ms"

section \<open>Scales\<close>

record Scale =
  charge_proportion :: real
  capacity_proportion :: real

definition scale_ABS :: "real \<Rightarrow> real" where
  "scale_ABS x = (if x < 0 then x * -1 else x)"

definition Scale_of_pair :: "real \<Rightarrow> real \<Rightarrow> Scale" where
  "Scale_of_pair capacity charge =
     \<lparr>charge_proportion = scale_ABS charge, capacity_proportion = scale_ABS capacity\<rparr>"

definition Scale_of :: "real \<Rightarrow> Scale" where
  "Scale_of p = \<lparr>charge_proportion = scale_ABS p, capacity_proportion = scale_ABS p\<rparr>"

definition Scale_add_assign :: "Scale \<Rightarrow> Scale \<Rightarrow> Scale" where
  "Scale_add_assign s t =
     \<lparr>charge_proportion = charge_proportion s + charge_proportion t,
      capacity_proportion = capacity_proportion s + capacity_proportion t\<rparr>"

section \<open>Facts\<close>

lemma status_proto_round_trip [simp]: "fromProto (toProto st) = st"
  by (simp add: fromProto_def toProto_def)

lemma proto_status_round_trip [simp]: "toProto (fromProto p) = p"
  by (simp add: fromProto_def toProto_def)

text \<open>A time in the range of \<open>int64_t\<close> survives the trip through the unsigned wire format.\<close>

lemma timestamp_round_trip:
  assumes "in_int64 t"
  shows "convertToTimestamp (convertToMilliseconds t) = t"
  using assms
  by (simp add: convertToTimestamp_def convertToMilliseconds_def in_int64_def
      signed_of_int signed_take_bit_int_eq_self)

lemma milliseconds_round_trip [simp]: "convertToMilliseconds (convertToTimestamp w) = w"
  by (simp add: convertToTimestamp_def convertToMilliseconds_def)

lemma scale_ABS_abs: "scale_ABS x = \<bar>x\<bar>"
  by (simp add: scale_ABS_def)

lemma foldl_Scale_add_charge:
  "charge_proportion (foldl Scale_add_assign s ps) =
     charge_proportion s + (\<Sum>p\<leftarrow>ps. charge_proportion p)"
  by (induction ps arbitrary: s) (simp_all add: Scale_add_assign_def)

lemma foldl_Scale_add_capacity:
  "capacity_proportion (foldl Scale_add_assign s ps) =
     capacity_proportion s + (\<Sum>p\<leftarrow>ps. capacity_proportion p)"
  by (induction ps arbitrary: s) (simp_all add: Scale_add_assign_def)

end
