(* ===== verification/Std_Containers.thy ===== *)
theory Std_Containers
  imports Prelude
begin

text \<open>
  \<open>std::set\<close> and \<open>std::map\<close> as the code uses them. A set is the list of its elements in the order
  of its comparison; two elements that neither precedes are the same element, whatever else they
  hold, so an insertion next to an equivalent element changes nothing and an erasure removes the
  equivalent one. A map is a set of pairs compared by key, as in the library.

  The locale \<open>std_order\<close> is the requirement the library states on a comparison (a strict weak
  order); everything about the containers is proved once inside it.
\<close>

fun set_insert :: "('a \<Rightarrow> 'a \<Rightarrow> bool) \<Rightarrow> 'a \<Rightarrow> 'a list \<Rightarrow> 'a list" where
  "set_insert lt x [] = [x]"
| "set_insert lt x (y # ys) =
     (if lt x y then x # y # ys
      else if lt y x then y # set_insert lt x ys
      else y # ys)"

definition set_erase :: "('a \<Rightarrow> 'a \<Rightarrow> bool) \<Rightarrow> 'a \<Rightarrow> 'a list \<Rightarrow> 'a list" where
  "set_erase lt x ys = filter (\<lambda>y. lt x y \<or> lt y x) ys"

text \<open>The map operations: \<open>insert\<close> (keeps an existing entry), \<open>at() =\<close>, \<open>erase\<close>.\<close>

definition pair_less :: "('k \<Rightarrow> 'k \<Rightarrow> bool) \<Rightarrow> 'k \<times> 'v \<Rightarrow> 'k \<times> 'v \<Rightarrow> bool" where
  "pair_less lt a b = lt (fst a) (fst b)"

definition map_insert ::
  "('k \<Rightarrow> 'k \<Rightarrow> bool) \<Rightarrow> 'k \<Rightarrow> 'v \<Rightarrow> ('k \<times> 'v) list \<Rightarrow> ('k \<times> 'v) list" where
  "map_insert lt k v m = set_insert (pair_less lt) (k, v) m"

fun map_assign :: "'k \<Rightarrow> 'v \<Rightarrow> ('k \<times> 'v) list \<Rightarrow> ('k \<times> 'v) list outcome" where
  "map_assign k v [] = Inl Out_of_range"
| "map_assign k v (p # m) =
     (if fst p = k then Inr ((k, v) # m) else obind (map_assign k v m) (\<lambda>m'. Inr (p # m')))"

definition map_at :: "'k \<Rightarrow> ('k \<times> 'v) list \<Rightarrow> 'v outcome" where
  "map_at k m = (case map_of m k of None \<Rightarrow> Inl Out_of_range | Some v \<Rightarrow> Inr v)"

definition map_erase :: "'k \<Rightarrow> ('k \<times> 'v) list \<Rightarrow> ('k \<times> 'v) list" where
  "map_erase k m = filter (\<lambda>p. fst p \<noteq> k) m"

section \<open>Laws of the containers\<close>

locale std_order =
  fixes lt :: "'a \<Rightarrow> 'a \<Rightarrow> bool"
  assumes irrefl: "\<not> lt x x"
    and trans: "lt x y \<Longrightarrow> lt y z \<Longrightarrow> lt x z"
    and incomparable_trans:
      "\<not> lt x y \<Longrightarrow> \<not> lt y x \<Longrightarrow> \<not> lt y z \<Longrightarrow> \<not> lt z y \<Longrightarrow> \<not> lt x z"
begin

abbreviation same :: "'a \<Rightarrow> 'a \<Rightarrow> bool" where
  "same x y \<equiv> \<not> lt x y \<and> \<not> lt y x"

lemma asym: "lt x y \<Longrightarrow> \<not> lt y x"
  using irrefl trans by blast

lemma less_same: "lt x y \<Longrightarrow> same y z \<Longrightarrow> lt x z"
  using incomparable_trans trans asym by blast

lemma same_less: "same x y \<Longrightarrow> lt y z \<Longrightarrow> lt x z"
  using incomparable_trans trans asym by blast

lemma set_insert_subset: "set (set_insert lt x ys) \<subseteq> insert x (set ys)"
  by (induction ys) auto

lemma set_insert_superset: "set ys \<subseteq> set (set_insert lt x ys)"
  by (induction ys) auto

lemma sorted_set_insert: "sorted_wrt lt ys \<Longrightarrow> sorted_wrt lt (set_insert lt x ys)"
proof (induction ys)
  case (Cons y ys)
  show ?case
  proof (cases "lt x y")
    case True
    with Cons.prems show ?thesis by (auto intro: trans)
  next
    case False
    with Cons show ?thesis using set_insert_subset [of x ys] by auto
  qed
qed simp

lemma mem_set_insert:
  assumes "sorted_wrt lt ys"
  shows "z \<in> set (set_insert lt x ys) \<longleftrightarrow>
    z \<in> set ys \<or> (z = x \<and> (\<forall>y \<in> set ys. \<not> same x y))"
  using assms
proof (induction ys)
  case (Cons y ys)
  consider "lt x y" | "lt y x" | "same x y" by blast
  then show ?case
  proof cases
    case 1
    with Cons.prems have "\<forall>u \<in> set (y # ys). lt x u" by (auto intro: trans)
    with 1 show ?thesis by auto
  next
    case 2
    with Cons show ?thesis using asym by auto
  next
    case 3
    then show ?thesis by auto
  qed
qed simp

lemma set_insert_fresh:
  assumes "sorted_wrt lt ys" and "\<forall>y \<in> set ys. \<not> same x y"
  shows "set (set_insert lt x ys) = insert x (set ys)"
  using assms by (auto simp: mem_set_insert)

lemma sorted_set_erase: "sorted_wrt lt ys \<Longrightarrow> sorted_wrt lt (set_erase lt x ys)"
  by (simp add: set_erase_def filter_sorted_wrt)

lemma mem_set_erase: "z \<in> set (set_erase lt x ys) \<longleftrightarrow> z \<in> set ys \<and> \<not> same x z"
  by (auto simp: set_erase_def)

lemma set_set_erase: "set (set_erase lt x ys) = {z \<in> set ys. \<not> same x z}"
  by (auto simp: set_erase_def)

lemma sorted_unique:
  assumes "sorted_wrt lt ys" and "x \<in> set ys" and "y \<in> set ys" and "same x y"
  shows "x = y"
  using assms by (induction ys) auto

lemma sorted_distinct: "sorted_wrt lt ys \<Longrightarrow> distinct ys"
  by (induction ys) (auto simp: irrefl)

lemma set_insert_append:
  "\<forall>y \<in> set xs. lt y x \<Longrightarrow> set_insert lt x (xs @ ys) = xs @ set_insert lt x ys"
  by (induction xs) (auto dest: asym)

lemma sum_set_insert_le:
  "(\<Sum>y\<leftarrow>set_insert lt x ys. w y :: nat) \<le> w x + (\<Sum>y\<leftarrow>ys. w y)"
  by (induction ys) auto

text \<open>\<open>*begin()\<close> is the least element.\<close>

lemma hd_least: "sorted_wrt lt (y # ys) \<Longrightarrow> z \<in> set ys \<Longrightarrow> lt y z"
  by simp

end

section \<open>Maps\<close>

text \<open>Facts on maps that need no order.\<close>

lemma map_of_map_erase [simp]: "map_of (map_erase k m) = (map_of m)(k := None)"
  by (induction m) (auto simp: map_erase_def fun_eq_iff)

lemma set_map_erase [simp]: "set (map_erase k m) = {p \<in> set m. fst p \<noteq> k}"
  by (auto simp: map_erase_def)

lemma map_of_map_assign:
  "map_assign k v m = Inr m' \<Longrightarrow> map_of m' = (map_of m)(k \<mapsto> v)"
  by (induction m arbitrary: m') (auto simp: fun_eq_iff split: if_splits)

lemma map_assign_defined: "map_of m k \<noteq> None \<Longrightarrow> \<exists>m'. map_assign k v m = Inr m'"
  by (induction m) (auto split: if_splits)

lemma keys_map_assign: "map_assign k v m = Inr m' \<Longrightarrow> map fst m' = map fst m"
  by (induction m arbitrary: m') (auto split: if_splits)

text \<open>Comparing pairs by key is a strict weak order on pairs when the keys are totally ordered.\<close>

locale std_key_order = std_order +
  assumes total: "\<not> lt x y \<Longrightarrow> \<not> lt y x \<Longrightarrow> x = y"

sublocale std_key_order \<subseteq> pairs: std_order "pair_less lt"
  by unfold_locales (auto simp: pair_less_def irrefl intro: trans dest: incomparable_trans)

context std_key_order
begin

abbreviation wf_map :: "('a \<times> 'v) list \<Rightarrow> bool" where
  "wf_map m \<equiv> sorted_wrt (pair_less lt) m"

lemma wf_map_keys: "wf_map m \<longleftrightarrow> sorted_wrt lt (map fst m)"
  by (simp add: sorted_wrt_map pair_less_def [abs_def])

lemma wf_map_distinct: "wf_map m \<Longrightarrow> distinct (map fst m)"
proof (induction m)
  case (Cons p m)
  then show ?case using irrefl by (auto simp: pair_less_def)
qed simp

lemma wf_map_insert: "wf_map m \<Longrightarrow> wf_map (map_insert lt k v m)"
  by (simp add: map_insert_def pairs.sorted_set_insert)

lemma map_of_insert:
  assumes "wf_map m"
  shows "map_of (map_insert lt k v m) =
    (case map_of m k of None \<Rightarrow> (map_of m)(k \<mapsto> v) | Some _ \<Rightarrow> map_of m)"
proof -
  have key: "\<And>p. \<not> pair_less lt (k, v) p \<Longrightarrow> \<not> pair_less lt p (k, v) \<Longrightarrow> fst p = k"
    using total by (auto simp: pair_less_def)
  have "map_of (set_insert (pair_less lt) (k, v) m) j =
    (if j = k \<and> map_of m k = None then Some v else map_of m j)" for j
    using assms
  proof (induction m)
    case (Cons p m)
    consider "pair_less lt (k, v) p" | "pair_less lt p (k, v)" "\<not> pair_less lt (k, v) p"
      | "fst p = k" "\<not> pair_less lt (k, v) p" "\<not> pair_less lt p (k, v)"
      using key by blast
    then show ?case
    proof cases
      case 1
      with Cons.prems have "\<forall>q \<in> set (p # m). lt k (fst q)"
        by (auto simp: pair_less_def intro: trans)
      then have "k \<notin> fst ` set (p # m)" using irrefl by auto
      then have "map_of (p # m) k = None" by (subst map_of_eq_None_iff)
      with 1 show ?thesis by auto
    next
      case 2
      then have "fst p \<noteq> k" using irrefl by (auto simp: pair_less_def)
      with 2 Cons show ?thesis by (cases p) auto
    next
      case 3
      then show ?thesis by (cases p) auto
    qed
  qed simp
  then show ?thesis
    by (auto simp: map_insert_def fun_eq_iff split: option.splits)
qed

lemma wf_map_erase: "wf_map m \<Longrightarrow> wf_map (map_erase k m)"
  by (simp add: map_erase_def filter_sorted_wrt)

lemma wf_map_assign: "wf_map m \<Longrightarrow> map_assign k v m = Inr m' \<Longrightarrow> wf_map m'"
  by (simp add: wf_map_keys keys_map_assign)

end

end
