(* ===== verification/V3_Events.thy ===== *)
theory V3_Events
  imports V3_Status Std_Containers
begin

text \<open>
  The event queue every V3 battery carries (\<open>event_t.hpp\<close> and \<open>checkMergeAndInsertEvents\<close> of
  \<open>BatteryInterface.cpp\<close>): the ordered set of pending events, the map from sequence numbers to
  pairs of begin and end events, and the merge of a new request into both.
\<close>

section \<open>Events\<close>

datatype EventID = REFRESH | SET_CURRENT_END | SET_CURRENT_BEGIN | CANCEL_SET_CURRENT_EVENT

primrec event_num :: "EventID \<Rightarrow> nat" where
  "event_num REFRESH = 0"
| "event_num SET_CURRENT_END = 1"
| "event_num SET_CURRENT_BEGIN = 2"
| "event_num CANCEL_SET_CURRENT_EVENT = 3"

lemma event_num_inject: "event_num a = event_num b \<Longrightarrow> a = b"
  by (cases a; cases b) simp_all

instantiation EventID :: linorder
begin

definition less_eq_EventID :: "EventID \<Rightarrow> EventID \<Rightarrow> bool" where
  "less_eq_EventID a b \<longleftrightarrow> event_num a \<le> event_num b"

definition less_EventID :: "EventID \<Rightarrow> EventID \<Rightarrow> bool" where
  "less_EventID a b \<longleftrightarrow> event_num a < event_num b"

instance
  by standard (auto simp: less_eq_EventID_def less_EventID_def intro: event_num_inject)

end

record event =
  eventID :: EventID
  event_current_mA :: real
  eventTime :: timepoint
  event_batteryName :: string
  sequenceNumber :: "64 word"

text \<open>The constructor takes its current as an \<open>int64_t\<close>: the request is truncated.\<close>

definition mk_event :: "string \<Rightarrow> EventID \<Rightarrow> real \<Rightarrow> timepoint \<Rightarrow> 64 word \<Rightarrow> event" where
  "mk_event name i c t n =
     \<lparr>eventID = i, event_current_mA = of_int (to_int64 c), eventTime = t,
      event_batteryName = name, sequenceNumber = n\<rparr>"

definition event_less :: "event \<Rightarrow> event \<Rightarrow> bool" where
  "event_less l r =
     (if eventTime l \<noteq> eventTime r then eventTime l < eventTime r
      else if eventID l \<noteq> eventID r then eventID l > eventID r
      else sequenceNumber l < sequenceNumber r)"

definition event_greater :: "event \<Rightarrow> event \<Rightarrow> bool" where
  "event_greater l r =
     (if eventTime l \<noteq> eventTime r then eventTime l > eventTime r
      else if eventID l \<noteq> eventID r then eventID l < eventID r
      else sequenceNumber l > sequenceNumber r)"

type_synonym EventSet = "event list"
type_synonym EventPair = "event \<times> event"
type_synonym EventMap = "(64 word \<times> EventPair) list"

text \<open>\<open>EventMap\<close> is keyed by \<open>int64_t\<close>: the unsigned sequence numbers compare as signed ones.\<close>

definition key_less :: "64 word \<Rightarrow> 64 word \<Rightarrow> bool" where
  "key_less j k \<longleftrightarrow> sint j < sint k"

abbreviation es_insert :: "event \<Rightarrow> EventSet \<Rightarrow> EventSet" where
  "es_insert \<equiv> set_insert event_less"

abbreviation es_erase :: "event \<Rightarrow> EventSet \<Rightarrow> EventSet" where
  "es_erase \<equiv> set_erase event_less"

record event_queue =
  eventSet :: EventSet
  eventMap :: EventMap

section \<open>Merging a request into the queue\<close>

text \<open>One turn of the loop over \<open>eventMap\<close>: the queue and the target current so far.\<close>

definition merge_step ::
  "string \<Rightarrow> timepoint \<Rightarrow> timepoint \<Rightarrow> 64 word \<Rightarrow>
   'a event_queue_scheme \<times> real \<Rightarrow> ('a event_queue_scheme \<times> real) outcome" where
  "merge_step name startTime endTime k st =
    (case st of (q, target) \<Rightarrow>
      obind (map_at k (eventMap q)) (\<lambda>(startEvent, endEvent).
        if name \<noteq> event_batteryName startEvent then Inr (q, target)
        else if startTime \<le> eventTime startEvent \<and> endTime \<ge> eventTime endEvent then
          (let cancelEvent = mk_event name CANCEL_SET_CURRENT_EVENT 0 startTime
                               (sequenceNumber startEvent)
           in Inr (q\<lparr>eventSet := es_insert cancelEvent (eventSet q)\<rparr>, target))
        else if startTime \<ge> eventTime startEvent \<and> endTime < eventTime endEvent then
          Inr (q, target - event_current_mA startEvent)
        else if startTime \<ge> eventTime startEvent \<and> endTime \<ge> eventTime endEvent then
          (let newEvent = mk_event name SET_CURRENT_END (event_current_mA endEvent) startTime
                            (sequenceNumber endEvent);
               es = es_insert newEvent (es_erase endEvent (eventSet q))
           in obind (map_at (sequenceNumber endEvent) (eventMap q)) (\<lambda>oldPair.
              obind (map_assign (sequenceNumber endEvent) (fst oldPair, newEvent) (eventMap q))
                (\<lambda>em. Inr (q\<lparr>eventSet := es, eventMap := em\<rparr>, target))))
        else if startTime \<le> eventTime startEvent \<and> endTime \<le> eventTime endEvent then
          (let newEvent = mk_event name SET_CURRENT_BEGIN (event_current_mA startEvent) endTime
                            (sequenceNumber startEvent);
               es = es_insert newEvent (es_erase startEvent (eventSet q))
           in obind (map_at (sequenceNumber startEvent) (eventMap q)) (\<lambda>oldPair.
              obind (map_assign (sequenceNumber startEvent) (newEvent, snd oldPair) (eventMap q))
                (\<lambda>em. Inr (q\<lparr>eventSet := es, eventMap := em\<rparr>, target))))
        else Inr (q, target)))"

definition insert_pair ::
  "string \<Rightarrow> real \<Rightarrow> timepoint \<Rightarrow> timepoint \<Rightarrow> 64 word \<Rightarrow>
   'a event_queue_scheme \<Rightarrow> 'a event_queue_scheme" where
  "insert_pair name target startTime endTime n q =
    (let beginEvent = mk_event name SET_CURRENT_BEGIN target startTime n;
         endEvent = mk_event name SET_CURRENT_END target endTime n
     in q\<lparr>eventSet := es_insert endEvent (es_insert beginEvent (eventSet q)),
          eventMap := map_insert key_less n (beginEvent, endEvent) (eventMap q)\<rparr>)"

definition checkMergeAndInsertEvents ::
  "string \<Rightarrow> real \<Rightarrow> timepoint \<Rightarrow> timepoint \<Rightarrow> 64 word \<Rightarrow>
   'a event_queue_scheme \<Rightarrow> 'a event_queue_scheme outcome" where
  "checkMergeAndInsertEvents name c startTime endTime n q =
    (case map_of (eventMap q) n of
      Some pair \<Rightarrow>
        (let es = es_erase (snd pair) (es_erase (fst pair) (eventSet q));
             q' = q\<lparr>eventSet := es, eventMap := map_erase n (eventMap q)\<rparr>
         in Inr (insert_pair name (c + event_current_mA (fst pair)) startTime endTime n q'))
    | None \<Rightarrow>
        obind (ofold (merge_step name startTime endTime) (map fst (eventMap q)) (q, c))
          (\<lambda>(q', target). Inr (insert_pair name target startTime endTime n q')))"

section \<open>The queue orders are orders of the library\<close>

interpretation ev: std_order event_less
  by unfold_locales (auto simp: event_less_def split: if_splits)

interpretation key: std_key_order key_less
  by unfold_locales (auto simp: key_less_def word_eq_iff_signed [where 'a = int])

lemma event_greater_converse: "event_greater l r = event_less r l"
  by (auto simp: event_greater_def event_less_def)

lemma same_event_iff:
  "ev.same a b \<longleftrightarrow>
     eventTime a = eventTime b \<and> eventID a = eventID b \<and> sequenceNumber a = sequenceNumber b"
  by (auto simp: event_less_def)

lemma mk_event_simps [simp]:
  "eventID (mk_event m i c t n) = i" "eventTime (mk_event m i c t n) = t"
  "event_batteryName (mk_event m i c t n) = m" "sequenceNumber (mk_event m i c t n) = n"
  "event_current_mA (mk_event m i c t n) = of_int (to_int64 c)"
  by (simp_all add: mk_event_def)

section \<open>The invariant of the queue\<close>

definition pair_ok :: "64 word \<times> EventPair \<Rightarrow> bool" where
  "pair_ok x =
    (case x of (n, b, e) \<Rightarrow>
       eventID b = SET_CURRENT_BEGIN \<and> eventID e = SET_CURRENT_END \<and>
       sequenceNumber b = n \<and> sequenceNumber e = n \<and>
       event_batteryName b = event_batteryName e \<and>
       event_current_mA b = event_current_mA e \<and>
       int64_valued (event_current_mA b))"

text \<open>Every begin or end event of the set is the one the map holds for its sequence number.\<close>

definition recorded :: "EventMap \<Rightarrow> event \<Rightarrow> bool" where
  "recorded m v =
    (case map_of m (sequenceNumber v) of
       None \<Rightarrow> eventID v \<noteq> SET_CURRENT_BEGIN \<and> eventID v \<noteq> SET_CURRENT_END
     | Some p \<Rightarrow> (eventID v = SET_CURRENT_BEGIN \<longrightarrow> v = fst p) \<and>
                 (eventID v = SET_CURRENT_END \<longrightarrow> v = snd p))"

definition queue_inv :: "'a event_queue_scheme \<Rightarrow> bool" where
  "queue_inv q \<longleftrightarrow>
     sorted_wrt event_less (eventSet q) \<and>
     sorted_wrt (pair_less key_less) (eventMap q) \<and>
     (\<forall>x \<in> set (eventMap q). pair_ok x \<and> snd (snd x) \<in> set (eventSet q)) \<and>
     (\<forall>v \<in> set (eventSet q). recorded (eventMap q) v)"

section \<open>The schedule a queue stands for\<close>

text \<open>
  The contract of the queue: at time \<open>t\<close> the battery is asked for the sum of the currents of the
  recorded requests of \<open>name\<close> that have begun, have not ended and are not about to be cancelled.
\<close>

definition cancelled :: "EventSet \<Rightarrow> 64 word \<Rightarrow> bool" where
  "cancelled es n \<longleftrightarrow>
     (\<exists>v \<in> set es. eventID v = CANCEL_SET_CURRENT_EVENT \<and> sequenceNumber v = n)"

definition contribution ::
  "EventSet \<Rightarrow> string \<Rightarrow> timepoint \<Rightarrow> 64 word \<times> EventPair \<Rightarrow> real" where
  "contribution es name t x =
    (if event_batteryName (fst (snd x)) = name \<and> \<not> cancelled es (fst x) \<and>
        eventTime (fst (snd x)) \<le> t \<and> t < eventTime (snd (snd x))
     then event_current_mA (fst (snd x)) else 0)"

definition level :: "'a event_queue_scheme \<Rightarrow> string \<Rightarrow> timepoint \<Rightarrow> real" where
  "level q name t = (\<Sum>x\<leftarrow>eventMap q. contribution (eventSet q) name t x)"

section \<open>What the merge loop computes\<close>

text \<open>How a request on \<open>[s, e)\<close> treats a recorded pair of the same battery.\<close>

definition covers :: "timepoint \<Rightarrow> timepoint \<Rightarrow> EventPair \<Rightarrow> bool" where
  "covers s e p \<longleftrightarrow> s \<le> eventTime (fst p) \<and> eventTime (snd p) \<le> e"

definition inside :: "timepoint \<Rightarrow> timepoint \<Rightarrow> EventPair \<Rightarrow> bool" where
  "inside s e p \<longleftrightarrow> \<not> covers s e p \<and> eventTime (fst p) \<le> s \<and> e < eventTime (snd p)"

definition cuts_end :: "timepoint \<Rightarrow> timepoint \<Rightarrow> EventPair \<Rightarrow> bool" where
  "cuts_end s e p \<longleftrightarrow> \<not> covers s e p \<and> eventTime (fst p) \<le> s \<and> eventTime (snd p) \<le> e"

definition cuts_begin :: "timepoint \<Rightarrow> timepoint \<Rightarrow> EventPair \<Rightarrow> bool" where
  "cuts_begin s e p \<longleftrightarrow> s < eventTime (fst p) \<and> e < eventTime (snd p)"

lemma merge_cases:
  obtains "covers s e p" | "inside s e p" | "cuts_end s e p" | "cuts_begin s e p"
  unfolding covers_def inside_def cuts_end_def cuts_begin_def by linarith

definition cut_pair :: "string \<Rightarrow> timepoint \<Rightarrow> timepoint \<Rightarrow> EventPair \<Rightarrow> EventPair" where
  "cut_pair name s e p =
    (if name \<noteq> event_batteryName (fst p) then p
     else if cuts_end s e p then (fst p, (snd p)\<lparr>eventTime := s\<rparr>)
     else if cuts_begin s e p then ((fst p)\<lparr>eventTime := e\<rparr>, snd p)
     else p)"

definition cut_set ::
  "string \<Rightarrow> timepoint \<Rightarrow> timepoint \<Rightarrow> 64 word \<times> EventPair \<Rightarrow> EventSet \<Rightarrow> EventSet" where
  "cut_set name s e x es =
    (let p = snd x in
     if name \<noteq> event_batteryName (fst p) then es
     else if covers s e p then es_insert (mk_event name CANCEL_SET_CURRENT_EVENT 0 s (fst x)) es
     else if cuts_end s e p then es_insert ((snd p)\<lparr>eventTime := s\<rparr>) (es_erase (snd p) es)
     else if cuts_begin s e p then es_insert ((fst p)\<lparr>eventTime := e\<rparr>) (es_erase (fst p) es)
     else es)"

definition overlap :: "string \<Rightarrow> timepoint \<Rightarrow> timepoint \<Rightarrow> 64 word \<times> EventPair \<Rightarrow> real" where
  "overlap name s e x =
    (if name = event_batteryName (fst (snd x)) \<and> inside s e (snd x)
     then event_current_mA (fst (snd x)) else 0)"

lemma retime_event:
  assumes "int64_valued (event_current_mA v)"
  shows "mk_event (event_batteryName v) (eventID v) (event_current_mA v) t (sequenceNumber v) =
    v\<lparr>eventTime := t\<rparr>"
  using assms by (cases v) (simp add: mk_event_def int64_valued_def)

lemma map_assign_middle:
  "k \<notin> fst ` set pre \<Longrightarrow> map_assign k v (pre @ (k, p) # post) = Inr (pre @ (k, v) # post)"
  by (induction pre) auto

lemma map_at_middle: "k \<notin> fst ` set pre \<Longrightarrow> map_at k (pre @ (k, p) # post) = Inr p"
  by (simp add: map_at_def map_add_def map_of_eq_None_iff [symmetric] split: option.splits)

lemma merge_step_run:
  assumes m: "eventMap q = pre @ (k, p) # post" and k: "k \<notin> fst ` set pre"
    and ok: "pair_ok (k, p)"
  shows "merge_step name s e k (q, c) =
    Inr (q\<lparr>eventSet := cut_set name s e (k, p) (eventSet q),
           eventMap := pre @ (k, cut_pair name s e p) # post\<rparr>,
         c - overlap name s e (k, p))"
proof -
  have q: "q = q\<lparr>eventMap := pre @ (k, p) # post\<rparr>" by (simp add: m [symmetric])
  obtain b f where p: "p = (b, f)" by (cases p)
  have f: "mk_event (event_batteryName b) SET_CURRENT_END (event_current_mA f) t k = f\<lparr>eventTime := t\<rparr>" for t
    using ok retime_event [of f t] by (auto simp: pair_ok_def p)
  have b: "mk_event (event_batteryName b) SET_CURRENT_BEGIN (event_current_mA b) t k = b\<lparr>eventTime := t\<rparr>" for t
    using ok retime_event [of b t] by (auto simp: pair_ok_def p)
  have n: "sequenceNumber b = k" "sequenceNumber f = k"
    using ok by (simp_all add: pair_ok_def p)
  note defs = merge_step_def m map_at_middle [OF k] map_assign_middle [OF k] cut_set_def
    cut_pair_def overlap_def covers_def inside_def cuts_end_def cuts_begin_def Let_def
  show ?thesis
  proof (cases "name = event_batteryName b")
    case False
    then show ?thesis by (simp add: defs p)
  next
    case True
    then show ?thesis by (simp add: defs p n f b)
  qed
qed

lemma merge_loop:
  assumes "eventMap q = pre @ post" and "distinct (map fst (pre @ post))"
    and "\<forall>x \<in> set post. pair_ok x"
  shows "ofold (merge_step name s e) (map fst post) (q, c) =
    Inr (q\<lparr>eventSet := fold (cut_set name s e) post (eventSet q),
           eventMap := pre @ map (apsnd (cut_pair name s e)) post\<rparr>,
         c - (\<Sum>x\<leftarrow>post. overlap name s e x))"
  using assms
proof (induction post arbitrary: pre q c)
  case Nil
  then show ?case by simp
next
  case (Cons x post)
  obtain k p where x: "x = (k, p)" by (cases x)
  let ?q = "q\<lparr>eventSet := cut_set name s e x (eventSet q),
               eventMap := pre @ (k, cut_pair name s e p) # post\<rparr>"
  have "merge_step name s e k (q, c) = Inr (?q, c - overlap name s e x)"
    unfolding x using Cons.prems by (intro merge_step_run) (auto simp: x)
  moreover have "ofold (merge_step name s e) (map fst post) (?q, c - overlap name s e x) =
    Inr (?q\<lparr>eventSet := fold (cut_set name s e) post (eventSet ?q),
           eventMap := (pre @ [(k, cut_pair name s e p)]) @ map (apsnd (cut_pair name s e)) post\<rparr>,
         c - overlap name s e x - (\<Sum>x\<leftarrow>post. overlap name s e x))"
    using Cons.prems by (intro Cons.IH) (auto simp: x)
  ultimately show ?case by (simp add: x algebra_simps)
qed

section \<open>The loop keeps the invariant\<close>

lemma queue_inv_map_of:
  assumes "queue_inv q"
  shows "map_of (eventMap q) k = Some p \<longleftrightarrow> (k, p) \<in> set (eventMap q)"
proof -
  have "distinct (map fst (eventMap q))"
    using assms key.wf_map_distinct unfolding queue_inv_def by blast
  then show ?thesis by simp
qed

lemma queue_inv_recorded:
  assumes "queue_inv q" and "(k, b, f) \<in> set (eventMap q)" and "v \<in> set (eventSet q)"
    and "sequenceNumber v = k"
  shows "eventID v = SET_CURRENT_BEGIN \<Longrightarrow> v = b" and "eventID v = SET_CURRENT_END \<Longrightarrow> v = f"
proof -
  have "map_of (eventMap q) k = Some (b, f)"
    using assms by (simp add: queue_inv_map_of)
  then show "eventID v = SET_CURRENT_BEGIN \<Longrightarrow> v = b" "eventID v = SET_CURRENT_END \<Longrightarrow> v = f"
    using assms by (auto simp: queue_inv_def recorded_def)
qed

lemma mem_retime:
  assumes inv: "queue_inv q" and x: "(k, b, f) \<in> set (eventMap q)" and v: "v = b \<or> v = f"
  shows "z \<in> set (es_insert (v\<lparr>eventTime := t\<rparr>) (es_erase v (eventSet q))) \<longleftrightarrow>
    z = v\<lparr>eventTime := t\<rparr> \<or> z \<in> set (eventSet q) \<and> \<not> ev.same v z"
proof -
  have ok: "pair_ok (k, b, f)" and sorted: "sorted_wrt event_less (eventSet q)"
    using inv x by (auto simp: queue_inv_def)
  have "\<not> ev.same (v\<lparr>eventTime := t\<rparr>) y" if "y \<in> set (es_erase v (eventSet q))" for y
  proof
    assume "ev.same (v\<lparr>eventTime := t\<rparr>) y"
    then have "eventID y = eventID v" "sequenceNumber y = sequenceNumber v"
      by (simp_all add: same_event_iff)
    moreover have "y \<in> set (eventSet q)" "\<not> ev.same v y"
      using that by (auto simp: ev.mem_set_erase)
    ultimately have "y = v"
      using queue_inv_recorded [OF inv x, of y] ok v by (auto simp: pair_ok_def)
    with \<open>\<not> ev.same v y\<close> show False by (simp add: ev.irrefl)
  qed
  then show ?thesis
    by (subst ev.mem_set_insert) (auto simp: ev.sorted_set_erase sorted ev.mem_set_erase)
qed

text \<open>
  The invariant after any change that touches one sequence number only: its pair in the map and
  the events of the set that carry it.
\<close>

lemma queue_inv_replace:
  assumes inv: "queue_inv q" and m: "eventMap q = pre @ (k, p) # post"
    and sorted: "sorted_wrt event_less es" and ok: "pair_ok (k, p')" and e: "snd p' \<in> set es"
    and others: "\<And>v. sequenceNumber v \<noteq> k \<Longrightarrow> v \<in> set es \<longleftrightarrow> v \<in> set (eventSet q)"
    and own: "\<And>v. v \<in> set es \<Longrightarrow> sequenceNumber v = k \<Longrightarrow>
      (eventID v = SET_CURRENT_BEGIN \<longrightarrow> v = fst p') \<and> (eventID v = SET_CURRENT_END \<longrightarrow> v = snd p')"
  shows "queue_inv (q\<lparr>eventSet := es, eventMap := pre @ (k, p') # post\<rparr>)" (is "queue_inv ?q")
proof -
  have wf: "key.wf_map (eventMap q)" using inv by (simp add: queue_inv_def)
  then have d: "distinct (map fst (eventMap q))" by (rule key.wf_map_distinct)
  have wf': "key.wf_map (eventMap ?q)"
    using wf by (simp add: key.wf_map_keys m)
  have "pair_ok y \<and> snd (snd y) \<in> set es" if "y \<in> set pre \<union> set post" for y
  proof -
    have y: "pair_ok y" "snd (snd y) \<in> set (eventSet q)"
      using inv that by (auto simp: queue_inv_def m)
    moreover have "fst y \<noteq> k" using d that by (force simp: m)
    ultimately show ?thesis using others [of "snd (snd y)"] by (auto simp: pair_ok_def)
  qed
  moreover have "recorded (eventMap ?q) v" if "v \<in> set es" for v
  proof (cases "sequenceNumber v = k")
    case True
    moreover have "map_of (eventMap ?q) k = Some p'"
      using d by (subst map_of_eq_Some_iff) (simp_all add: m)
    ultimately show ?thesis using own [OF that] by (simp add: recorded_def)
  next
    case False
    then have "recorded (eventMap q) v" using others that inv by (auto simp: queue_inv_def)
    moreover have "map_of (eventMap ?q) (sequenceNumber v) = map_of (eventMap q) (sequenceNumber v)"
      using False by (simp add: m map_add_def split: option.splits)
    ultimately show ?thesis by (simp add: recorded_def)
  qed
  ultimately show ?thesis using sorted wf' ok e by (auto simp: queue_inv_def)
qed

lemma queue_inv_cut:
  assumes inv: "queue_inv q" and m: "eventMap q = pre @ (k, p) # post"
  shows "queue_inv (q\<lparr>eventSet := cut_set name s e (k, p) (eventSet q),
                     eventMap := pre @ (k, cut_pair name s e p) # post\<rparr>)"
proof -
  obtain b f where p: "p = (b, f)" by (cases p)
  have x: "(k, b, f) \<in> set (eventMap q)" by (simp add: m p)
  then have ok: "pair_ok (k, b, f)" and f: "f \<in> set (eventSet q)"
    and sorted: "sorted_wrt event_less (eventSet q)" using inv by (auto simp: queue_inv_def)
  note own = queue_inv_recorded [OF inv x]
  note mem_b = mem_retime [OF inv x disjI1 [OF refl], of _ e]
  note mem_f = mem_retime [OF inv x disjI2 [OF refl], of _ s]
  have fb: "ev.same b v \<Longrightarrow> sequenceNumber v = k \<and> eventID v = SET_CURRENT_BEGIN"
    "ev.same f v \<Longrightarrow> sequenceNumber v = k \<and> eventID v = SET_CURRENT_END" for v
    using ok by (auto simp: pair_ok_def same_event_iff)
  have ids: "eventID b = SET_CURRENT_BEGIN" "eventID f = SET_CURRENT_END"
    "sequenceNumber b = k" "sequenceNumber f = k"
    using ok by (auto simp: pair_ok_def)
  have pair_retime: "pair_ok (k, b\<lparr>eventTime := t\<rparr>, f)" "pair_ok (k, b, f\<lparr>eventTime := t\<rparr>)" for t
    using ok by (auto simp: pair_ok_def)
  have refl: "ev.same b b" "ev.same f f" by (simp_all add: ev.irrefl)
  consider "name \<noteq> event_batteryName b \<or> inside s e p"
    | "name = event_batteryName b" "covers s e p"
    | "name = event_batteryName b" "cuts_end s e p"
    | "name = event_batteryName b" "cuts_begin s e p" "\<not> covers s e p"
    by (metis merge_cases)
  then show ?thesis
  proof cases
    case 1
    then have "cut_pair name s e p = p" "cut_set name s e (k, p) (eventSet q) = eventSet q"
      by (auto simp: cut_pair_def cut_set_def p inside_def cuts_end_def cuts_begin_def Let_def)
    with inv show ?thesis by (simp flip: m)
  next
    case 2
    define v where "v = mk_event name CANCEL_SET_CURRENT_EVENT 0 s k"
    have v: "eventID v = CANCEL_SET_CURRENT_EVENT" "sequenceNumber v = k"
      by (simp_all add: v_def)
    have [simp]: "cut_pair name s e p = (b, f)"
      "cut_set name s e (k, p) (eventSet q) = es_insert v (eventSet q)"
      using 2 by (auto simp: cut_pair_def cut_set_def v_def p cuts_end_def cuts_begin_def covers_def)
    have mem: "w \<in> set (es_insert v (eventSet q)) \<Longrightarrow> w = v \<or> w \<in> set (eventSet q)" for w
      using ev.set_insert_subset by blast
    have "w \<in> set (es_insert v (eventSet q)) \<longleftrightarrow> w \<in> set (eventSet q)" if "sequenceNumber w \<noteq> k" for w
      using that v mem [of w] ev.set_insert_superset by blast
    moreover have "(eventID w = SET_CURRENT_BEGIN \<longrightarrow> w = b) \<and> (eventID w = SET_CURRENT_END \<longrightarrow> w = f)"
      if "w \<in> set (es_insert v (eventSet q))" "sequenceNumber w = k" for w
      using mem [OF that(1)] own [OF _ that(2)] v(1) by auto
    moreover have "f \<in> set (es_insert v (eventSet q))" using f ev.set_insert_superset by blast
    ultimately show ?thesis
      using ok sorted by (simp add: queue_inv_replace [OF inv m] ev.sorted_set_insert)
  next
    case 3
    then have [simp]: "cut_pair name s e p = (b, f\<lparr>eventTime := s\<rparr>)"
      "cut_set name s e (k, p) (eventSet q) =
        es_insert (f\<lparr>eventTime := s\<rparr>) (es_erase f (eventSet q))"
      by (auto simp: cut_pair_def cut_set_def p cuts_end_def)
    have "(eventID w = SET_CURRENT_BEGIN \<longrightarrow> w = b) \<and>
        (eventID w = SET_CURRENT_END \<longrightarrow> w = f\<lparr>eventTime := s\<rparr>)"
      if "w = f\<lparr>eventTime := s\<rparr> \<or> w \<in> set (eventSet q) \<and> \<not> ev.same f w" "sequenceNumber w = k" for w
      using that(1)
    proof (elim disjE conjE)
      assume "w \<in> set (eventSet q)" and "\<not> ev.same f w"
      with own [OF _ that(2)] refl(2) show ?thesis by metis
    qed (simp add: ids)
    moreover have "w = f\<lparr>eventTime := s\<rparr> \<or> w \<in> set (eventSet q) \<and> \<not> ev.same f w \<longleftrightarrow>
        w \<in> set (eventSet q)" if "sequenceNumber w \<noteq> k" for w
      using that fb(2) [of w] ids by auto
    ultimately show ?thesis
      using sorted by (intro queue_inv_replace [OF inv m])
        (simp_all add: mem_f pair_retime ev.sorted_set_insert ev.sorted_set_erase)
  next
    case 4
    then have [simp]: "cut_pair name s e p = (b\<lparr>eventTime := e\<rparr>, f)"
      "cut_set name s e (k, p) (eventSet q) =
        es_insert (b\<lparr>eventTime := e\<rparr>) (es_erase b (eventSet q))"
      by (auto simp: cut_pair_def cut_set_def p cuts_end_def cuts_begin_def)
    have "(eventID w = SET_CURRENT_BEGIN \<longrightarrow> w = b\<lparr>eventTime := e\<rparr>) \<and>
        (eventID w = SET_CURRENT_END \<longrightarrow> w = f)"
      if "w = b\<lparr>eventTime := e\<rparr> \<or> w \<in> set (eventSet q) \<and> \<not> ev.same b w" "sequenceNumber w = k" for w
      using that(1)
    proof (elim disjE conjE)
      assume "w \<in> set (eventSet q)" and "\<not> ev.same b w"
      with own [OF _ that(2)] refl(1) show ?thesis by metis
    qed (simp add: ids)
    moreover have "w = b\<lparr>eventTime := e\<rparr> \<or> w \<in> set (eventSet q) \<and> \<not> ev.same b w \<longleftrightarrow>
        w \<in> set (eventSet q)" if "sequenceNumber w \<noteq> k" for w
      using that fb(1) [of w] ids by auto
    moreover have "\<not> ev.same b f" using fb(1) [of f] ids by auto
    ultimately show ?thesis
      using sorted f by (intro queue_inv_replace [OF inv m])
        (simp_all add: mem_b pair_retime ev.sorted_set_insert ev.sorted_set_erase)
  qed
qed

lemma queue_inv_cut_all:
  assumes "queue_inv q" and "eventMap q = pre @ post"
  shows "queue_inv (q\<lparr>eventSet := fold (cut_set name s e) post (eventSet q),
                     eventMap := pre @ map (apsnd (cut_pair name s e)) post\<rparr>)"
  using assms
proof (induction post arbitrary: pre q)
  case Nil
  then have "pre = eventMap q" by simp
  then show ?case using Nil.prems(1) by simp
next
  case (Cons x post)
  let ?q = "q\<lparr>eventSet := cut_set name s e x (eventSet q),
               eventMap := pre @ (fst x, cut_pair name s e (snd x)) # post\<rparr>"
  have "queue_inv ?q"
    using queue_inv_cut [of q pre "fst x" "snd x" post] Cons.prems by simp
  from Cons.IH [OF this, of "pre @ [(fst x, cut_pair name s e (snd x))]"]
  show ?case by (cases x) simp
qed

text \<open>Adding a pair under a sequence number the map does not hold.\<close>

lemma sum_list_map_insert:
  assumes "map_of m k = None"
  shows "(\<Sum>x\<leftarrow>map_insert key_less k v m. g x) = g (k, v) + (\<Sum>x\<leftarrow>m. g x :: real)"
proof -
  have "(\<Sum>x\<leftarrow>set_insert (pair_less key_less) (k, v) m. g x) = g (k, v) + (\<Sum>x\<leftarrow>m. g x)"
    using assms
  proof (induction m)
    case (Cons p m)
    have "fst p \<noteq> k" using Cons.prems by (cases p) (auto split: if_splits)
    then have "pair_less key_less (k, v) p \<or> pair_less key_less p (k, v)"
      using key.total by (auto simp: pair_less_def)
    moreover have "map_of m k = None" using Cons.prems by (cases p) (auto split: if_splits)
    ultimately show ?case using Cons.IH by auto
  qed simp
  then show ?thesis by (simp add: map_insert_def)
qed

lemma set_map_insert_fresh:
  assumes "key.wf_map m" and "map_of m k = None"
  shows "set (map_insert key_less k v m) = insert (k, v) (set m)"
proof -
  have "\<forall>y \<in> set m. \<not> key.pairs.same (k, v) y"
    using assms(2) key.total by (force simp: pair_less_def map_of_eq_None_iff)
  then show ?thesis
    by (auto simp: map_insert_def key.pairs.mem_set_insert [OF assms(1)])
qed

lemma mem_insert_pair_events:
  assumes inv: "queue_inv q" and n: "map_of (eventMap q) n = None"
  shows "v \<in> set (eventSet (insert_pair name c s e n q)) \<longleftrightarrow>
    v = mk_event name SET_CURRENT_BEGIN c s n \<or> v = mk_event name SET_CURRENT_END c e n \<or>
    v \<in> set (eventSet q)"
proof -
  have sorted: "sorted_wrt event_less (eventSet q)" using inv by (simp add: queue_inv_def)
  have "\<forall>v \<in> set (eventSet q). sequenceNumber v = n \<longrightarrow>
      eventID v \<noteq> SET_CURRENT_BEGIN \<and> eventID v \<noteq> SET_CURRENT_END"
    using inv n by (auto simp: queue_inv_def recorded_def)
  note none = this
  let ?b = "mk_event name SET_CURRENT_BEGIN c s n" and ?f = "mk_event name SET_CURRENT_END c e n"
  have b: "set (es_insert ?b (eventSet q)) = insert ?b (set (eventSet q))"
    by (rule ev.set_insert_fresh [OF sorted]) (use none in \<open>auto simp: same_event_iff\<close>)
  have "set (es_insert ?f (es_insert ?b (eventSet q))) = insert ?f (set (es_insert ?b (eventSet q)))"
    by (rule ev.set_insert_fresh [OF ev.sorted_set_insert [OF sorted]])
      (use none in \<open>auto simp: same_event_iff b\<close>)
  then show ?thesis by (auto simp: insert_pair_def Let_def b)
qed

lemma queue_inv_insert_pair:
  assumes inv: "queue_inv q" and n: "map_of (eventMap q) n = None"
  shows "queue_inv (insert_pair name c s e n q)"
proof -
  let ?q = "insert_pair name c s e n q"
  let ?p = "(mk_event name SET_CURRENT_BEGIN c s n, mk_event name SET_CURRENT_END c e n)"
  have wf: "key.wf_map (eventMap q)" and sorted: "sorted_wrt event_less (eventSet q)"
    using inv by (auto simp: queue_inv_def)
  have m: "eventMap ?q = map_insert key_less n ?p (eventMap q)"
    by (simp add: insert_pair_def Let_def)
  have wf': "key.wf_map (eventMap ?q)" using wf by (simp add: m key.wf_map_insert)
  have sorted': "sorted_wrt event_less (eventSet ?q)"
    using sorted by (simp add: insert_pair_def Let_def ev.sorted_set_insert)
  have ok: "pair_ok (n, ?p)" by (simp add: pair_ok_def in_int64_bound)
  have at: "map_of (eventMap ?q) = (map_of (eventMap q))(n \<mapsto> ?p)"
    by (simp add: m key.map_of_insert [OF wf] n)
  have "recorded (eventMap ?q) v" if "v \<in> set (eventSet ?q)" for v
    using that inv n unfolding mem_insert_pair_events [OF inv n]
    by (auto simp: recorded_def at queue_inv_def)
  moreover have "pair_ok x \<and> snd (snd x) \<in> set (eventSet ?q)" if "x \<in> set (eventMap ?q)" for x
    using that inv ok unfolding mem_insert_pair_events [OF inv n] m set_map_insert_fresh [OF wf n]
    by (auto simp: queue_inv_def)
  ultimately show ?thesis using wf' sorted' by (simp add: queue_inv_def)
qed

lemma queue_inv_drop_pair:
  assumes inv: "queue_inv q" and n: "map_of (eventMap q) n = Some p"
  shows "queue_inv (q\<lparr>eventSet := es_erase (snd p) (es_erase (fst p) (eventSet q)),
                     eventMap := map_erase n (eventMap q)\<rparr>)"
proof -
  obtain b f where p: "p = (b, f)" by (cases p)
  have x: "(n, b, f) \<in> set (eventMap q)" using inv n by (simp add: queue_inv_map_of p)
  then have ok: "pair_ok (n, b, f)" using inv by (auto simp: queue_inv_def)
  have mem: "v \<in> set (es_erase f (es_erase b (eventSet q))) \<longleftrightarrow>
      v \<in> set (eventSet q) \<and> \<not> ev.same b v \<and> \<not> ev.same f v" for v
    by (auto simp: ev.mem_set_erase)
  have rec: "recorded (map_erase n (eventMap q)) v"
    if "v \<in> set (es_erase f (es_erase b (eventSet q)))" for v
    using that inv ok queue_inv_recorded [OF inv x, of v] unfolding mem
    by (auto simp: recorded_def pair_ok_def same_event_iff queue_inv_def)
  have ends: "snd (snd y) \<in> set (es_erase f (es_erase b (eventSet q)))"
    if "y \<in> set (map_erase n (eventMap q))" for y
    using that inv ok unfolding mem
    by (auto simp: queue_inv_def pair_ok_def same_event_iff)
  show ?thesis
    using inv rec ends
    by (simp add: queue_inv_def p ev.sorted_set_erase key.wf_map_erase)
qed

lemma merge_fresh:
  assumes inv: "queue_inv q" and n: "map_of (eventMap q) n = None"
  shows "checkMergeAndInsertEvents name c s e n q =
    Inr (insert_pair name (c - (\<Sum>x\<leftarrow>eventMap q. overlap name s e x)) s e n
      (q\<lparr>eventSet := fold (cut_set name s e) (eventMap q) (eventSet q),
         eventMap := map (apsnd (cut_pair name s e)) (eventMap q)\<rparr>))"
proof -
  have "distinct (map fst (eventMap q))" "\<forall>x \<in> set (eventMap q). pair_ok x"
    using inv key.wf_map_distinct unfolding queue_inv_def by blast+
  then show ?thesis
    using merge_loop [of q "[]" "eventMap q" name s e c]
    by (simp add: checkMergeAndInsertEvents_def n)
qed

lemma map_of_apsnd: "map_of (map (apsnd g) m) k = map_option g (map_of m k)"
  by (induction m) auto

lemma checkMerge_inv:
  assumes inv: "queue_inv q"
  shows "\<exists>q'. checkMergeAndInsertEvents name c s e n q = Inr q' \<and> queue_inv q'"
proof (cases "map_of (eventMap q) n")
  case None
  let ?q = "q\<lparr>eventSet := fold (cut_set name s e) (eventMap q) (eventSet q),
              eventMap := map (apsnd (cut_pair name s e)) (eventMap q)\<rparr>"
  have "queue_inv ?q" using queue_inv_cut_all [OF inv, of "[]"] by simp
  moreover have "map_of (eventMap ?q) n = None" using None by (simp add: map_of_apsnd)
  ultimately show ?thesis by (simp add: merge_fresh [OF inv None] queue_inv_insert_pair)
next
  case (Some p)
  then show ?thesis
    using queue_inv_drop_pair [OF inv Some]
    by (auto simp: checkMergeAndInsertEvents_def Let_def intro!: queue_inv_insert_pair)
qed

text \<open>The merge changes nothing but the queue of the object that carries it.\<close>

lemma merge_step_more:
  "merge_step name s e k (q, c) = Inr (q', c') \<Longrightarrow> event_queue.more q' = event_queue.more q"
  by (auto simp: merge_step_def Let_def split: if_splits)

lemma checkMerge_more:
  assumes "checkMergeAndInsertEvents name c s e n q = Inr q'"
  shows "event_queue.more q' = event_queue.more q"
proof (cases "map_of (eventMap q) n")
  case None
  let ?P = "\<lambda>xs u. event_queue.more (fst u) = event_queue.more q"
  from None assms obtain u where
      run: "ofold (merge_step name s e) (map fst (eventMap q)) (q, c) = Inr u"
    and q': "q' = insert_pair name (snd u) s e n (fst u)"
    by (auto simp: checkMergeAndInsertEvents_def)
  have "?P [] u" using run
    by (rule ofold_invariant [where P = ?P]) (auto dest: merge_step_more)
  with q' show ?thesis by (simp add: insert_pair_def Let_def)
next
  case (Some p)
  with assms show ?thesis by (auto simp: checkMergeAndInsertEvents_def insert_pair_def Let_def)
qed

section \<open>The merge implements an assignment to an interval of the schedule\<close>

lemma cancelled_insert:
  assumes "sorted_wrt event_less es"
  shows "cancelled (es_insert v es) n \<longleftrightarrow>
    cancelled es n \<or> eventID v = CANCEL_SET_CURRENT_EVENT \<and> sequenceNumber v = n"
proof -
  have "\<exists>w \<in> set (es_insert v es). ev.same v w"
    using ev.mem_set_insert [OF assms] ev.irrefl by blast
  then show ?thesis
    using ev.mem_set_insert [OF assms] unfolding cancelled_def same_event_iff by metis
qed

lemma cancelled_erase:
  "eventID v \<noteq> CANCEL_SET_CURRENT_EVENT \<Longrightarrow> cancelled (es_erase v es) n = cancelled es n"
  unfolding cancelled_def ev.set_set_erase same_event_iff by auto

lemma sorted_cut_set:
  "sorted_wrt event_less es \<Longrightarrow> sorted_wrt event_less (cut_set name s e x es)"
  by (simp add: cut_set_def Let_def ev.sorted_set_insert ev.sorted_set_erase)

lemma cancelled_cut_set:
  assumes "sorted_wrt event_less es" and "pair_ok x"
  shows "cancelled (cut_set name s e x es) n \<longleftrightarrow>
    cancelled es n \<or> n = fst x \<and> name = event_batteryName (fst (snd x)) \<and> covers s e (snd x)"
  using assms
  by (auto simp: cut_set_def Let_def cancelled_insert cancelled_erase ev.sorted_set_erase
      pair_ok_def split: prod.splits)

lemma cancelled_cut_all:
  assumes "sorted_wrt event_less es" and "\<forall>x \<in> set xs. pair_ok x"
  shows "cancelled (fold (cut_set name s e) xs es) n \<longleftrightarrow> cancelled es n \<or>
    (\<exists>x \<in> set xs. n = fst x \<and> name = event_batteryName (fst (snd x)) \<and> covers s e (snd x))"
  using assms
  by (induction xs arbitrary: es) (auto simp: cancelled_cut_set sorted_cut_set)

text \<open>
  The two conditions under which the merge does what it is for: no request that is about to be
  cancelled spans the new interval (its current would be subtracted although it never flows), and
  no live request lies apart from the new interval (it would be stretched to touch it).
\<close>

definition no_stale_cover :: "'a event_queue_scheme \<Rightarrow> string \<Rightarrow> timepoint \<Rightarrow> timepoint \<Rightarrow> bool" where
  "no_stale_cover q name s e \<longleftrightarrow>
     (\<forall>x \<in> set (eventMap q). event_batteryName (fst (snd x)) = name \<and> inside s e (snd x) \<longrightarrow>
        \<not> cancelled (eventSet q) (fst x))"

definition no_gap :: "'a event_queue_scheme \<Rightarrow> string \<Rightarrow> timepoint \<Rightarrow> timepoint \<Rightarrow> bool" where
  "no_gap q name s e \<longleftrightarrow>
     (\<forall>x \<in> set (eventMap q).
        event_batteryName (fst (snd x)) = name \<and> \<not> cancelled (eventSet q) (fst x) \<longrightarrow>
        s \<le> eventTime (snd (snd x)) \<and> eventTime (fst (snd x)) \<le> e)"

definition spare :: "'a event_queue_scheme \<Rightarrow> string \<Rightarrow> timepoint \<Rightarrow> timepoint \<Rightarrow> real" where
  "spare q name s e = (\<Sum>x\<leftarrow>eventMap q. overlap name s e x)"

definition fresh_seq :: "'a event_queue_scheme \<Rightarrow> 64 word \<Rightarrow> bool" where
  "fresh_seq q n \<longleftrightarrow> map_of (eventMap q) n = None \<and> \<not> cancelled (eventSet q) n"

lemma cut_cancelled:
  assumes "queue_inv q" and "x \<in> set (eventMap q)"
  shows "cancelled (fold (cut_set name s e) (eventMap q) (eventSet q)) (fst x) \<longleftrightarrow>
    cancelled (eventSet q) (fst x) \<or>
    name = event_batteryName (fst (snd x)) \<and> covers s e (snd x)"
proof -
  have "y = x" if "y \<in> set (eventMap q)" "fst y = fst x" for y
    using that assms queue_inv_map_of [OF assms(1)] by (metis option.inject prod.collapse)
  moreover have "sorted_wrt event_less (eventSet q)" "\<forall>x \<in> set (eventMap q). pair_ok x"
    using assms(1) by (auto simp: queue_inv_def)
  ultimately show ?thesis using assms(2) by (subst cancelled_cut_all) auto
qed

text \<open>Inside the new interval only the requests spanning it remain, outside nothing changes.\<close>

lemma cut_contribution_inside:
  assumes "queue_inv q" and "x \<in> set (eventMap q)" and "no_stale_cover q name s e"
    and "s \<le> t" and "t < e"
  shows "contribution (fold (cut_set name s e) (eventMap q) (eventSet q)) name t
      (apsnd (cut_pair name s e) x) = overlap name s e x"
  using assms(3-5) assms(2) cut_cancelled [OF assms(1,2), of name s e]
  by (cases x; cases "covers s e (snd x)")
    (auto simp: contribution_def overlap_def cut_pair_def no_stale_cover_def inside_def
      cuts_end_def cuts_begin_def covers_def split: if_splits)

lemma cut_contribution_outside:
  assumes "queue_inv q" and "x \<in> set (eventMap q)" and "no_gap q name s e"
    and "t < s \<or> e \<le> t" and "s \<le> e"
  shows "contribution (fold (cut_set name s e) (eventMap q) (eventSet q)) name t
      (apsnd (cut_pair name s e) x) = contribution (eventSet q) name t x"
proof (cases "event_batteryName (fst (snd x)) = name \<and> \<not> cancelled (eventSet q) (fst x)")
  case True
  then have "s \<le> eventTime (snd (snd x))" "eventTime (fst (snd x)) \<le> e"
    using assms(2,3) by (auto simp: no_gap_def)
  with True assms(4,5) cut_cancelled [OF assms(1,2), of name s e] show ?thesis
    by (cases x; cases "covers s e (snd x)")
      (auto simp: contribution_def cut_pair_def cuts_end_def cuts_begin_def covers_def)
next
  case False
  with cut_cancelled [OF assms(1,2), of name s e] show ?thesis
    by (cases x) (auto simp: contribution_def cut_pair_def)
qed

lemma cut_contribution_other:
  assumes "queue_inv q" and "x \<in> set (eventMap q)" and "name' \<noteq> name"
  shows "contribution (fold (cut_set name s e) (eventMap q) (eventSet q)) name' t
      (apsnd (cut_pair name s e) x) = contribution (eventSet q) name' t x"
  using assms(3) cut_cancelled [OF assms(1,2), of name s e]
  by (cases x) (auto simp: contribution_def cut_pair_def)

lemma cancelled_insert_pair:
  assumes "sorted_wrt event_less (eventSet q)"
  shows "cancelled (eventSet (insert_pair name c s e n q)) m = cancelled (eventSet q) m"
  using assms by (simp add: insert_pair_def Let_def cancelled_insert ev.sorted_set_insert)

lemma level_insert_pair:
  assumes "queue_inv q" and "fresh_seq q n"
  shows "level (insert_pair name c s e n q) name' t =
    level q name' t + (if name' = name \<and> s \<le> t \<and> t < e then of_int (to_int64 c) else 0)"
proof -
  have "sorted_wrt event_less (eventSet q)" using assms(1) by (simp add: queue_inv_def)
  then have "contribution (eventSet (insert_pair name c s e n q)) name' t =
      contribution (eventSet q) name' t"
    by (simp add: fun_eq_iff contribution_def cancelled_insert_pair)
  moreover have "map_of (eventMap q) n = None" "\<not> cancelled (eventSet q) n"
    using assms(2) by (simp_all add: fresh_seq_def)
  moreover from this have "contribution (eventSet q) name' t
      (n, mk_event name SET_CURRENT_BEGIN c s n, mk_event name SET_CURRENT_END c e n) =
      (if name' = name \<and> s \<le> t \<and> t < e then of_int (to_int64 c) else 0)"
    by (auto simp: contribution_def)
  ultimately show ?thesis
    by (simp add: level_def) (auto simp: insert_pair_def Let_def sum_list_map_insert)
qed

lemma cut_all_fresh:
  assumes "queue_inv q" and "fresh_seq q n"
  shows "fresh_seq (q\<lparr>eventSet := fold (cut_set name s e) (eventMap q) (eventSet q),
    eventMap := map (apsnd (cut_pair name s e)) (eventMap q)\<rparr>) n"
proof -
  have "sorted_wrt event_less (eventSet q)" "\<forall>x \<in> set (eventMap q). pair_ok x"
    using assms(1) by (auto simp: queue_inv_def)
  with assms(2) show ?thesis
    by (force simp: fresh_seq_def map_of_apsnd cancelled_cut_all map_of_eq_None_iff)
qed

lemma checkMerge_level:
  assumes inv: "queue_inv q" and n: "fresh_seq q n"
    and run: "checkMergeAndInsertEvents name c s e n q = Inr q'"
  shows "level q' name' t =
    (\<Sum>x\<leftarrow>eventMap q. contribution (fold (cut_set name s e) (eventMap q) (eventSet q)) name' t
        (apsnd (cut_pair name s e) x)) +
    (if name' = name \<and> s \<le> t \<and> t < e then of_int (to_int64 (c - spare q name s e)) else 0)"
proof -
  let ?q = "q\<lparr>eventSet := fold (cut_set name s e) (eventMap q) (eventSet q),
              eventMap := map (apsnd (cut_pair name s e)) (eventMap q)\<rparr>"
  have "queue_inv ?q" using queue_inv_cut_all [OF inv, of "[]"] by simp
  moreover have "fresh_seq ?q n" using cut_all_fresh [OF inv n] .
  moreover have "q' = insert_pair name (c - spare q name s e) s e n ?q"
    using run n by (simp add: merge_fresh [OF inv] fresh_seq_def spare_def)
  ultimately show ?thesis
    by (simp add: level_insert_pair) (simp add: level_def comp_def)
qed

lemma checkMerge_assigns:
  assumes inv: "queue_inv q" and n: "fresh_seq q n" and "s \<le> e"
    and gap: "no_gap q name s e" and cover: "no_stale_cover q name s e"
    and c: "int64_valued (c - spare q name s e)"
    and run: "checkMergeAndInsertEvents name c s e n q = Inr q'"
  shows "level q' name' t = (if name' = name \<and> s \<le> t \<and> t < e then c else level q name' t)"
proof (cases "name' = name")
  case False
  then have "(\<Sum>x\<leftarrow>eventMap q. contribution (fold (cut_set name s e) (eventMap q) (eventSet q)) name' t
        (apsnd (cut_pair name s e) x)) = level q name' t"
    unfolding level_def
    by (intro arg_cong [where f = sum_list] map_cong refl cut_contribution_other [OF inv])
  with False checkMerge_level [OF inv n run] show ?thesis by simp
next
  case True
  show ?thesis
  proof (cases "s \<le> t \<and> t < e")
    case inside: True
    then have "(\<Sum>x\<leftarrow>eventMap q. contribution (fold (cut_set name s e) (eventMap q) (eventSet q)) name t
        (apsnd (cut_pair name s e) x)) = spare q name s e"
      unfolding spare_def
      by (intro arg_cong [where f = sum_list] map_cong refl cut_contribution_inside [OF inv _ cover])
        auto
    with True inside c checkMerge_level [OF inv n run] show ?thesis
      by (simp add: int64_valued_def)
  next
    case outside: False
    then have "(\<Sum>x\<leftarrow>eventMap q. contribution (fold (cut_set name s e) (eventMap q) (eventSet q)) name t
        (apsnd (cut_pair name s e) x)) = level q name t"
      unfolding level_def using \<open>s \<le> e\<close>
      by (intro arg_cong [where f = sum_list] map_cong refl cut_contribution_outside [OF inv _ gap])
        auto
    with True outside show ?thesis
      unfolding checkMerge_level [OF inv n run] by auto
  qed
qed

section \<open>Properties of the queue\<close>

text \<open>A queue holding one request, used to exercise the properties: 5 mA on \<open>[10, 20)\<close>.\<close>

definition sample_queue :: event_queue where
  "sample_queue = insert_pair ''b'' 5 10 20 1 \<lparr>eventSet = [], eventMap = []\<rparr>"

lemma sample_queue_eq:
  "sample_queue =
    \<lparr>eventSet = [mk_event ''b'' SET_CURRENT_BEGIN 5 10 1, mk_event ''b'' SET_CURRENT_END 5 20 1],
     eventMap = [(1, mk_event ''b'' SET_CURRENT_BEGIN 5 10 1, mk_event ''b'' SET_CURRENT_END 5 20 1)]\<rparr>"
  by (simp add: sample_queue_def insert_pair_def Let_def map_insert_def event_less_def)

lemma sample_queue_inv: "queue_inv sample_queue"
  unfolding sample_queue_def by (rule queue_inv_insert_pair) (simp_all add: queue_inv_def)

text \<open>
  C1: \<open>checkMergeAndInsertEvents\<close> never leaves through an exception of \<open>eventMap.at\<close> and keeps the
  queue well formed: the event set and map sorted by their comparisons, each pair made of a begin
  and an end event that agree on sequence number, battery and current, the end event still pending,
  and every pending begin or end event being the one its pair records.
\<close>

theorem merge_preserves_queue:
  assumes "queue_inv q"
  shows "\<exists>q'. checkMergeAndInsertEvents name c s e n q = Inr q' \<and> queue_inv q'"
  using assms by (rule checkMerge_inv)

theorem merge_preserves_queue_witness:
  "\<exists>q'. checkMergeAndInsertEvents ''b'' 7 15 30 2 sample_queue = Inr q' \<and> queue_inv q'"
  using merge_preserves_queue [OF sample_queue_inv] .



text \<open>
  A request of the same battery that ended before the new one starts is stretched: the branch
  that cuts an overlapping request at \<open>startTime\<close> does not test that the two overlap, so its end
  event moves later, to the start of the new request, and the old current flows in the gap.
\<close>

theorem merge_stretches_earlier_request:
  assumes inv: "queue_inv q" and n: "map_of (eventMap q) n = None"
    and k: "map_of (eventMap q) k = Some (b, f)" and name: "event_batteryName b = name"
    and order: "eventTime b \<le> eventTime f" "eventTime f < s" "s \<le> e"
  shows "\<exists>q'. checkMergeAndInsertEvents name c s e n q = Inr q' \<and>
    map_of (eventMap q') k = Some (b, f\<lparr>eventTime := s\<rparr>)"
proof -
  have wf: "key.wf_map (map (apsnd (cut_pair name s e)) (eventMap q))"
    using inv by (simp add: key.wf_map_keys queue_inv_def)
  have "n \<noteq> k" using n k by auto
  moreover have "cut_pair name s e (b, f) = (b, f\<lparr>eventTime := s\<rparr>)"
    using name order by (auto simp: cut_pair_def cuts_end_def covers_def)
  ultimately show ?thesis
    using k n
    by (simp add: merge_fresh [OF inv n])
      (simp add: insert_pair_def Let_def key.map_of_insert [OF wf] map_of_apsnd)
qed

theorem merge_stretches_earlier_request_witness:
  "\<exists>q'. checkMergeAndInsertEvents ''b'' 7 30 40 2 sample_queue = Inr q' \<and>
    map_of (eventMap q') 1 = Some (mk_event ''b'' SET_CURRENT_BEGIN 5 10 1,
      (mk_event ''b'' SET_CURRENT_END 5 20 1)\<lparr>eventTime := 30\<rparr>)"
  by (rule merge_stretches_earlier_request [OF sample_queue_inv]) (simp_all add: sample_queue_eq)

end
