(* ===== verification/V3_Battery.thy ===== *)
theory V3_Battery
  imports V3_Events
begin

text \<open>
  The batteries of BatteryOS-V3 (\<open>BatteryInterface.cpp\<close> and the battery classes derived from it) as
  objects of an explicit heap, because aggregates and partition managers share their sources and a
  call on one battery changes the status of others. An address is a \<open>nat\<close>; a \<open>shared_ptr\<close> is an
  address, a \<open>weak_ptr\<close> an address that may have been freed, a virtual call a case on the kind.

  The functions a dynamic battery loads from a shared library are parameters of the model: they
  are fields of the environment, together with the clock, read once per operation. Locking is not
  modelled: an operation is one step of the system.
\<close>

section \<open>Objects\<close>

type_synonym addr = nat

datatype 'd kind =
    PhysicalBattery
  | PseudoBattery (runningThread: bool)
  | DynamicBattery (driver: 'd)
  | AggregateBattery (parents: "addr list") (eff_charge_c_rate: real) (eff_discharge_c_rate: real)
  | PartitionBattery (partition_source: "addr option") (runningThread: bool)
      (requested_current_mA: real)
  | PartitionManager (policyType: PolicyType) (manager_source: addr)
      (child_proportions: "Scale list") (children: "addr list")
  | SecureBattery

record 'd battery = event_queue +
  batteryName :: string
  battery_type :: BatteryType
  quitThread :: bool
  bat_current_mA :: real
  bat_status :: BatteryStatus
  refreshMode :: RefreshMode
  maxStaleness :: int
  kind :: "'d kind"

record 'd system =
  heap :: "addr \<Rightarrow> 'd battery option"
  nextAddr :: addr
  SEQUENCE_NUMBER :: "64 word"

record 'd env =
  getTimeNow :: timepoint
  refreshFunc :: "'d \<Rightarrow> BatteryStatus \<times> 'd"
  setCurrentFunc :: "'d \<Rightarrow> real \<Rightarrow> bool \<times> 'd"

definition deref :: "addr \<Rightarrow> 'd system \<Rightarrow> 'd battery outcome" where
  "deref a s = (case heap s a of None \<Rightarrow> Inl Null_deref | Some b \<Rightarrow> Inr b)"

definition upd :: "addr \<Rightarrow> ('d battery \<Rightarrow> 'd battery) \<Rightarrow> 'd system \<Rightarrow> 'd system" where
  "upd a f s = s\<lparr>heap := (heap s)(a := map_option f (heap s a))\<rparr>"

definition getSequenceNumber :: "'d system \<Rightarrow> 64 word \<times> 'd system" where
  "getSequenceNumber s = (SEQUENCE_NUMBER s, s\<lparr>SEQUENCE_NUMBER := SEQUENCE_NUMBER s + 1\<rparr>)"

section \<open>Arithmetic of aggregation and partition\<close>

definition calc_c_rate :: "real \<Rightarrow> real \<Rightarrow> real" where
  "calc_c_rate current capacity = (if capacity = 0 then 0 else current / capacity)"

definition charge_rate_of :: "BatteryStatus \<Rightarrow> real" where
  "charge_rate_of st =
     calc_c_rate (max_charging_current_mA st) (max_capacity_mAh st - capacity_mAh st)"

definition discharge_rate_of :: "BatteryStatus \<Rightarrow> real" where
  "discharge_rate_of st = calc_c_rate (max_discharging_current_mA st) (capacity_mAh st)"

text \<open>The lambda \<open>min\<close> of \<open>set_c_rate\<close>: it starts from \<open>s[0]\<close>.\<close>

definition min_rate :: "real list \<Rightarrow> real outcome" where
  "min_rate rs =
    (case rs of [] \<Rightarrow> Inl Bad_index
     | r # _ \<Rightarrow> Inr (foldl (\<lambda>minValue val. if val < minValue then val else minValue) r rs))"

text \<open>One turn of the loop of \<open>calcStatusVals\<close>: the status under construction and the two powers.\<close>

definition add_parent ::
  "real \<Rightarrow> real \<Rightarrow> BatteryStatus \<Rightarrow> BatteryStatus \<times> dbl \<times> dbl \<Rightarrow> BatteryStatus \<times> dbl \<times> dbl" where
  "add_parent eff_c eff_d p acc =
    (case acc of (new, cpow, dpow) \<Rightarrow>
      let chargeCapacity = max_capacity_mAh p - capacity_mAh p;
          dischargeCapacity = capacity_mAh p
      in (new\<lparr>current_mA := current_mA new + current_mA p,
              capacity_mAh := capacity_mAh new + capacity_mAh p,
              max_capacity_mAh := max_capacity_mAh new + max_capacity_mAh p,
              max_charging_current_mA := max_charging_current_mA new + chargeCapacity * eff_c,
              max_discharging_current_mA :=
                max_discharging_current_mA new + dischargeCapacity * eff_d\<rparr>,
          dbl_add cpow (dbl_scale (chargeCapacity * eff_c) (voltage_mV p)),
          dbl_add dpow (dbl_scale (dischargeCapacity * eff_d) (voltage_mV p))))"

definition finish_status ::
  "timepoint \<Rightarrow> BatteryStatus \<times> dbl \<times> dbl \<Rightarrow> BatteryStatus" where
  "finish_status now acc =
    (case acc of (new, cpow, dpow) \<Rightarrow>
      new\<lparr>voltage_mV := (if max_charging_current_mA new \<noteq> 0
             then dbl_over cpow (max_charging_current_mA new)
             else dbl_over dpow (max_discharging_current_mA new)),
          status_time := convertToMilliseconds now\<rparr>)"

text \<open>The current an aggregate asks of one parent.\<close>

definition parent_target :: "real \<Rightarrow> real \<Rightarrow> BatteryStatus \<Rightarrow> real" where
  "parent_target current c_rate p =
    (if current < 0 then - (max_capacity_mAh p - capacity_mAh p) * c_rate
     else capacity_mAh p * c_rate)"

section \<open>Status and refresh\<close>

text \<open>
  The functions that go down the source graph take the recursive call as an argument; the knot is
  tied by \<open>getStatus\<close> below.
\<close>

type_synonym 'd status_fun = "addr \<Rightarrow> 'd system \<Rightarrow> (BatteryStatus \<times> 'd system) outcome"

definition set_rates :: "real \<Rightarrow> real \<Rightarrow> 'd battery \<Rightarrow> 'd battery" where
  "set_rates c d b =
    (case kind b of
       AggregateBattery ps _ _ \<Rightarrow> b\<lparr>kind := AggregateBattery ps c d\<rparr>
     | _ \<Rightarrow> b)"

definition set_c_rate :: "'d status_fun \<Rightarrow> addr \<Rightarrow> addr list \<Rightarrow> 'd system \<Rightarrow>
    (real \<times> real \<times> 'd system) outcome" where
  "set_c_rate G a ps s =
    obind (ofold (\<lambda>p (cs, ds, s). obind (G p s) (\<lambda>(st, s').
             Inr (cs @ [charge_rate_of st], ds @ [discharge_rate_of st], s'))) ps ([], [], s))
      (\<lambda>(cs, ds, s').
        obind (min_rate cs) (\<lambda>c. obind (min_rate ds) (\<lambda>d.
          Inr (c, d, upd a (set_rates c d) s'))))"

definition calcStatusVals :: "'d status_fun \<Rightarrow> 'd env \<Rightarrow> addr \<Rightarrow> addr list \<Rightarrow> 'd system \<Rightarrow>
    (BatteryStatus \<times> 'd system) outcome" where
  "calcStatusVals G env a ps s =
    obind (set_c_rate G a ps s) (\<lambda>(c, d, s1).
      obind (ofold (\<lambda>p (acc, s). obind (G p s) (\<lambda>(st, s'). Inr (add_parent c d st acc, s')))
               ps ((default_status, Fin 0, Fin 0), s1))
        (\<lambda>(acc, s2). Inr (finish_status (getTimeNow env) acc, s2)))"

definition setMaxChargingCurrent :: "real \<Rightarrow> 'd battery \<Rightarrow> 'd battery" where
  "setMaxChargingCurrent c b = b\<lparr>bat_status := (bat_status b)\<lparr>max_charging_current_mA := c\<rparr>\<rparr>"

definition setMaxDischargingCurrent :: "real \<Rightarrow> 'd battery \<Rightarrow> 'd battery" where
  "setMaxDischargingCurrent c b = b\<lparr>bat_status := (bat_status b)\<lparr>max_discharging_current_mA := c\<rparr>\<rparr>"

definition refreshProportional ::
  "BatteryStatus \<Rightarrow> Scale list \<Rightarrow> addr list \<Rightarrow> 'd system \<Rightarrow> 'd system outcome" where
  "refreshProportional pStatus props cs s =
    ofold (\<lambda>index s. obind (deref (cs ! index) s) (\<lambda>_.
        if index < length props then
          Inr (upd (cs ! index)
            (setMaxDischargingCurrent
               (max_discharging_current_mA pStatus * charge_proportion (props ! index)) \<circ>
             setMaxChargingCurrent
               (max_charging_current_mA pStatus * charge_proportion (props ! index))) s)
        else Inl Bad_index))
      [0..<length cs] s"

definition refreshTranched :: "BatteryStatus \<Rightarrow> 'd system \<Rightarrow> 'd system outcome" where
  "refreshTranched pStatus s = Inr s"

definition refreshReserved :: "BatteryStatus \<Rightarrow> 'd system \<Rightarrow> 'd system outcome" where
  "refreshReserved pStatus s = Inr s"

definition stamp :: "timepoint \<Rightarrow> 'd battery \<Rightarrow> 'd battery" where
  "stamp now b = b\<lparr>bat_status := (bat_status b)\<lparr>status_time := convertToMilliseconds now\<rparr>\<rparr>"

text \<open>\<open>refresh\<close> is virtual as well; \<open>G\<close> is \<open>getStatus\<close> of the sources.\<close>

definition partition_refresh :: "'d env \<Rightarrow> 'd status_fun" where [simp]:
  "partition_refresh env a s =
    obind (deref a s) (\<lambda>b.
      Inr (bat_status (stamp (getTimeNow env) b), upd a (stamp (getTimeNow env)) s))"

definition dynamic_refresh :: "'d env \<Rightarrow> 'd \<Rightarrow> 'd status_fun" where [simp]:
  "dynamic_refresh env d a s =
    (let (st, d') = refreshFunc env d in Inr (st, upd a (\<lambda>b. b\<lparr>kind := DynamicBattery d'\<rparr>) s))"

definition manager_refresh ::
  "'d status_fun \<Rightarrow> 'd env \<Rightarrow> PolicyType \<Rightarrow> addr \<Rightarrow> Scale list \<Rightarrow> addr list \<Rightarrow> 'd status_fun" where [simp]:
  "manager_refresh G env policy src props cs a s =
    obind (G src s) (\<lambda>(pStatus, s1).
      obind (case policy of
               PROPORTIONAL \<Rightarrow> refreshProportional pStatus props cs s1
             | RESERVED \<Rightarrow> refreshReserved pStatus s1
             | TRANCHED \<Rightarrow> refreshTranched pStatus s1)
        (\<lambda>s2. obind (deref a (upd a (stamp (getTimeNow env)) s2)) (\<lambda>b'.
           Inr (bat_status b', upd a (stamp (getTimeNow env)) s2))))"

definition refresh_with :: "'d status_fun \<Rightarrow> 'd env \<Rightarrow> 'd status_fun" where
  "refresh_with G env a s =
    obind (deref a s) (\<lambda>b.
      case kind b of
        PhysicalBattery \<Rightarrow> Inr (bat_status b, s)
      | SecureBattery \<Rightarrow> Inr (bat_status b, s)
      | PseudoBattery _ \<Rightarrow> partition_refresh env a s
      | PartitionBattery _ _ _ \<Rightarrow> partition_refresh env a s
      | DynamicBattery d \<Rightarrow> dynamic_refresh env d a s
      | AggregateBattery ps _ _ \<Rightarrow> calcStatusVals G env a ps s
      | PartitionManager policy src props cs \<Rightarrow> manager_refresh G env policy src props cs a s)"

definition is_stale :: "timepoint \<Rightarrow> 'd battery \<Rightarrow> bool" where
  "is_stale now b \<longleftrightarrow> now - convertToTimestamp (status_time (bat_status b)) > maxStaleness b"

definition checkAndRefresh_with :: "'d status_fun \<Rightarrow> 'd env \<Rightarrow> 'd status_fun" where
  "checkAndRefresh_with G env a s =
    obind (deref a s) (\<lambda>b.
      if refreshMode b = LAZY \<and> is_stale (getTimeNow env) b then refresh_with G env a s
      else Inr (bat_status b, s))"

definition set_status :: "addr \<Rightarrow> BatteryStatus \<Rightarrow> 'd system \<Rightarrow> 'd system" where
  "set_status a st s = upd a (\<lambda>b. b\<lparr>bat_status := st\<rparr>) s"

fun getStatus :: "nat \<Rightarrow> 'd env \<Rightarrow> 'd status_fun" where
  "getStatus 0 env a s = Inl No_fuel"
| "getStatus (Suc n) env a s =
    obind (deref a s) (\<lambda>b.
      if refreshMode b = LAZY then
        obind (checkAndRefresh_with (getStatus n env) env a s) (\<lambda>(st, s').
          Inr (st, set_status a st s'))
      else Inr (bat_status b, s))"

definition checkAndRefresh :: "nat \<Rightarrow> 'd env \<Rightarrow> 'd status_fun" where
  "checkAndRefresh n env = checkAndRefresh_with (getStatus n env) env"

definition refresh :: "nat \<Rightarrow> 'd env \<Rightarrow> 'd status_fun" where
  "refresh n env = refresh_with (getStatus n env) env"

section \<open>Setting the current\<close>

text \<open>Starting and joining the charging thread is the flag \<open>runningThread\<close>.\<close>

definition physical_set_current :: "real \<Rightarrow> 'd battery \<Rightarrow> bool \<times> 'd battery" where [simp]:
  "physical_set_current c b = (True, b\<lparr>bat_status := (bat_status b)\<lparr>current_mA := c\<rparr>\<rparr>)"

definition pseudo_set_current :: "bool \<Rightarrow> real \<Rightarrow> 'd battery \<Rightarrow> bool \<times> 'd battery" where [simp]:
  "pseudo_set_current running c b =
    (let b' = b\<lparr>bat_status := (bat_status b)\<lparr>current_mA := c\<rparr>\<rparr>;
         running' = (if c = 0 then (if running then False else running)
                     else if \<not> running then True else running) in
     (True, b'\<lparr>kind := PseudoBattery running'\<rparr>))"

definition partition_set_current ::
  "addr option \<Rightarrow> bool \<Rightarrow> real \<Rightarrow> 'd battery \<Rightarrow> bool \<times> 'd battery" where [simp]:
  "partition_set_current src running c b =
    (let b' = b\<lparr>bat_status := (bat_status b)\<lparr>current_mA := c\<rparr>\<rparr>;
         running' = (if c = 0 then (if running then False else running)
                     else if \<not> running then True else running) in
     (True, b'\<lparr>kind := PartitionBattery src running' c\<rparr>))"

definition dynamic_set_current :: "'d env \<Rightarrow> 'd \<Rightarrow> real \<Rightarrow> 'd battery \<Rightarrow> bool \<times> 'd battery" where [simp]:
  "dynamic_set_current env d c b =
    (let (ok, d') = setCurrentFunc env d c in (ok, b\<lparr>kind := DynamicBattery d'\<rparr>))"

definition manager_set_current :: "real \<Rightarrow> 'd battery \<Rightarrow> bool \<times> 'd battery" where [simp]:
  "manager_set_current c b = (True, b\<lparr>bat_status := (bat_status b)\<lparr>current_mA := c\<rparr>\<rparr>)"

definition virtual_set_current :: "real \<Rightarrow> 'd battery \<Rightarrow> bool \<times> 'd battery" where [simp]:
  "virtual_set_current c b = (True, b)"

definition set_battery_current :: "'d env \<Rightarrow> real \<Rightarrow> 'd battery \<Rightarrow> bool \<times> 'd battery" where
  "set_battery_current env c b =
    (case kind b of
       PhysicalBattery \<Rightarrow> physical_set_current c b
     | SecureBattery \<Rightarrow> physical_set_current c b
     | PseudoBattery r \<Rightarrow> pseudo_set_current r c b
     | DynamicBattery d \<Rightarrow> dynamic_set_current env d c b
     | AggregateBattery _ _ _ \<Rightarrow> virtual_set_current c b
     | PartitionBattery src r _ \<Rightarrow> partition_set_current src r c b
     | PartitionManager _ _ _ _ \<Rightarrow> manager_set_current c b)"

definition set_current :: "'d env \<Rightarrow> real \<Rightarrow> addr \<Rightarrow> 'd system \<Rightarrow> (bool \<times> 'd system) outcome" where
  "set_current env c a s =
    obind (deref a s) (\<lambda>b. let (ok, b') = set_battery_current env c b in
      Inr (ok, upd a (\<lambda>_. b') s))"

section \<open>Scheduling\<close>

text \<open>
  The guard the battery that a request names applies to it. The sources it is passed on to have
  another name and skip the guard. The one-second sleep of a battery whose status is still zero
  has no effect on the state.
\<close>

definition request_refused ::
  "timepoint \<Rightarrow> 'd battery \<Rightarrow> real \<Rightarrow> timepoint \<Rightarrow> string \<Rightarrow> bool" where
  "request_refused now b c startTime name \<longleftrightarrow>
     name = batteryName b \<and>
     (startTime < now \<or> c * -1 > max_charging_current_mA (bat_status b) \<or>
      c > max_discharging_current_mA (bat_status b))"

definition checkMerge_at :: "string \<Rightarrow> real \<Rightarrow> timepoint \<Rightarrow> timepoint \<Rightarrow> 64 word \<Rightarrow> addr \<Rightarrow>
    'd system \<Rightarrow> 'd system outcome" where
  "checkMerge_at name c st en n a s =
    obind (deref a s) (\<lambda>b. obind (checkMergeAndInsertEvents name c st en n b) (\<lambda>b'.
      Inr (upd a (\<lambda>_. b') s)))"

text \<open>The loop of an aggregate over its parents; the first refusal ends it.\<close>

fun schedule_parents ::
  "'d status_fun \<Rightarrow> (real \<Rightarrow> addr \<Rightarrow> 'd system \<Rightarrow> (bool \<times> 'd system) outcome) \<Rightarrow> real \<Rightarrow> real \<Rightarrow>
   addr list \<Rightarrow> 'd system \<Rightarrow> (bool \<times> 'd system) outcome" where
  "schedule_parents G S c c_rate [] s = Inr (True, s)"
| "schedule_parents G S c c_rate (p # ps) s =
    obind (G p s) (\<lambda>(pStatus, s1).
      obind (S (parent_target c c_rate pStatus) p s1) (\<lambda>(ok, s2).
        if ok then schedule_parents G S c c_rate ps s2 else Inr (False, s2)))"

text \<open>
  \<open>schedule_set_current\<close> is virtual: one body per class, \<open>S\<close> the call on the battery's sources.
\<close>

type_synonym 'd request_fun = "real \<Rightarrow> addr \<Rightarrow> 'd system \<Rightarrow> (bool \<times> 'd system) outcome"

definition battery_schedule :: "'d env \<Rightarrow> timepoint \<Rightarrow> timepoint \<Rightarrow> string \<Rightarrow> 64 word \<Rightarrow>
    'd request_fun" where [simp]:
  "battery_schedule env st en name n c a s =
    obind (deref a s) (\<lambda>b.
      if request_refused (getTimeNow env) b c st name then Inr (False, s)
      else obind (checkMerge_at name c st en n a s) (\<lambda>s1. Inr (True, s1)))"

definition aggregate_schedule :: "'d status_fun \<Rightarrow> 'd status_fun \<Rightarrow> 'd request_fun \<Rightarrow> 'd env \<Rightarrow> timepoint \<Rightarrow>
    string \<Rightarrow> addr list \<Rightarrow> 'd request_fun" where [simp]:
  "aggregate_schedule C G S env st name ps c a s =
    obind (C a s) (\<lambda>(status, s1).
      let s2 = set_status a status s1 in
      obind (deref a s2) (\<lambda>b2.
        if request_refused (getTimeNow env) b2 c st name then Inr (False, s2)
        else schedule_parents G S c (calc_c_rate c (capacity_mAh (bat_status b2))) ps s2))"

definition manager_schedule :: "'d request_fun \<Rightarrow> timepoint \<Rightarrow> timepoint \<Rightarrow> string \<Rightarrow> 64 word \<Rightarrow> addr \<Rightarrow>
    'd request_fun" where [simp]:
  "manager_schedule S st en name n src c a s =
    obind (S c src s) (\<lambda>(ok, s1).
      if ok then obind (checkMerge_at name c st en n a s1) (\<lambda>s2. Inr (True, s2))
      else Inr (False, s1))"

definition partition_schedule :: "'d request_fun \<Rightarrow> 'd env \<Rightarrow> timepoint \<Rightarrow> timepoint \<Rightarrow> string \<Rightarrow> 64 word \<Rightarrow>
    addr option \<Rightarrow> 'd request_fun" where [simp]:
  "partition_schedule S env st en name n src c a s =
    obind (deref a s) (\<lambda>b.
      if request_refused (getTimeNow env) b c st name then Inr (False, s)
      else (case src of
         None \<Rightarrow> Inl Null_deref
       | Some m \<Rightarrow>
           obind (S c m s) (\<lambda>(ok, s1).
             if ok then obind (checkMerge_at name c st en n a s1) (\<lambda>s2. Inr (True, s2))
             else Inr (False, s1))))"

fun schedule_set_current :: "nat \<Rightarrow> 'd env \<Rightarrow> timepoint \<Rightarrow> timepoint \<Rightarrow> string \<Rightarrow> 64 word \<Rightarrow>
    'd request_fun" where
  "schedule_set_current 0 env st en name n c a s = Inl No_fuel"
| "schedule_set_current (Suc k) env st en name n c a s =
    obind (deref a s) (\<lambda>b.
      case kind b of
        AggregateBattery ps _ _ \<Rightarrow>
          aggregate_schedule (checkAndRefresh k env) (getStatus k env)
            (schedule_set_current k env st en name n) env st name ps c a s
      | PartitionBattery src _ _ \<Rightarrow>
          partition_schedule (schedule_set_current k env st en name n) env st en name n src c a s
      | PartitionManager _ src _ _ \<Rightarrow>
          manager_schedule (schedule_set_current k env st en name n) st en name n src c a s
      | _ \<Rightarrow> battery_schedule env st en name n c a s)"

text \<open>The public entry points: under the battery's own name and a new sequence number.\<close>

definition schedule_own :: "nat \<Rightarrow> 'd env \<Rightarrow> real \<Rightarrow> timepoint \<Rightarrow> timepoint \<Rightarrow> addr \<Rightarrow> 'd system \<Rightarrow>
    (bool \<times> 'd system) outcome" where
  "schedule_own k env c st en a s =
    obind (deref a s) (\<lambda>b.
      let (n, s1) = getSequenceNumber s in
      schedule_set_current k env st en (batteryName b) n c a s1)"

definition schedule_ms :: "nat \<Rightarrow> 'd env \<Rightarrow> real \<Rightarrow> 64 word \<Rightarrow> 64 word \<Rightarrow> addr \<Rightarrow> 'd system \<Rightarrow>
    (bool \<times> 'd system) outcome" where
  "schedule_ms k env c st en a s =
    schedule_own k env c (convertToTimestamp st) (convertToTimestamp en) a s"

section \<open>Modes\<close>

definition insert_refresh :: "timepoint \<Rightarrow> addr \<Rightarrow> 'd system \<Rightarrow> 'd system" where
  "insert_refresh t a s =
    (let (n, s1) = getSequenceNumber s in
     upd a (\<lambda>b. b\<lparr>eventSet := es_insert (mk_event (batteryName b) REFRESH 0 t n) (eventSet b)\<rparr>) s1)"

definition setRefreshMode :: "nat \<Rightarrow> 'd env \<Rightarrow> RefreshMode \<Rightarrow> addr \<Rightarrow> 'd system \<Rightarrow> 'd system outcome" where
  "setRefreshMode k env mode a s =
    obind (deref a s) (\<lambda>b.
      if refreshMode b = mode then Inr s
      else
        (let s1 = upd a (\<lambda>b. b\<lparr>refreshMode := mode\<rparr>) s in
         if mode = ACTIVE then
           obind (refresh k env a s1) (\<lambda>(st, s2).
             Inr (insert_refresh (getTimeNow env + maxStaleness b) a (set_status a st s2)))
         else Inr s1))"

definition setMaxStaleness :: "int \<Rightarrow> 'd battery \<Rightarrow> 'd battery" where
  "setMaxStaleness ms b = b\<lparr>maxStaleness := ms\<rparr>"

definition quit :: "'d battery \<Rightarrow> 'd battery" where
  "quit b = b\<lparr>quitThread := True\<rparr>"

section \<open>Facts about the arithmetic\<close>

lemma min_rate_le:
  assumes "min_rate rs = Inr m"
  shows "\<forall>r \<in> set rs. m \<le> r" and "m \<in> set rs"
proof -
  have fold: "foldl (\<lambda>minValue val. if val < minValue then val else minValue) r0 xs \<le> r0 \<and>
    (\<forall>r \<in> set xs. foldl (\<lambda>minValue val. if val < minValue then val else minValue) r0 xs \<le> r) \<and>
    foldl (\<lambda>minValue val. if val < minValue then val else minValue) r0 xs \<in> insert r0 (set xs)"
    for r0 :: real and xs
  proof (induction xs arbitrary: r0)
    case (Cons x xs)
    from Cons.IH [of "if x < r0 then x else r0"] show ?case by (auto split: if_splits)
  qed simp
  from assms fold show "\<forall>r \<in> set rs. m \<le> r" "m \<in> set rs"
    by (force simp: min_rate_def split: list.splits)+
qed

lemma min_rate_defined: "rs \<noteq> [] \<Longrightarrow> \<exists>m. min_rate rs = Inr m"
  by (cases rs) (simp_all add: min_rate_def)

text \<open>The capacity and the limits an aggregate reports are the sums over its parents.\<close>

lemma fold_add_parent:
  "fst (fold (add_parent c d) ps acc) =
    (fst acc)\<lparr>current_mA := current_mA (fst acc) + (\<Sum>p\<leftarrow>ps. current_mA p),
      capacity_mAh := capacity_mAh (fst acc) + (\<Sum>p\<leftarrow>ps. capacity_mAh p),
      max_capacity_mAh := max_capacity_mAh (fst acc) + (\<Sum>p\<leftarrow>ps. max_capacity_mAh p),
      max_charging_current_mA := max_charging_current_mA (fst acc) +
        (\<Sum>p\<leftarrow>ps. (max_capacity_mAh p - capacity_mAh p) * c),
      max_discharging_current_mA := max_discharging_current_mA (fst acc) +
        (\<Sum>p\<leftarrow>ps. capacity_mAh p * d)\<rparr>"
proof (induction ps arbitrary: acc)
  case (Cons p ps)
  then show ?case by (simp add: add_parent_def Let_def add.assoc split: prod.splits)
qed simp

text \<open>What an aggregate reports when its parents report \<open>ps\<close>.\<close>

definition agg_status :: "timepoint \<Rightarrow> BatteryStatus list \<Rightarrow> BatteryStatus outcome" where
  "agg_status now ps =
    obind (min_rate (map charge_rate_of ps)) (\<lambda>c.
      obind (min_rate (map discharge_rate_of ps)) (\<lambda>d.
        Inr (finish_status now (fold (add_parent c d) ps (default_status, Fin 0, Fin 0)))))"

lemma agg_status_sums:
  assumes "agg_status now ps = Inr st"
  obtains c d where "min_rate (map charge_rate_of ps) = Inr c"
    and "min_rate (map discharge_rate_of ps) = Inr d"
    and "capacity_mAh st = (\<Sum>p\<leftarrow>ps. capacity_mAh p)"
    and "max_capacity_mAh st = (\<Sum>p\<leftarrow>ps. max_capacity_mAh p)"
    and "current_mA st = (\<Sum>p\<leftarrow>ps. current_mA p)"
    and "max_charging_current_mA st = c * (\<Sum>p\<leftarrow>ps. max_capacity_mAh p - capacity_mAh p)"
    and "max_discharging_current_mA st = d * (\<Sum>p\<leftarrow>ps. capacity_mAh p)"
proof -
  from assms obtain c d where cd: "min_rate (map charge_rate_of ps) = Inr c"
      "min_rate (map discharge_rate_of ps) = Inr d"
    and st: "st = finish_status now (fold (add_parent c d) ps (default_status, Fin 0, Fin 0))"
    by (auto simp: agg_status_def)
  obtain new cp dp where acc: "fold (add_parent c d) ps (default_status, Fin 0, Fin 0) = (new, cp, dp)"
    by (cases "fold (add_parent c d) ps (default_status, Fin 0, Fin 0)")
  have new: "new = default_status\<lparr>current_mA := \<Sum>p\<leftarrow>ps. current_mA p,
      capacity_mAh := \<Sum>p\<leftarrow>ps. capacity_mAh p, max_capacity_mAh := \<Sum>p\<leftarrow>ps. max_capacity_mAh p,
      max_charging_current_mA := c * (\<Sum>p\<leftarrow>ps. max_capacity_mAh p - capacity_mAh p),
      max_discharging_current_mA := d * (\<Sum>p\<leftarrow>ps. capacity_mAh p)\<rparr>"
    using fold_add_parent [of c d ps "(default_status, Fin 0, Fin 0)"]
    unfolding acc by (simp add: default_status_def sum_list_mult_const mult.commute [of c] mult.commute [of d])
  show thesis
    by (rule that [OF cd]) (simp_all add: st acc new finish_status_def)
qed

lemma discharge_rate_bound:
  assumes "0 \<le> capacity_mAh p" and "d \<le> discharge_rate_of p" and "0 \<le> max_discharging_current_mA p"
  shows "capacity_mAh p * d \<le> max_discharging_current_mA p"
proof (cases "capacity_mAh p = 0")
  case False
  then have "capacity_mAh p * d \<le> capacity_mAh p * (max_discharging_current_mA p / capacity_mAh p)"
    using assms by (intro mult_left_mono) (simp_all add: discharge_rate_of_def calc_c_rate_def)
  with False show ?thesis by simp
qed (use assms in simp)

lemma sum_list_const_rate:
  "(\<Sum>p\<leftarrow>ps. capacity_mAh p * r) = (\<Sum>p\<leftarrow>ps. capacity_mAh p) * r"
  by (simp add: sum_list_mult_const)

lemma aggregate_split:
  assumes st: "agg_status now ps = Inr st" and c: "0 \<le> c" "c \<le> max_discharging_current_mA st"
    and ps: "\<forall>p \<in> set ps. 0 \<le> capacity_mAh p \<and> 0 \<le> max_discharging_current_mA p"
  shows "(\<Sum>p\<leftarrow>ps. parent_target c (calc_c_rate c (capacity_mAh st)) p) = c"
    and "\<forall>p \<in> set ps. 0 \<le> parent_target c (calc_c_rate c (capacity_mAh st)) p \<and>
      parent_target c (calc_c_rate c (capacity_mAh st)) p \<le> max_discharging_current_mA p"
proof -
  obtain d where d: "min_rate (map discharge_rate_of ps) = Inr d"
    and cap: "capacity_mAh st = (\<Sum>p\<leftarrow>ps. capacity_mAh p)"
    and lim: "max_discharging_current_mA st = d * (\<Sum>p\<leftarrow>ps. capacity_mAh p)"
    using agg_status_sums [OF st] by metis
  let ?C = "\<Sum>p\<leftarrow>ps. capacity_mAh p" and ?r = "calc_c_rate c (capacity_mAh st)"
  have C: "0 \<le> ?C" using ps by (intro sum_list_nonneg_map) auto
  have r: "0 \<le> ?r" "?r \<le> d \<or> ?C = 0" "?C * ?r = c"
    using c C by (auto simp: cap lim calc_c_rate_def pos_divide_le_eq mult.commute)
  show "(\<Sum>p\<leftarrow>ps. parent_target c ?r p) = c"
    using c(1) r(3) by (simp add: parent_target_def sum_list_const_rate)
  have "capacity_mAh p * ?r \<le> max_discharging_current_mA p" if "p \<in> set ps" for p
  proof -
    have "?r = 0" if "?C = 0" using that by (simp add: calc_c_rate_def cap)
    then have "capacity_mAh p * ?r \<le> capacity_mAh p * d \<or> ?r = 0"
      using r(2) ps \<open>p \<in> set ps\<close> mult_left_mono by blast
    moreover have "capacity_mAh p * d \<le> max_discharging_current_mA p"
      using that ps min_rate_le(1) [OF d] by (intro discharge_rate_bound) auto
    ultimately show ?thesis using that ps by auto
  qed
  with c(1) r(1) ps show "\<forall>p \<in> set ps. 0 \<le> parent_target c ?r p \<and>
      parent_target c ?r p \<le> max_discharging_current_mA p"
    by (auto simp: parent_target_def)
qed

section \<open>Well-formed systems\<close>

text \<open>
  The part of a battery that the status calls leave alone: everything but the status, the
  effective rates of an aggregate and the state of a driver.
\<close>

fun skel :: "'d kind \<Rightarrow> unit kind" where
  "skel PhysicalBattery = PhysicalBattery"
| "skel (PseudoBattery r) = PseudoBattery r"
| "skel (DynamicBattery d) = DynamicBattery ()"
| "skel (AggregateBattery ps _ _) = AggregateBattery ps 0 0"
| "skel (PartitionBattery src r c) = PartitionBattery src r c"
| "skel (PartitionManager policy src props cs) = PartitionManager policy src props cs"
| "skel SecureBattery = SecureBattery"

definition frame :: "'d battery \<Rightarrow> unit battery" where
  "frame b =
     \<lparr>eventSet = eventSet b, eventMap = eventMap b, batteryName = batteryName b,
      battery_type = battery_type b, quitThread = quitThread b, bat_current_mA = bat_current_mA b,
      bat_status = default_status, refreshMode = refreshMode b, maxStaleness = maxStaleness b,
      kind = skel (kind b)\<rparr>"

definition frames :: "'d system \<Rightarrow> unit system" where
  "frames s = \<lparr>heap = (\<lambda>a. map_option frame (heap s a)), nextAddr = nextAddr s,
     SEQUENCE_NUMBER = SEQUENCE_NUMBER s\<rparr>"

definition skel_at :: "'d system \<Rightarrow> addr \<Rightarrow> unit kind option" where
  "skel_at s a = map_option (skel \<circ> kind) (heap s a)"

text \<open>
  The source graph has no cycle: a partition ranks just above its manager, every other battery at
  twice its address, and a battery ranks above its sources. The rank bounds the depth of the calls.
\<close>

definition rank :: "'d system \<Rightarrow> addr \<Rightarrow> nat" where
  "rank s a =
    (case skel_at s a of
       Some (PartitionBattery (Some m) _ _) \<Rightarrow> 2 * m + 1
     | _ \<Rightarrow> 2 * a)"

definition links_ok :: "'d system \<Rightarrow> addr \<Rightarrow> unit kind \<Rightarrow> bool" where
  "links_ok s a k =
    (case k of
       AggregateBattery ps _ _ \<Rightarrow>
         ps \<noteq> [] \<and> (\<forall>p \<in> set ps. skel_at s p \<noteq> None \<and> rank s p < rank s a)
     | PartitionBattery src _ _ \<Rightarrow>
         (case src of None \<Rightarrow> False
          | Some m \<Rightarrow> skel_at s m \<noteq> None \<and> rank s m < rank s a)
     | PartitionManager _ src props cs \<Rightarrow>
         skel_at s src \<noteq> None \<and> rank s src < rank s a \<and> length cs \<le> length props \<and>
         (\<forall>c \<in> set cs. skel_at s c \<noteq> None)
     | _ \<Rightarrow> True)"

definition wf_links :: "'d system \<Rightarrow> bool" where
  "wf_links s \<longleftrightarrow> (\<forall>a k. skel_at s a = Some k \<longrightarrow> links_ok s a k)"

definition queues_ok :: "'d system \<Rightarrow> bool" where
  "queues_ok s \<longleftrightarrow> (\<forall>a b. heap s a = Some b \<longrightarrow> queue_inv b)"

definition wf_system :: "'d system \<Rightarrow> bool" where
  "wf_system s \<longleftrightarrow> wf_links s \<and> queues_ok s"

lemma frame_skel: "kind (frame b) = skel (kind b)"
  by (simp add: frame_def)

lemma skel_skel [simp]: "skel (skel k) = skel k"
  by (cases k) simp_all

lemma skel_at_frames [simp]: "skel_at (frames s) = skel_at s"
  by (simp add: fun_eq_iff skel_at_def frames_def option.map_comp comp_def frame_skel)

lemma rank_frames: "rank (frames s) = rank s"
  by (simp add: fun_eq_iff rank_def)

lemma queue_inv_frame [simp]: "queue_inv (frame b) = queue_inv b"
  by (simp add: queue_inv_def frame_def)

lemma wf_links_frames [simp]: "wf_links (frames s) = wf_links s"
  by (simp add: wf_links_def links_ok_def rank_frames cong: kind.case_cong option.case_cong)

lemma queues_ok_frames [simp]: "queues_ok (frames s) = queues_ok s"
  by (simp add: queues_ok_def frames_def) (metis queue_inv_frame)

lemma wf_system_frames [simp]: "wf_system (frames s) = wf_system s"
  by (simp add: wf_system_def)

lemma wf_links_cong: "frames s = frames t \<Longrightarrow> wf_links s = wf_links t"
  by (metis wf_links_frames)

lemma wf_system_cong: "frames s = frames t \<Longrightarrow> wf_system s = wf_system t"
  by (metis wf_system_frames)

lemma rank_cong: "frames s = frames t \<Longrightarrow> rank s = rank t"
  by (metis rank_frames)

lemma skel_at_cong: "frames s = frames t \<Longrightarrow> skel_at s = skel_at t"
  by (metis skel_at_frames)

lemma skel_rank: "skel_at s = skel_at t \<Longrightarrow> rank s = rank t"
  by (simp add: fun_eq_iff rank_def)

lemma skel_wf_links: "skel_at s = skel_at t \<Longrightarrow> wf_links s = wf_links t"
  by (simp add: wf_links_def links_ok_def skel_rank [of s t] cong: kind.case_cong option.case_cong)

lemma frames_upd [simp]: "(\<And>b. frame (f b) = frame b) \<Longrightarrow> frames (upd a f s) = frames s"
  by (simp add: frames_def upd_def fun_eq_iff option.map_comp comp_def)

lemma deref_Inr_iff: "deref a s = Inr b \<longleftrightarrow> heap s a = Some b"
  by (auto simp: deref_def split: option.splits)

lemma frames_upd_at: "deref a s = Inr b \<Longrightarrow> frame (f b) = frame b \<Longrightarrow> frames (upd a f s) = frames s"
  by (simp add: frames_def upd_def fun_eq_iff deref_Inr_iff)

lemma frame_updates [simp]:
  "frame (b\<lparr>bat_status := st\<rparr>) = frame b" "frame (stamp now b) = frame b"
  "frame (setMaxChargingCurrent c b) = frame b" "frame (setMaxDischargingCurrent c b) = frame b"
  "frame (set_rates c d b) = frame b"
  by (simp_all add: frame_def stamp_def setMaxChargingCurrent_def setMaxDischargingCurrent_def
      set_rates_def split: kind.splits)

lemma frames_set_status [simp]: "frames (set_status a st s) = frames s"
  by (simp add: set_status_def)

lemma frames_heap:
  assumes "frames s' = frames s" and "heap s a = Some b"
  obtains b' where "heap s' a = Some b'" and "frame b' = frame b"
proof -
  have "map_option frame (heap s' a) = Some (frame b)"
    using assms unfolding frames_def by (metis option.simps(9) system.select_convs(1))
  then show thesis using that by auto
qed

lemma deref_skel: "skel_at s a = Some k \<Longrightarrow> \<exists>b. deref a s = Inr b \<and> skel (kind b) = k"
  by (auto simp: deref_def skel_at_def)

lemma deref_alive: "skel_at s a \<noteq> None \<longleftrightarrow> (\<exists>b. deref a s = Inr b)"
  by (auto simp: deref_def skel_at_def split: option.splits)

section \<open>Status calls return and keep the frame\<close>

text \<open>The contract of a status function on the batteries \<open>A\<close> of a system with the frame of \<open>s0\<close>.\<close>

definition status_ok :: "'d status_fun \<Rightarrow> 'd system \<Rightarrow> addr set \<Rightarrow> bool" where
  "status_ok G s0 A \<longleftrightarrow>
     (\<forall>p \<in> A. \<forall>s. frames s = frames s0 \<longrightarrow>
        (\<exists>st s'. G p s = Inr (st, s') \<and> frames s' = frames s0))"

lemma status_okD:
  "status_ok G s0 A \<Longrightarrow> p \<in> A \<Longrightarrow> frames s = frames s0 \<Longrightarrow>
    \<exists>st s'. G p s = Inr (st, s') \<and> frames s' = frames s0"
  by (simp add: status_ok_def)

lemma status_ok_cong: "frames s = frames t \<Longrightarrow> status_ok G s A = status_ok G t A"
  by (simp add: status_ok_def)

lemma set_c_rate_total:
  fixes G :: "'d status_fun"
  assumes G: "status_ok G s (set ps)" and "ps \<noteq> []"
  shows "\<exists>c d s'. set_c_rate G a ps s = Inr (c, d, s') \<and> frames s' = frames s"
proof -
  let ?f = "\<lambda>p (cs, ds, s). obind (G p s) (\<lambda>(st, s').
    Inr (cs @ [charge_rate_of st], ds @ [discharge_rate_of st], s'))"
  let ?P = "\<lambda>xs (cs :: real list, ds :: real list, s' :: 'd system). frames s' = frames s \<and> set xs \<subseteq> set ps \<and>
    length cs + length xs = length ps \<and> length ds + length xs = length ps"
  have "\<exists>t. ofold ?f ps ([], [], s) = Inr t \<and> ?P [] t"
  proof (rule ofold_total [where P = ?P])
    fix y ys u assume P: "?P (y # ys) u"
    obtain cs ds s' where u: "u = (cs, ds, s')" by (cases u)
    with P status_okD [OF G, of y s'] show "\<exists>v. ?f y u = Inr v \<and> ?P ys v" by fastforce
  qed simp
  then obtain cs ds s' where run: "ofold ?f ps ([], [], s) = Inr (cs, ds, s')"
    and t: "frames s' = frames s" "length cs = length ps" "length ds = length ps"
    by auto
  moreover obtain c d where "min_rate cs = Inr c" "min_rate ds = Inr d"
    using t \<open>ps \<noteq> []\<close> min_rate_defined by (metis length_0_conv)
  ultimately show ?thesis by (simp add: set_c_rate_def)
qed

lemma calcStatusVals_total:
  fixes G :: "'d status_fun"
  assumes G: "status_ok G s (set ps)" and "ps \<noteq> []"
  shows "\<exists>st s'. calcStatusVals G env a ps s = Inr (st, s') \<and> frames s' = frames s"
proof -
  obtain c d s1 where 1: "set_c_rate G a ps s = Inr (c, d, s1)" "frames s1 = frames s"
    using set_c_rate_total [OF assms] by blast
  let ?f = "\<lambda>p (acc, s). obind (G p s) (\<lambda>(st, s'). Inr (add_parent c d st acc, s'))"
  let ?P = "\<lambda>xs (acc :: BatteryStatus \<times> dbl \<times> dbl, s' :: 'd system). frames s' = frames s \<and> set xs \<subseteq> set ps"
  have "\<exists>t. ofold ?f ps ((default_status, Fin 0, Fin 0), s1) = Inr t \<and> ?P [] t"
  proof (rule ofold_total [where P = ?P])
    fix y ys u assume P: "?P (y # ys) u"
    obtain acc s' where u: "u = (acc, s')" by (cases u)
    with P status_okD [OF G, of y s'] show "\<exists>v. ?f y u = Inr v \<and> ?P ys v" by fastforce
  qed (simp add: 1)
  then show ?thesis by (auto simp: calcStatusVals_def 1)
qed

lemma refreshProportional_total:
  fixes s :: "'d system"
  assumes "\<forall>c \<in> set cs. skel_at s c \<noteq> None" and "length cs \<le> length props"
  shows "\<exists>s'. refreshProportional st props cs s = Inr s' \<and> frames s' = frames s"
proof -
  let ?P = "\<lambda>xs (s' :: 'd system). frames s' = frames s \<and> set xs \<subseteq> {0..<length cs}"
  have "\<exists>s'. refreshProportional st props cs s = Inr s' \<and> ?P [] s'"
    unfolding refreshProportional_def
  proof (rule ofold_total [where P = ?P])
    fix y ys u assume P: "?P (y # ys) u"
    then have "skel_at u (cs ! y) \<noteq> None" using assms(1) skel_at_cong [of u s] by auto
    then obtain b where "deref (cs ! y) u = Inr b" unfolding deref_alive by blast
    with P assms(2) show "\<exists>v. obind (deref (cs ! y) u) (\<lambda>_. if y < length props
          then Inr (upd (cs ! y)
            (setMaxDischargingCurrent (max_discharging_current_mA st * charge_proportion (props ! y)) \<circ>
             setMaxChargingCurrent (max_charging_current_mA st * charge_proportion (props ! y))) u)
          else Inl Bad_index) = Inr v \<and> ?P ys v"
      by auto
  qed auto
  then show ?thesis by blast
qed

text \<open>The batteries whose status a refresh asks for.\<close>

fun status_sources :: "unit kind \<Rightarrow> addr set" where
  "status_sources (AggregateBattery ps _ _) = set ps"
| "status_sources (PartitionManager _ src _ _) = {src}"
| "status_sources _ = {}"

lemma refresh_with_total:
  assumes k: "skel_at s a = Some k" and links: "links_ok s a k"
    and G: "status_ok G s (status_sources k)"
  shows "\<exists>st s'. refresh_with G env a s = Inr (st, s') \<and> frames s' = frames s"
proof -
  obtain b where b: "deref a s = Inr b" "skel (kind b) = k" using deref_skel [OF k] by blast
  show ?thesis
  proof (cases "kind b")
    case (AggregateBattery ps c d)
    then have "status_ok G s (set ps)" "ps \<noteq> []" using G links b by (auto simp: links_ok_def)
    with AggregateBattery b show ?thesis
      using calcStatusVals_total [of G s ps] by (simp add: refresh_with_def)
  next
    case (PartitionManager policy src props cs)
    then have m: "k = PartitionManager policy src props cs" using b by simp
    obtain pst s1 where 1: "G src s = Inr (pst, s1)" "frames s1 = frames s"
      using status_okD [OF G, of src s] m by auto
    have "\<forall>c \<in> set cs. skel_at s1 c \<noteq> None" "length cs \<le> length props"
      using links skel_at_cong [OF 1(2)] by (auto simp: m links_ok_def)
    then obtain s2 where "(case policy of PROPORTIONAL \<Rightarrow> refreshProportional pst props cs s1
        | RESERVED \<Rightarrow> refreshReserved pst s1 | TRANCHED \<Rightarrow> refreshTranched pst s1) = Inr s2"
      and 2: "frames s2 = frames s"
      using refreshProportional_total [of cs s1 props pst] 1(2)
      by (cases policy) (auto simp: refreshReserved_def refreshTranched_def)
    moreover obtain b' where "deref a (upd a (stamp (getTimeNow env)) s2) = Inr b'"
      using 2 k skel_at_cong [of "upd a (stamp (getTimeNow env)) s2" s]
      by (metis deref_alive frame_updates(2) frames_upd option.distinct(1))
    ultimately show ?thesis using PartitionManager b 1 2 by (simp add: refresh_with_def)
  next
    case (DynamicBattery d)
    obtain st d' where "refreshFunc env d = (st, d')" by fastforce
    with DynamicBattery b show ?thesis
      by (auto simp: refresh_with_def frame_def intro!: frames_upd_at)
  qed (use b in \<open>auto simp: refresh_with_def\<close>)
qed

lemma status_sources_rank:
  "links_ok s a k \<Longrightarrow> p \<in> status_sources k \<Longrightarrow> skel_at s p \<noteq> None \<and> rank s p < rank s a"
  by (cases k) (auto simp: links_ok_def)

lemma getStatus_total:
  fixes s :: "'d system"
  assumes "wf_links s" and "skel_at s a \<noteq> None" and "rank s a < n"
  shows "\<exists>st s'. getStatus n env a s = Inr (st, s') \<and> frames s' = frames s"
  using assms
proof (induction n arbitrary: a s)
  case (Suc n)
  obtain k where k: "skel_at s a = Some k" using Suc.prems(2) by blast
  obtain b where b: "deref a s = Inr b" using Suc.prems(2) unfolding deref_alive by blast
  have links: "links_ok s a k" using Suc.prems(1) k by (simp add: wf_links_def)
  have "status_ok (getStatus n env) s (status_sources k)"
    unfolding status_ok_def
  proof (intro ballI allI impI)
    fix p and s' :: "'d system"
    assume p: "p \<in> status_sources k" and fr: "frames s' = frames s"
    then have "wf_links s'" "skel_at s' p \<noteq> None" "rank s' p < n"
      using status_sources_rank [OF links p] Suc.prems wf_links_cong [OF fr] rank_cong [OF fr]
        skel_at_cong [OF fr] by auto
    from Suc.IH [OF this] fr show "\<exists>st t. getStatus n env p s' = Inr (st, t) \<and> frames t = frames s"
      by auto
  qed
  from refresh_with_total [OF k links this, of env] b show ?case
    by (auto simp: checkAndRefresh_with_def)
qed simp

lemma refresh_total:
  fixes s :: "'d system"
  assumes wf: "wf_links s" and a: "skel_at s a \<noteq> None" and n: "rank s a \<le> n"
  shows "\<exists>st s'. refresh n env a s = Inr (st, s') \<and> frames s' = frames s"
proof -
  obtain k where k: "skel_at s a = Some k" using a by blast
  have links: "links_ok s a k" using wf k by (simp add: wf_links_def)
  have "status_ok (getStatus n env) s (status_sources k)"
    unfolding status_ok_def
  proof (intro ballI allI impI)
    fix p and s' :: "'d system"
    assume p: "p \<in> status_sources k" and fr: "frames s' = frames s"
    then show "\<exists>st t. getStatus n env p s' = Inr (st, t) \<and> frames t = frames s"
      using status_sources_rank [OF links p] wf n wf_links_cong [OF fr] rank_cong [OF fr]
        skel_at_cong [OF fr] getStatus_total [of s' p n env] by auto
  qed
  from refresh_with_total [OF k links this] show ?thesis by (simp add: refresh_def)
qed

lemma checkAndRefresh_total:
  assumes "wf_links s" and "skel_at s a \<noteq> None" and "rank s a \<le> n"
  shows "\<exists>st s'. checkAndRefresh n env a s = Inr (st, s') \<and> frames s' = frames s"
proof -
  obtain b where "deref a s = Inr b" using assms(2) unfolding deref_alive by blast
  with refresh_total [OF assms, of env] show ?thesis
    by (auto simp: checkAndRefresh_def checkAndRefresh_with_def refresh_def)
qed

section \<open>Scheduling returns and keeps the system well formed\<close>

lemma checkMerge_battery:
  assumes "checkMergeAndInsertEvents name c st en n (b :: 'd battery) = Inr b'"
  shows "b' = b\<lparr>eventSet := eventSet b', eventMap := eventMap b'\<rparr>"
  using checkMerge_more [OF assms] by (cases b; cases b') simp

lemma checkMerge_at_total:
  fixes s :: "'d system"
  assumes wf: "wf_system s" and a: "skel_at s a \<noteq> None"
  shows "\<exists>s'. checkMerge_at name c st en n a s = Inr s' \<and> wf_system s' \<and> skel_at s' = skel_at s \<and>
    (\<forall>p. p \<noteq> a \<longrightarrow> heap s' p = heap s p)"
proof -
  obtain b where b: "deref a s = Inr b" using a unfolding deref_alive by blast
  then have "queue_inv b" using wf by (auto simp: wf_system_def queues_ok_def deref_Inr_iff)
  then obtain b' where run: "checkMergeAndInsertEvents name c st en n b = Inr b'" and inv: "queue_inv b'"
    using checkMerge_inv by blast
  let ?s = "upd a (\<lambda>_. b') s"
  have k: "kind b' = kind b"
    by (subst checkMerge_battery [OF run]) simp
  then have "skel_at ?s = skel_at s"
    using b by (auto simp: skel_at_def upd_def fun_eq_iff deref_Inr_iff)
  moreover have "queues_ok ?s"
    using wf inv b by (auto simp: wf_system_def queues_ok_def upd_def deref_Inr_iff)
  ultimately have "wf_system ?s" using wf by (simp add: wf_system_def skel_wf_links [of ?s s])
  with run b \<open>skel_at ?s = skel_at s\<close> show ?thesis
    by (auto simp: checkMerge_at_def upd_def)
qed

text \<open>A state with the same objects and links that is still well formed.\<close>

definition steady :: "'d system \<Rightarrow> 'd system \<Rightarrow> bool" where
  "steady s0 s \<longleftrightarrow> wf_system s \<and> skel_at s = skel_at s0"

lemma steady_frames:
  assumes "steady s0 s" and "frames s' = frames s"
  shows "steady s0 s'"
  using assms(1) wf_system_cong [OF assms(2)] skel_at_cong [OF assms(2)]
  by (simp only: steady_def simp_thms)

lemma steady_trans: "steady s0 s \<Longrightarrow> steady s s' \<Longrightarrow> steady s0 s'"
  by (simp add: steady_def)

lemma steady_rank: "steady s0 s \<Longrightarrow> rank s = rank s0"
  unfolding steady_def by (blast intro: skel_rank)

lemma steady_alive: "steady s0 s \<Longrightarrow> skel_at s a = skel_at s0 a"
  by (simp add: steady_def)

lemma steady_links: "steady s0 s \<Longrightarrow> wf_links s"
  by (simp add: steady_def wf_system_def)

lemma schedule_parents_total:
  assumes "steady s0 s"
    and G: "\<And>p s. p \<in> set ps \<Longrightarrow> steady s0 s \<Longrightarrow> \<exists>st s'. G p s = Inr (st, s') \<and> steady s0 s'"
    and S: "\<And>p c s. p \<in> set ps \<Longrightarrow> steady s0 s \<Longrightarrow> \<exists>ok s'. S c p s = Inr (ok, s') \<and> steady s0 s'"
  shows "\<exists>ok s'. schedule_parents G S c r ps s = Inr (ok, s') \<and> steady s0 s'"
  using assms
proof (induction ps arbitrary: s)
  case (Cons p ps)
  obtain st s1 where 1: "G p s = Inr (st, s1)" "steady s0 s1"
    using Cons.prems(1,2) by (meson list.set_intros(1))
  obtain ok s2 where 2: "S (parent_target c r st) p s1 = Inr (ok, s2)" "steady s0 s2"
    using Cons.prems(3) 1(2) by (meson list.set_intros(1))
  have "\<exists>ok s'. schedule_parents G S c r ps s2 = Inr (ok, s') \<and> steady s0 s'"
    using Cons.prems(2,3) 2(2) by (intro Cons.IH) auto
  with 1 2 show ?case by auto
qed auto

lemma checkMerge_at_steady:
  "steady s0 s \<Longrightarrow> skel_at s0 a \<noteq> None \<Longrightarrow>
    \<exists>s'. checkMerge_at name c st en n a s = Inr s' \<and> steady s0 s'"
  using checkMerge_at_total [of s a] unfolding steady_def by metis

text \<open>The sources a request is passed on to.\<close>

fun request_sources :: "unit kind \<Rightarrow> addr set" where
  "request_sources (AggregateBattery ps _ _) = set ps"
| "request_sources (PartitionManager _ src _ _) = {src}"
| "request_sources (PartitionBattery (Some m) _ _) = {m}"
| "request_sources _ = {}"

lemma request_sources_rank:
  "links_ok s a k \<Longrightarrow> p \<in> request_sources k \<Longrightarrow> skel_at s p \<noteq> None \<and> rank s p < rank s a"
  by (cases k rule: request_sources.cases) (auto simp: links_ok_def)

lemma schedule_total:
  fixes s :: "'d system"
  assumes "wf_system s" and "skel_at s a \<noteq> None" and "rank s a < k"
  shows "\<exists>ok s'. schedule_set_current k env st en name n c a s = Inr (ok, s') \<and> steady s s'"
  using assms
proof (induction k arbitrary: a s c)
  case (Suc k)
  note wf = \<open>wf_system s\<close>
  have refl: "steady s s" using wf by (simp add: steady_def)
  obtain sk where sk: "skel_at s a = Some sk" using Suc.prems(2) by blast
  obtain b where b: "deref a s = Inr b" "skel (kind b) = sk" using deref_skel [OF sk] by blast
  have links: "links_ok s a sk" using wf sk by (simp add: wf_system_def wf_links_def)
  have rec: "\<exists>ok s'. schedule_set_current k env st en name n c p t = Inr (ok, s') \<and> steady s s'"
    if "p \<in> request_sources sk" "steady s t" for p c and t :: "'d system"
  proof -
    have "wf_system t" "skel_at t p \<noteq> None" "rank t p < k"
      using request_sources_rank [OF links that(1)] that(2) Suc.prems(3)
      by (auto simp: steady_rank steady_alive steady_def)
    from Suc.IH [OF this, of c] steady_trans [OF that(2)] show ?thesis by blast
  qed
  have merge: "\<exists>s'. checkMerge_at name c st en n a t = Inr s' \<and> steady s s'"
    if "steady s t" for c and t :: "'d system"
    using checkMerge_at_steady [OF that, of a] Suc.prems(2) by simp
  have src: "\<exists>ok s'. obind (schedule_set_current k env st en name n c p s) (\<lambda>(ok, s1).
      if ok then obind (checkMerge_at name c st en n a s1) (\<lambda>s2. Inr (True, s2))
      else Inr (False, s1)) = Inr (ok, s') \<and> steady s s'" if p: "p \<in> request_sources sk" for p
  proof -
    obtain ok s1 where "schedule_set_current k env st en name n c p s = Inr (ok, s1)" "steady s s1"
      using rec [OF p refl] by blast
    then show ?thesis using merge [of s1 c] by (cases ok) auto
  qed
  show ?case
  proof (cases "kind b")
    case (AggregateBattery ps ec ed)
    then have ps: "request_sources sk = set ps" using b by auto
    obtain status s1 where 1: "checkAndRefresh k env a s = Inr (status, s1)" "frames s1 = frames s"
      using checkAndRefresh_total [of s a k env] wf Suc.prems by (auto simp: wf_system_def)
    let ?s2 = "set_status a status s1"
    have 2: "steady s ?s2" using steady_frames [OF refl] 1(2) by simp
    have "skel_at ?s2 a \<noteq> None" using steady_alive [OF 2, of a] Suc.prems(2) by simp
    then obtain b2 where b2: "deref a ?s2 = Inr b2" unfolding deref_alive by blast
    have "\<exists>ok s'. schedule_parents (getStatus k env) (schedule_set_current k env st en name n) c r ps
        ?s2 = Inr (ok, s') \<and> steady s s'" for r
    proof (rule schedule_parents_total [OF 2])
      fix p and t :: "'d system"
      assume p: "p \<in> set ps" and t: "steady s t"
      have "wf_links t" "skel_at t p \<noteq> None" "rank t p < k"
        using request_sources_rank [OF links, of p] p ps Suc.prems(3) t
        by (auto simp: steady_rank steady_alive steady_links)
      then show "\<exists>stat s'. getStatus k env p t = Inr (stat, s') \<and> steady s s'"
        using getStatus_total [of t p k env] steady_frames [OF t] by blast
    qed (use rec ps in auto)
    with AggregateBattery b 1 b2 refl 2 show ?thesis by (auto simp: Let_def)
  next
    case (PartitionBattery m r q)
    then show ?thesis using b links src refl
      by (auto simp: links_ok_def split: option.splits)
  next
    case (PartitionManager policy p props cs)
    then show ?thesis using b src by auto
  qed (use b merge [OF refl, of c] refl in \<open>auto split: if_splits\<close>)
qed simp

section \<open>An aggregate over up-to-date parents\<close>

definition fresh_at :: "timepoint \<Rightarrow> 'd system \<Rightarrow> addr \<Rightarrow> bool" where
  "fresh_at now s p =
    (case heap s p of None \<Rightarrow> False | Some b \<Rightarrow> refreshMode b = ACTIVE \<or> \<not> is_stale now b)"

definition status_at :: "'d system \<Rightarrow> addr \<Rightarrow> BatteryStatus" where
  "status_at s p = (case heap s p of None \<Rightarrow> default_status | Some b \<Rightarrow> bat_status b)"

lemma set_status_same: "heap s p = Some b \<Longrightarrow> set_status p (bat_status b) s = s"
  by (cases s) (auto simp: set_status_def upd_def fun_eq_iff)

lemma getStatus_fresh:
  "fresh_at (getTimeNow env) s p \<Longrightarrow> getStatus (Suc n) env p s = Inr (status_at s p, s)"
  by (auto simp: fresh_at_def status_at_def deref_def checkAndRefresh_with_def set_status_same
      split: option.splits)

lemma set_c_rate_fresh:
  assumes "\<forall>p \<in> set ps. fresh_at (getTimeNow env) s p"
  shows "set_c_rate (getStatus (Suc n) env) a ps s =
    obind (min_rate (map (charge_rate_of \<circ> status_at s) ps)) (\<lambda>c.
      obind (min_rate (map (discharge_rate_of \<circ> status_at s) ps)) (\<lambda>d.
        Inr (c, d, upd a (set_rates c d) s)))"
proof -
  have "ofold (\<lambda>p (cs, ds, s). obind (getStatus (Suc n) env p s) (\<lambda>(st, s').
      Inr (cs @ [charge_rate_of st], ds @ [discharge_rate_of st], s'))) ps (xs, ys, s) =
    Inr (xs @ map (charge_rate_of \<circ> status_at s) ps,
      ys @ map (discharge_rate_of \<circ> status_at s) ps, s)" for xs ys
    using assms by (induction ps arbitrary: xs ys) (simp_all add: getStatus_fresh del: getStatus.simps)
  then show ?thesis by (simp add: set_c_rate_def del: getStatus.simps)
qed

lemma status_at_set_rates [simp]: "status_at (upd a (set_rates c d) s) = status_at s"
  by (auto simp: fun_eq_iff status_at_def upd_def set_rates_def split: option.splits kind.splits)

lemma fresh_at_set_rates [simp]: "fresh_at now (upd a (set_rates c d) s) = fresh_at now s"
  by (auto simp: fun_eq_iff fresh_at_def upd_def set_rates_def is_stale_def split: option.splits kind.splits)

lemma refresh_aggregate_fresh:
  assumes b: "heap s a = Some b" "kind b = AggregateBattery ps ec ed"
    and fresh: "\<forall>p \<in> set ps. fresh_at (getTimeNow env) s p"
    and st: "agg_status (getTimeNow env) (map (status_at s) ps) = Inr st"
  shows "\<exists>c d. refresh (Suc n) env a s = Inr (st, upd a (set_rates c d) s)"
proof -
  from st obtain c d where cd: "min_rate (map (charge_rate_of \<circ> status_at s) ps) = Inr c"
      "min_rate (map (discharge_rate_of \<circ> status_at s) ps) = Inr d"
    and st': "st = finish_status (getTimeNow env)
      (fold (add_parent c d) (map (status_at s) ps) (default_status, Fin 0, Fin 0))"
    by (auto simp: agg_status_def comp_def)
  let ?s = "upd a (set_rates c d) s"
  have "ofold (\<lambda>p (acc, s). obind (getStatus (Suc n) env p s) (\<lambda>(st, s').
      Inr (add_parent c d st acc, s'))) ps (acc, ?s) =
    Inr (fold (add_parent c d) (map (status_at s) ps) acc, ?s)" for acc
    using fresh by (induction ps arbitrary: acc) (simp_all add: getStatus_fresh del: getStatus.simps)
  then show ?thesis
    by (auto simp: refresh_def refresh_with_def calcStatusVals_def deref_def b
        set_c_rate_fresh [OF fresh] cd st' simp del: getStatus.simps)
qed

section \<open>Properties of the batteries\<close>

text \<open>Two up-to-date physical batteries under an aggregate, as the witnesses use them.\<close>

definition sample_env :: "unit env" where
  "sample_env = \<lparr>getTimeNow = 100, refreshFunc = \<lambda>d. (default_status, d), setCurrentFunc = \<lambda>d c. (True, d)\<rparr>"

definition sample_status :: BatteryStatus where
  "sample_status = \<lparr>voltage_mV = Fin 5, current_mA = 0, capacity_mAh = 40, max_capacity_mAh = 100,
     max_charging_current_mA = 6, max_discharging_current_mA = 8, status_time = 100\<rparr>"

definition sample_battery :: "string \<Rightarrow> unit kind \<Rightarrow> unit battery" where
  "sample_battery name k =
     \<lparr>eventSet = [], eventMap = [], batteryName = name, battery_type = Physical,
      quitThread = False, bat_current_mA = 0, bat_status = sample_status, refreshMode = LAZY,
      maxStaleness = 1000, kind = k\<rparr>"

definition sample_system :: "unit system" where
  "sample_system =
     \<lparr>heap = [0 \<mapsto> sample_battery ''x'' PhysicalBattery, 1 \<mapsto> sample_battery ''y'' PhysicalBattery,
        2 \<mapsto> sample_battery ''z'' (AggregateBattery [0, 1] 0 0)],
      nextAddr = 3, SEQUENCE_NUMBER = 1\<rparr>"

lemma skel_at_sample:
  "skel_at sample_system = [0 \<mapsto> PhysicalBattery, 1 \<mapsto> PhysicalBattery, 2 \<mapsto> AggregateBattery [0, 1] 0 0]"
  by (auto simp: fun_eq_iff skel_at_def sample_system_def sample_battery_def)

lemma sample_system_wf: "wf_system sample_system"
proof -
  have "wf_links sample_system"
    by (auto simp: wf_links_def skel_at_sample links_ok_def rank_def split: if_splits)
  moreover have "queues_ok sample_system"
    by (auto simp: queues_ok_def sample_system_def sample_battery_def queue_inv_def split: if_splits)
  ultimately show ?thesis by (simp add: wf_system_def)
qed

text \<open>
  On a system whose source graph is well founded, \<open>getStatus\<close> of any live battery returns,
  however deep the aggregates and partition managers below it are nested, and it changes nothing
  but statuses, effective rates and driver states: the links, the queues, the names and the modes
  of all batteries stay. The number of nested calls never exceeds the rank of the battery.
\<close>

theorem getStatus_returns:
  assumes "wf_system s" and "skel_at s a \<noteq> None" and "rank s a < n"
  shows "\<exists>st s'. getStatus n env a s = Inr (st, s') \<and> frames s' = frames s"
  using getStatus_total [of s a n env] assms by (simp add: wf_system_def)

theorem getStatus_returns_witness:
  "\<exists>st s'. getStatus 5 sample_env 2 sample_system = Inr (st, s') \<and> frames s' = frames sample_system"
  by (rule getStatus_returns [OF sample_system_wf]) (simp_all add: skel_at_sample rank_def)

text \<open>
  On a well-formed system \<open>schedule_set_current\<close> of any live battery returns a verdict, never an
  exception, and the system stays well formed: every queue it touched keeps its invariant and no
  link changes.
\<close>

theorem schedule_keeps_system:
  assumes "wf_system s" and "skel_at s a \<noteq> None" and "rank s a < k"
  shows "\<exists>ok s'. schedule_set_current k env st en name n c a s = Inr (ok, s') \<and>
    wf_system s' \<and> skel_at s' = skel_at s"
  using schedule_total [OF assms] by (simp add: steady_def)

theorem schedule_keeps_system_witness:
  "\<exists>ok s'. schedule_set_current 5 sample_env 200 300 ''z'' 1 4 2 sample_system = Inr (ok, s') \<and>
    wf_system s' \<and> skel_at s' = skel_at sample_system"
  by (rule schedule_keeps_system [OF sample_system_wf]) (simp_all add: skel_at_sample rank_def)



text \<open>
  C6: a discharge request within the limit an aggregate reports is split so that the shares add up to
  the request and no parent is asked for more than its own discharging limit.
\<close>

theorem aggregate_discharge_split:
  assumes "agg_status now ps = Inr st" and "0 \<le> c" and "c \<le> max_discharging_current_mA st"
    and "\<forall>p \<in> set ps. 0 \<le> capacity_mAh p \<and> 0 \<le> max_discharging_current_mA p"
  shows "(\<Sum>p\<leftarrow>ps. parent_target c (calc_c_rate c (capacity_mAh st)) p) = c \<and>
    (\<forall>p \<in> set ps. 0 \<le> parent_target c (calc_c_rate c (capacity_mAh st)) p \<and>
      parent_target c (calc_c_rate c (capacity_mAh st)) p \<le> max_discharging_current_mA p)"
  using aggregate_split [OF assms] by blast

lemma sample_aggregate:
  "\<exists>st. agg_status 100 [sample_status, sample_status] = Inr st \<and>
    max_discharging_current_mA st = 16 \<and> capacity_mAh st = 80"
  by (simp add: agg_status_def min_rate_def discharge_rate_of_def calc_c_rate_def
      add_parent_def finish_status_def sample_status_def default_status_def Let_def)

theorem aggregate_discharge_split_witness:
  "\<exists>st :: BatteryStatus. (\<Sum>p\<leftarrow>[sample_status, sample_status]. parent_target 16 (calc_c_rate 16 (capacity_mAh st)) p) = 16 \<and>
    (\<forall>p \<in> set [sample_status, sample_status].
      0 \<le> parent_target 16 (calc_c_rate 16 (capacity_mAh st)) p \<and>
      parent_target 16 (calc_c_rate 16 (capacity_mAh st)) p \<le> max_discharging_current_mA p)"
proof -
  obtain st where "agg_status 100 [sample_status, sample_status] = Inr st"
    "max_discharging_current_mA st = 16"
    using sample_aggregate by blast
  then have "(\<Sum>p\<leftarrow>[sample_status, sample_status]. parent_target 16 (calc_c_rate 16 (capacity_mAh st)) p) = 16 \<and>
    (\<forall>p \<in> set [sample_status, sample_status].
      0 \<le> parent_target 16 (calc_c_rate 16 (capacity_mAh st)) p \<and>
      parent_target 16 (calc_c_rate 16 (capacity_mAh st)) p \<le> max_discharging_current_mA p)"
    by (intro aggregate_discharge_split [of 100 _ st]) (simp_all add: sample_status_def)
  then show ?thesis by blast
qed

text \<open>
  A charging request (a negative current) on an aggregate with stored charge asks every parent
  with head room for a positive current, that is, it discharges the parents.
\<close>

theorem aggregate_charge_reversed:
  assumes "c < 0" and "0 < capacity_mAh st" and "capacity_mAh p < max_capacity_mAh p"
  shows "0 < parent_target c (calc_c_rate c (capacity_mAh st)) p"
proof -
  have "- (max_capacity_mAh p - capacity_mAh p) < 0" "c / capacity_mAh st < 0"
    using assms by (simp_all add: divide_less_0_iff)
  then have "0 < - (max_capacity_mAh p - capacity_mAh p) * (c / capacity_mAh st)"
    by (rule mult_neg_neg)
  with assms show ?thesis by (simp add: parent_target_def calc_c_rate_def)
qed

theorem aggregate_charge_reversed_witness:
  "0 < parent_target (- 6) (calc_c_rate (- 6) (capacity_mAh sample_status)) sample_status"
  by (rule aggregate_charge_reversed) (simp_all add: sample_status_def)

end
