(* ===== verification/V3_Event_Thread.thy ===== *)
theory V3_Event_Thread
  imports V3_Battery
begin

text \<open>
  The event thread of a V3 battery (\<open>Battery::runEventThread\<close>): one round collects the events that
  are due, executes a cancellation when it meets one, fires the begin and end events and sets the
  new current. The rounds run on the heap because a due refresh asks the battery's sources.
\<close>

section \<open>One round\<close>

text \<open>\<open>iter++\<close>: the successor in the set as it is now; \<open>None\<close> is \<open>end()\<close>.\<close>

definition next_after :: "event \<Rightarrow> EventSet \<Rightarrow> event option" where
  "next_after x es = List.find (event_less x) es"

definition first_event :: "EventSet \<Rightarrow> event option" where
  "first_event es = (case es of [] \<Rightarrow> None | v # _ \<Rightarrow> Some v)"

text \<open>The refresh event an active battery queues for the one it executes.\<close>

definition requeue_refresh :: "event \<Rightarrow> addr \<Rightarrow> 'd system \<Rightarrow> 'd system" where
  "requeue_refresh x a s =
    (let (n, s1) = getSequenceNumber s in
     upd a (\<lambda>b. b\<lparr>eventSet := es_insert
       (mk_event (event_batteryName x) (eventID x) (event_current_mA x)
          (eventTime x + maxStaleness b) n) (eventSet b)\<rparr>) s1)"

text \<open>The \<open>for\<close> loop; the first argument bounds its turns.\<close>

fun collect_events :: "nat \<Rightarrow> nat \<Rightarrow> 'd env \<Rightarrow> addr \<Rightarrow> event option \<Rightarrow> event list \<Rightarrow> 'd system \<Rightarrow>
    (event option \<times> event list \<times> 'd system) outcome" where
  "collect_events 0 k env a iter vec s = Inl No_fuel"
| "collect_events (Suc n) k env a iter vec s =
    (case iter of
       None \<Rightarrow> Inr (None, vec, s)
     | Some x \<Rightarrow>
         if eventTime x > getTimeNow env then Inr (Some x, vec, s)
         else (case eventID x of
             CANCEL_SET_CURRENT_EVENT \<Rightarrow> Inr (Some x, vec, s)
           | REFRESH \<Rightarrow>
               obind (deref a s) (\<lambda>b.
                 let s1 = (if refreshMode b = ACTIVE then requeue_refresh x a s else s) in
                 obind (refresh k env a s1) (\<lambda>(st, s2).
                   let s3 = set_status a st s2 in
                   obind (deref a s3) (\<lambda>b3.
                     collect_events n k env a (next_after x (eventSet b3)) (vec @ [x]) s3)))
           | _ \<Rightarrow>
               obind (deref a s) (\<lambda>b.
                 collect_events n k env a (next_after x (eventSet b)) (vec @ [x]) s)))"

text \<open>
  The cancellation. The last statement of the branch reads the sequence number through an iterator
  whose element the statement before has erased; the model takes the value the element had.
\<close>

definition cancel_pair :: "event \<Rightarrow> 'd battery \<Rightarrow> 'd battery outcome" where
  "cancel_pair x b =
    obind (map_at (sequenceNumber x) (eventMap b)) (\<lambda>eventPair.
      Inr (b\<lparr>eventSet := es_erase x (es_erase (snd eventPair) (es_erase (fst eventPair) (eventSet b))),
             eventMap := map_erase (sequenceNumber x) (eventMap b)\<rparr>))"

definition fire_event :: "event \<Rightarrow> 'd battery \<Rightarrow> 'd battery" where
  "fire_event v b =
    (let b1 = (case eventID v of
         SET_CURRENT_BEGIN \<Rightarrow> b\<lparr>bat_current_mA := bat_current_mA b + event_current_mA v\<rparr>
       | SET_CURRENT_END \<Rightarrow>
           b\<lparr>bat_current_mA := bat_current_mA b - event_current_mA v,
             eventMap := map_erase (sequenceNumber v) (eventMap b)\<rparr>
       | _ \<Rightarrow> b)
     in b1\<lparr>eventSet := es_erase v (eventSet b1)\<rparr>)"

definition fire_all :: "'d env \<Rightarrow> event list \<Rightarrow> addr \<Rightarrow> 'd system \<Rightarrow> 'd system outcome" where
  "fire_all env vec a s =
    obind (deref a s) (\<lambda>b.
      if eventSet b = [] then Inr s
      else
        (let b' = fold fire_event vec b; s' = upd a (\<lambda>_. b') s in
         if bat_current_mA b' \<noteq> bat_current_mA b then
           obind (set_current env (bat_current_mA b') a s') (\<lambda>(_, s''). Inr s'')
         else Inr s'))"

definition event_round :: "nat \<Rightarrow> nat \<Rightarrow> 'd env \<Rightarrow> addr \<Rightarrow> 'd system \<Rightarrow> 'd system outcome" where
  "event_round n k env a s =
    obind (deref a s) (\<lambda>b.
      obind (collect_events n k env a (first_event (eventSet b)) [] s) (\<lambda>(iter, vec, s1).
        case iter of
          None \<Rightarrow> Inl Deref_end
        | Some x \<Rightarrow>
            obind (if eventID x = CANCEL_SET_CURRENT_EVENT
                   then obind (deref a s1) (\<lambda>b1. obind (cancel_pair x b1) (\<lambda>b2.
                          Inr (upd a (\<lambda>_. b2) s1)))
                   else Inr s1)
              (fire_all env vec a)))"

text \<open>The thread between two waits: it has quit, it waits, or it runs a round.\<close>

datatype 'd thread_result = Thread_quit | Thread_waits | Thread_ran "'d system"

definition runEventThread_step ::
  "nat \<Rightarrow> nat \<Rightarrow> 'd env \<Rightarrow> addr \<Rightarrow> 'd system \<Rightarrow> 'd thread_result outcome" where
  "runEventThread_step n k env a s =
    obind (deref a s) (\<lambda>b.
      if quitThread b then Inr Thread_quit
      else (case eventSet b of
          [] \<Rightarrow> Inr Thread_waits
        | v # _ \<Rightarrow>
            if getTimeNow env \<ge> eventTime v
            then obind (event_round n k env a s) (\<lambda>s'. Inr (Thread_ran s'))
            else Inr Thread_waits))"

section \<open>The ledger of the current\<close>

text \<open>
  The current of the battery is the sum over the recorded requests that have begun, that is, whose
  begin event is no longer pending; requests end after they begin; what has begun lies in the past.
\<close>

definition begun :: "'d battery \<Rightarrow> 64 word \<times> EventPair \<Rightarrow> real" where
  "begun b x = (if fst (snd x) \<in> set (eventSet b) then 0 else event_current_mA (fst (snd x)))"

definition ledger :: "timepoint \<Rightarrow> 'd battery \<Rightarrow> bool" where
  "ledger now b \<longleftrightarrow>
     queue_inv b \<and>
     bat_current_mA b = (\<Sum>x\<leftarrow>eventMap b. begun b x) \<and>
     (\<forall>x \<in> set (eventMap b). eventTime (fst (snd x)) \<le> eventTime (snd (snd x)) \<and>
        (fst (snd x) \<notin> set (eventSet b) \<longrightarrow> eventTime (fst (snd x)) \<le> now))"

text \<open>The current the recorded requests ask for at a time, over all names.\<close>

definition demand :: "'d battery \<Rightarrow> timepoint \<Rightarrow> real" where
  "demand b t =
    (\<Sum>x\<leftarrow>eventMap b. if eventTime (fst (snd x)) \<le> t \<and> t < eventTime (snd (snd x))
                     then event_current_mA (fst (snd x)) else 0)"

lemma sum_list_map_erase:
  assumes "map_of m k = Some p" and "distinct (map fst m)"
  shows "(\<Sum>x\<leftarrow>m. g x) = g (k, p) + (\<Sum>x\<leftarrow>map_erase k m. g x :: real)"
  using assms
proof (induction m)
  case (Cons x m)
  show ?case
  proof (cases "fst x = k")
    case True
    then have "\<forall>y \<in> set m. fst y \<noteq> k" using Cons.prems(2) by (auto simp: image_iff)
    then have "map_erase k m = m" by (auto simp: map_erase_def filter_id_conv)
    then show ?thesis using True Cons.prems(1) by (cases x) (simp add: map_erase_def)
  next
    case False
    then show ?thesis using Cons by (cases x) (simp add: map_erase_def)
  qed
qed simp

lemma queue_inv_distinct: "queue_inv q \<Longrightarrow> distinct (map fst (eventMap q))"
  using key.wf_map_distinct unfolding queue_inv_def by blast

lemma es_erase_head:
  assumes "sorted_wrt event_less (v # es)"
  shows "es_erase v (v # es) = es"
proof -
  have "filter (\<lambda>y. event_less v y \<or> event_less y v) es = es"
    using assms by (auto simp: filter_id_conv)
  then show ?thesis by (simp add: set_erase_def ev.irrefl)
qed

text \<open>Firing the first pending event.\<close>

lemma fire_refresh_ledger:
  assumes led: "ledger now b" and es: "eventSet b = v # es" and v: "eventID v = REFRESH"
  shows "ledger now (fire_event v b)"
proof -
  have sorted: "sorted_wrt event_less (v # es)" using led by (simp add: ledger_def queue_inv_def es)
  have b': "fire_event v b = b\<lparr>eventSet := es\<rparr>"
    by (simp add: fire_event_def v es es_erase_head [OF sorted])
  have ids: "eventID (fst (snd x)) \<noteq> REFRESH \<and> eventID (snd (snd x)) \<noteq> REFRESH"
    if "x \<in> set (eventMap b)" for x
    using that led by (auto simp: ledger_def queue_inv_def pair_ok_def)
  have ne: "\<forall>x \<in> set (eventMap b). fst (snd x) \<noteq> v \<and> snd (snd x) \<noteq> v"
    using ids v by metis
  have "(\<Sum>x\<leftarrow>eventMap b. begun (b\<lparr>eventSet := es\<rparr>) x) = (\<Sum>x\<leftarrow>eventMap b. begun b x)"
    by (intro arg_cong [where f = sum_list] map_cong refl) (use ne es in \<open>auto simp: begun_def\<close>)
  with led ne es sorted show ?thesis
    unfolding b' ledger_def queue_inv_def by simp
qed

lemma fire_begin_ledger:
  assumes led: "ledger now b" and es: "eventSet b = v # es" and v: "eventID v = SET_CURRENT_BEGIN"
    and due: "eventTime v \<le> now"
  shows "ledger now (fire_event v b)"
proof -
  have inv: "queue_inv b" using led by (simp add: ledger_def)
  have sorted: "sorted_wrt event_less (v # es)" using inv by (simp add: queue_inv_def es)
  let ?c = "event_current_mA v" and ?n = "sequenceNumber v"
  have b': "fire_event v b = b\<lparr>eventSet := es, bat_current_mA := bat_current_mA b + ?c\<rparr>"
    by (simp add: fire_event_def v es es_erase_head [OF sorted])
  have v_es: "v \<notin> set es" using sorted ev.irrefl by auto
  obtain f where f: "map_of (eventMap b) ?n = Some (v, f)"
    using inv v by (auto simp: queue_inv_def es recorded_def split: option.splits)
  let ?b = "fire_event v b"
  have other: "fst (snd x) \<noteq> v" if "x \<in> set (map_erase ?n (eventMap b))" for x
    using that inv by (auto simp: queue_inv_def pair_ok_def)
  have ends: "snd (snd x) \<noteq> v" if "x \<in> set (eventMap b)" for x
    using that inv v by (auto simp: queue_inv_def pair_ok_def)
  have rest: "(\<Sum>x\<leftarrow>map_erase ?n (eventMap b). begun ?b x) = (\<Sum>x\<leftarrow>map_erase ?n (eventMap b). begun b x)"
    by (intro arg_cong [where f = sum_list] map_cong refl) (use other in \<open>simp add: begun_def b' es\<close>)
  note split = sum_list_map_erase [OF f queue_inv_distinct [OF inv]]
  have "(\<Sum>x\<leftarrow>eventMap b. begun ?b x) = ?c + (\<Sum>x\<leftarrow>eventMap b. begun b x)"
    unfolding split [of "begun ?b"] split [of "begun b"] rest
    by (simp add: begun_def b' es v_es)
  moreover have "queue_inv ?b"
    using inv ends sorted by (auto simp: queue_inv_def b' es)
  moreover have "eventTime (fst (snd x)) \<le> now" if "x \<in> set (eventMap b)" "fst (snd x) \<notin> set es" for x
    using that led due by (cases "fst (snd x) = v") (auto simp: ledger_def es)
  ultimately show ?thesis using led by (auto simp: ledger_def b')
qed

lemma fire_end_ledger:
  assumes led: "ledger now b" and es: "eventSet b = v # es" and v: "eventID v = SET_CURRENT_END"
  shows "ledger now (fire_event v b)"
proof -
  have inv: "queue_inv b" using led by (simp add: ledger_def)
  have sorted: "sorted_wrt event_less (v # es)" using inv by (simp add: queue_inv_def es)
  let ?c = "event_current_mA v" and ?n = "sequenceNumber v"
  have b': "fire_event v b = b\<lparr>eventSet := es, bat_current_mA := bat_current_mA b - ?c,
      eventMap := map_erase ?n (eventMap b)\<rparr>"
    by (simp add: fire_event_def v es es_erase_head [OF sorted])
  obtain u where u: "map_of (eventMap b) ?n = Some (u, v)"
    using inv v by (auto simp: queue_inv_def es recorded_def split: option.splits)
  then have x: "(?n, u, v) \<in> set (eventMap b)" using inv by (simp add: queue_inv_map_of)
  then have ok: "pair_ok (?n, u, v)" using inv by (auto simp: queue_inv_def)
  have "event_less u v"
    using led x ok by (auto simp: ledger_def pair_ok_def event_less_def less_EventID_def)
  then have gone: "u \<notin> set (v # es)" using sorted ev.asym ev.irrefl by auto
  let ?b = "fire_event v b"
  have other: "snd (snd x) \<in> set es \<and> fst (snd x) \<noteq> v" if "x \<in> set (map_erase ?n (eventMap b))" for x
    using that inv v by (auto simp: queue_inv_def pair_ok_def es)
  have rest: "(\<Sum>x\<leftarrow>map_erase ?n (eventMap b). begun ?b x) = (\<Sum>x\<leftarrow>map_erase ?n (eventMap b). begun b x)"
    by (intro arg_cong [where f = sum_list] map_cong refl) (use other in \<open>simp add: begun_def b' es\<close>)
  have "begun b (?n, u, v) = ?c" using gone ok by (simp add: begun_def es pair_ok_def)
  then have "bat_current_mA b = ?c + (\<Sum>x\<leftarrow>map_erase ?n (eventMap b). begun b x)"
    using led unfolding ledger_def sum_list_map_erase [OF u queue_inv_distinct [OF inv]]
    by simp
  moreover have "recorded (map_erase ?n (eventMap b)) w" if w: "w \<in> set es" for w
  proof (cases "sequenceNumber w = ?n")
    case True
    have "w \<noteq> v" "w \<noteq> u" using w sorted gone ev.irrefl by auto
    then have "eventID w \<noteq> SET_CURRENT_BEGIN \<and> eventID w \<noteq> SET_CURRENT_END"
      using queue_inv_recorded [OF inv x, of w] True w by (auto simp: es)
    with True show ?thesis by (simp add: recorded_def)
  next
    case False
    then show ?thesis using inv w by (simp add: queue_inv_def es recorded_def)
  qed
  moreover have "sorted_wrt (pair_less key_less) (map_erase ?n (eventMap b))"
    using inv by (simp add: queue_inv_def key.wf_map_erase)
  ultimately show ?thesis
    using led other sorted rest by (auto simp: ledger_def queue_inv_def b' es)
qed

lemma fire_event_set:
  "sorted_wrt event_less (v # es) \<Longrightarrow> eventSet b = v # es \<Longrightarrow> eventSet (fire_event v b) = es"
  by (cases "eventID v") (simp_all add: fire_event_def es_erase_head)

lemma fire_vector:
  assumes "ledger now b" and "eventSet b = vec @ es"
    and "\<forall>v \<in> set vec. eventTime v \<le> now \<and> eventID v \<noteq> CANCEL_SET_CURRENT_EVENT"
  shows "ledger now (fold fire_event vec b) \<and> eventSet (fold fire_event vec b) = es"
  using assms
proof (induction vec arbitrary: b)
  case (Cons v vec)
  have es: "eventSet b = v # (vec @ es)" using Cons.prems(2) by simp
  have "sorted_wrt event_less (v # (vec @ es))"
    using Cons.prems(1) by (simp add: ledger_def queue_inv_def es del: sorted_wrt.simps)
  then have "eventSet (fire_event v b) = vec @ es" using es by (rule fire_event_set)
  moreover have "ledger now (fire_event v b)"
    using Cons.prems(1,3) es
    by (cases "eventID v") (auto intro: fire_refresh_ledger fire_begin_ledger fire_end_ledger)
  ultimately show ?case using Cons.IH Cons.prems(3) by simp
qed simp

lemma ledger_demand:
  assumes led: "ledger now b" and later: "\<forall>v \<in> set (eventSet b). now < eventTime v"
  shows "bat_current_mA b = demand b now"
proof -
  have "begun b x = (if eventTime (fst (snd x)) \<le> now \<and> now < eventTime (snd (snd x))
      then event_current_mA (fst (snd x)) else 0)" if "x \<in> set (eventMap b)" for x
    using that led later by (force simp: begun_def ledger_def queue_inv_def)
  with led show ?thesis
    by (simp add: ledger_def demand_def cong: map_cong)
qed

section \<open>The collecting loop ends\<close>

lemma find_append_skip: "\<forall>y \<in> set xs. \<not> P y \<Longrightarrow> List.find P (xs @ ys) = List.find P ys"
  by (induction xs) auto

lemma next_after_sorted:
  assumes "sorted_wrt event_less (vec @ x # rest)"
  shows "next_after x (vec @ x # rest) = first_event rest"
proof -
  have "\<forall>y \<in> set (vec @ [x]). \<not> event_less x y"
    using assms ev.asym ev.irrefl by (auto simp: sorted_wrt_append)
  then have "List.find (event_less x) ((vec @ [x]) @ rest) = List.find (event_less x) rest"
    by (rule find_append_skip)
  moreover have "List.find (event_less x) rest = first_event rest"
    using assms by (cases rest) (auto simp: sorted_wrt_append first_event_def)
  ultimately show ?thesis by (simp add: next_after_def)
qed

lemma frame_eqD:
  assumes "frame b = frame b'"
  shows "eventSet b = eventSet b'" "eventMap b = eventMap b'" "bat_current_mA b = bat_current_mA b'"
    "refreshMode b = refreshMode b'" "maxStaleness b = maxStaleness b'" "quitThread b = quitThread b'"
    "batteryName b = batteryName b'" "skel (kind b) = skel (kind b')"
  using assms by (simp_all add: frame_def)

lemma ledger_eq:
  assumes "eventSet b = eventSet b'" and "eventMap b = eventMap b'"
    and "bat_current_mA b = bat_current_mA b'"
  shows "ledger now b = ledger now b'"
proof -
  have "begun b = begun b'" using assms by (simp add: fun_eq_iff begun_def)
  moreover have "queue_inv b = queue_inv b'" using assms by (simp add: queue_inv_def)
  ultimately show ?thesis using assms by (simp add: ledger_def)
qed

lemma ledger_insert_refresh:
  assumes led: "ledger now b" and r: "eventID r = REFRESH"
  shows "ledger now (b\<lparr>eventSet := es_insert r (eventSet b)\<rparr>)"
proof -
  have sorted: "sorted_wrt event_less (eventSet b)" using led by (simp add: ledger_def queue_inv_def)
  have mem: "v \<in> set (es_insert r (eventSet b)) \<Longrightarrow> v = r \<or> v \<in> set (eventSet b)"
    "v \<in> set (eventSet b) \<Longrightarrow> v \<in> set (es_insert r (eventSet b))" for v
    using ev.set_insert_subset ev.set_insert_superset by blast+
  have ids: "fst (snd x) \<noteq> r" if "x \<in> set (eventMap b)" for x
    using that led r by (auto simp: ledger_def queue_inv_def pair_ok_def)
  have same: "fst (snd x) \<in> set (es_insert r (eventSet b)) \<longleftrightarrow> fst (snd x) \<in> set (eventSet b)"
    if "x \<in> set (eventMap b)" for x
    using mem [of "fst (snd x)"] ids [OF that] by blast
  have "recorded (eventMap b) v" if "v \<in> set (es_insert r (eventSet b))" for v
    using mem(1) [OF that] led r by (auto simp: ledger_def queue_inv_def recorded_def split: option.splits)
  moreover have "(\<Sum>x\<leftarrow>eventMap b. begun (b\<lparr>eventSet := es_insert r (eventSet b)\<rparr>) x) =
      (\<Sum>x\<leftarrow>eventMap b. begun b x)"
    by (intro arg_cong [where f = sum_list] map_cong refl) (use same in \<open>auto simp: begun_def\<close>)
  ultimately show ?thesis
    using led mem(2) sorted same by (auto simp: ledger_def queue_inv_def ev.sorted_set_insert)
qed

text \<open>
  The turns a pending event still costs: a due refresh is followed by one refresh per staleness
  period that has passed since.
\<close>

definition turns :: "timepoint \<Rightarrow> int \<Rightarrow> event \<Rightarrow> nat" where
  "turns now ms v =
    (if now < eventTime v then 0
     else if eventID v = REFRESH then Suc (nat ((now - eventTime v) div ms)) else 1)"

lemma turns_requeue:
  assumes "0 < ms" and "eventTime x \<le> now" and "eventID x = REFRESH"
    and "eventID r = REFRESH" and "eventTime r = eventTime x + ms"
  shows "Suc (turns now ms r) \<le> turns now ms x"
proof (cases "now < eventTime r")
  case False
  then have "(now - eventTime x) div ms = (now - eventTime r) div ms + 1"
    using assms(1,5) div_add_self2 [of ms "now - eventTime r"] by (simp add: algebra_simps)
  moreover have "0 \<le> (now - eventTime r) div ms"
    using False assms(1) by (simp add: pos_imp_zdiv_nonneg_iff)
  ultimately show ?thesis using False assms by (simp add: turns_def nat_add_distrib)
qed (use assms in \<open>simp add: turns_def\<close>)

definition collected :: "timepoint \<Rightarrow> 'd battery \<Rightarrow> 'd battery \<Rightarrow> event list \<Rightarrow> EventSet \<Rightarrow> bool" where
  "collected now b0 b vec rest \<longleftrightarrow>
     ledger now b \<and> eventSet b = vec @ rest \<and> eventMap b = eventMap b0 \<and>
     refreshMode b = refreshMode b0 \<and> maxStaleness b = maxStaleness b0 \<and>
     set (eventSet b0) \<subseteq> set (eventSet b) \<and>
     (refreshMode b0 = LAZY \<longrightarrow> eventSet b = eventSet b0) \<and>
     (\<forall>v \<in> set (eventSet b). eventID v \<noteq> REFRESH \<longrightarrow> v \<in> set (eventSet b0)) \<and>
     (\<forall>v \<in> set vec. eventTime v \<le> now \<and> eventID v \<noteq> CANCEL_SET_CURRENT_EVENT)"

lemma requeue_collected:
  assumes col: "collected now b0 b vec (x # rest)" and x: "eventID x = REFRESH" "eventTime x \<le> now"
    and ms: "0 < maxStaleness b0" "refreshMode b0 = ACTIVE" and b: "heap s a = Some b"
  shows "\<exists>b1 rest1. heap (requeue_refresh x a s) a = Some b1 \<and>
    collected now b0 b1 vec (x # rest1) \<and>
    (\<Sum>v\<leftarrow>rest1. turns now (maxStaleness b0) v) < (\<Sum>v\<leftarrow>x # rest. turns now (maxStaleness b0) v) \<and>
    skel_at (requeue_refresh x a s) = skel_at s"
proof -
  define r where "r = mk_event (event_batteryName x) (eventID x) (event_current_mA x)
    (eventTime x + maxStaleness b) (SEQUENCE_NUMBER s)"
  have r: "eventID r = REFRESH" "eventTime r = eventTime x + maxStaleness b0"
    using x col by (simp_all add: r_def collected_def)
  have es: "eventSet b = vec @ x # rest" and led: "ledger now b" using col by (auto simp: collected_def)
  have sorted: "sorted_wrt event_less (vec @ x # rest)"
    using led es by (simp add: ledger_def queue_inv_def)
  have "event_less x r" using r ms(1) by (simp add: event_less_def)
  then have "\<forall>y \<in> set (vec @ [x]). event_less y r"
    using sorted ev.trans by (fastforce simp: sorted_wrt_append)
  then have ins: "es_insert r (eventSet b) = vec @ x # es_insert r rest"
    using ev.set_insert_append [of "vec @ [x]" r rest] by (simp add: es)
  have sub: "set (eventSet b0) \<subseteq> set (eventSet b)"
    and old: "\<forall>v \<in> set (eventSet b). eventID v \<noteq> REFRESH \<longrightarrow> v \<in> set (eventSet b0)"
    using col unfolding collected_def by blast+
  let ?b1 = "b\<lparr>eventSet := es_insert r (eventSet b)\<rparr>"
  have "heap (requeue_refresh x a s) a = Some ?b1"
    using b by (simp add: requeue_refresh_def getSequenceNumber_def upd_def r_def)
  moreover have "set (eventSet b0) \<subseteq> set (eventSet ?b1)"
    using subset_trans [OF sub ev.set_insert_superset] by simp
  moreover have "\<forall>v \<in> set (eventSet ?b1). eventID v \<noteq> REFRESH \<longrightarrow> v \<in> set (eventSet b0)"
    using ev.set_insert_subset [of r "eventSet b"] r(1) old by auto
  ultimately have "heap (requeue_refresh x a s) a = Some ?b1"
    "collected now b0 ?b1 vec (x # es_insert r rest)"
    using col ledger_insert_refresh [OF led r(1)] ins ms(2) unfolding collected_def by auto
  moreover have "(\<Sum>v\<leftarrow>es_insert r rest. turns now (maxStaleness b0) v) <
      (\<Sum>v\<leftarrow>x # rest. turns now (maxStaleness b0) v)"
    using ev.sum_set_insert_le [of "turns now (maxStaleness b0)" r rest]
      turns_requeue [OF ms(1) x(2) x(1) r] by simp
  moreover have "skel_at (requeue_refresh x a s) = skel_at s"
    by (auto simp: fun_eq_iff skel_at_def requeue_refresh_def getSequenceNumber_def upd_def
        option.map_comp comp_def)
  ultimately show ?thesis by blast
qed

lemma collected_frame:
  assumes "collected now b0 b vec rest" and "frame b' = frame b"
  shows "collected now b0 b' vec rest"
  using assms(1) ledger_eq [OF frame_eqD(1-3) [OF assms(2)], of now] frame_eqD [OF assms(2)]
  by (auto simp: collected_def)

lemma collected_step:
  assumes "collected now b0 b vec (x # rest)" and "eventTime x \<le> now"
    and "eventID x \<noteq> CANCEL_SET_CURRENT_EVENT"
  shows "collected now b0 b (vec @ [x]) rest" and "next_after x (eventSet b) = first_event rest"
proof -
  show "collected now b0 b (vec @ [x]) rest" using assms by (auto simp: collected_def)
  have "sorted_wrt event_less (eventSet b)" "eventSet b = vec @ x # rest"
    using assms(1) by (auto simp: collected_def ledger_def queue_inv_def)
  then show "next_after x (eventSet b) = first_event rest"
    using next_after_sorted by simp
qed

text \<open>A due refresh: the optional requeueing and the refresh itself.\<close>

lemma refresh_collected:
  fixes s :: "'d system"
  assumes col: "collected (getTimeNow env) b0 b vec (x # rest)"
    and x: "eventID x = REFRESH" "eventTime x \<le> getTimeNow env"
    and ms: "refreshMode b0 = ACTIVE \<Longrightarrow> 0 < maxStaleness b0"
    and b: "heap s a = Some b" and wf: "wf_links s" "rank s a \<le> k"
  shows "\<exists>st s2 b3 rest1.
    refresh k env a (if refreshMode b = ACTIVE then requeue_refresh x a s else s) = Inr (st, s2) \<and>
    heap (set_status a st s2) a = Some b3 \<and>
    collected (getTimeNow env) b0 b3 vec (x # rest1) \<and>
    (\<Sum>v\<leftarrow>rest1. turns (getTimeNow env) (maxStaleness b0) v) <
      (\<Sum>v\<leftarrow>x # rest. turns (getTimeNow env) (maxStaleness b0) v) \<and>
    skel_at (set_status a st s2) = skel_at s"
proof -
  let ?s1 = "if refreshMode b = ACTIVE then requeue_refresh x a s else s"
  have "refreshMode b = refreshMode b0" using col by (simp add: collected_def)
  moreover have "0 < turns (getTimeNow env) (maxStaleness b0) x" using x by (simp add: turns_def)
  ultimately obtain b1 rest1 where b1: "heap ?s1 a = Some b1"
    and col1: "collected (getTimeNow env) b0 b1 vec (x # rest1)"
    and less: "(\<Sum>v\<leftarrow>rest1. turns (getTimeNow env) (maxStaleness b0) v) <
      (\<Sum>v\<leftarrow>x # rest. turns (getTimeNow env) (maxStaleness b0) v)"
    and sk: "skel_at ?s1 = skel_at s"
    using requeue_collected [OF col x ms _ b] col b by (cases "refreshMode b0") auto
  have "wf_links ?s1" "rank ?s1 a \<le> k" using skel_wf_links [OF sk] skel_rank [OF sk] wf by auto
  moreover have "skel_at ?s1 a \<noteq> None" using b1 by (simp add: skel_at_def)
  ultimately obtain st s2 where run: "refresh k env a ?s1 = Inr (st, s2)" and fr: "frames s2 = frames ?s1"
    using refresh_total [of ?s1 a k env] by blast
  then have fr3: "frames (set_status a st s2) = frames ?s1" by simp
  from frames_heap [OF fr3 b1] obtain b3 where "heap (set_status a st s2) a = Some b3" "frame b3 = frame b1" .
  with collected_frame [OF col1] run less skel_at_cong [OF fr3] sk show ?thesis by metis
qed

lemma collect_events_run:
  fixes s :: "'d system"
  assumes "collected (getTimeNow env) b0 b vec rest" and "heap s a = Some b"
    and "wf_links s" and "rank s a \<le> k" and "refreshMode b0 = ACTIVE \<Longrightarrow> 0 < maxStaleness b0"
    and "(\<Sum>v\<leftarrow>rest. turns (getTimeNow env) (maxStaleness b0) v) < n"
  shows "\<exists>vec' rest' s' b'. collect_events n k env a (first_event rest) vec s =
      Inr (first_event rest', vec', s') \<and> heap s' a = Some b' \<and>
    collected (getTimeNow env) b0 b' vec' rest' \<and> skel_at s' = skel_at s \<and>
    (\<forall>x. first_event rest' = Some x \<longrightarrow>
      getTimeNow env < eventTime x \<or> eventID x = CANCEL_SET_CURRENT_EVENT)"
  using assms
proof (induction n arbitrary: b vec rest s)
  case (Suc n)
  let ?now = "getTimeNow env" and ?w = "\<lambda>vs. \<Sum>v\<leftarrow>vs. turns (getTimeNow env) (maxStaleness b0) v"
  show ?case
  proof (cases rest)
    case Nil
    then show ?thesis using Suc.prems(1,2)
      by (auto simp: first_event_def intro!: exI [of _ vec] exI [of _ "[]"])
  next
    case (Cons x rest1)
    note col = Suc.prems(1) [unfolded Cons]
    consider "?now < eventTime x \<or> eventID x = CANCEL_SET_CURRENT_EVENT"
      | "eventTime x \<le> ?now" "eventID x = REFRESH"
      | "eventTime x \<le> ?now" "eventID x = SET_CURRENT_BEGIN \<or> eventID x = SET_CURRENT_END"
      by (cases "eventID x"; cases "?now < eventTime x") auto
    then show ?thesis
    proof cases
      case 1
      then have "collect_events (Suc n) k env a (first_event rest) vec s = Inr (first_event rest, vec, s)"
        by (auto simp: Cons first_event_def)
      with 1 Suc.prems(1,2) show ?thesis
        by (auto simp: Cons first_event_def intro!: exI [of _ rest])
    next
      case 2
      obtain st s2 b3 rest2 where run: "refresh k env a
            (if refreshMode b = ACTIVE then requeue_refresh x a s else s) = Inr (st, s2)"
        and b3: "heap (set_status a st s2) a = Some b3"
        and col3: "collected ?now b0 b3 vec (x # rest2)" and less: "?w rest2 < ?w (x # rest1)"
        and sk: "skel_at (set_status a st s2) = skel_at s"
        using refresh_collected [OF col 2(2,1) Suc.prems(5,2,3,4)] by blast
      have step: "collect_events (Suc n) k env a (first_event rest) vec s =
          collect_events n k env a (first_event rest2) (vec @ [x]) (set_status a st s2)"
        using 2 Suc.prems(2) run b3 collected_step(2) [OF col3] by (simp add: Cons first_event_def deref_def)
      have "collected ?now b0 b3 (vec @ [x]) rest2" using collected_step(1) [OF col3] 2 by simp
      from Suc.IH [OF this b3] sk skel_wf_links [OF sk] skel_rank [OF sk] Suc.prems(3,4,5,6) less
      show ?thesis unfolding step by (simp add: Cons)
    next
      case 3
      have step: "collect_events (Suc n) k env a (first_event rest) vec s =
          collect_events n k env a (first_event rest1) (vec @ [x]) s"
        using 3 Suc.prems(2) collected_step(2) [OF col] by (auto simp: Cons first_event_def deref_def)
      have "collected ?now b0 b (vec @ [x]) rest1" using collected_step(1) [OF col] 3 by auto
      moreover have "?w rest1 < n" using Suc.prems(6) 3 by (auto simp: Cons turns_def)
      ultimately show ?thesis unfolding step using Suc.IH Suc.prems(2-5) by blast
    qed
  qed
qed simp

section \<open>What a round achieves\<close>

lemma ledger_mono: "ledger t b \<Longrightarrow> t \<le> now \<Longrightarrow> ledger now b"
  by (fastforce simp: ledger_def)

lemma fire_event_demand:
  assumes "queue_inv b" and "v \<in> set (eventSet b)" and "eventTime v \<le> now"
  shows "demand (fire_event v b) now = demand b now"
proof (cases "eventID v = SET_CURRENT_END")
  case True
  then obtain u where "map_of (eventMap b) (sequenceNumber v) = Some (u, v)"
    using assms(1,2) by (auto simp: queue_inv_def recorded_def split: option.splits)
  from sum_list_map_erase [OF this queue_inv_distinct [OF assms(1)]] show ?thesis
    using True assms(3) by (simp add: demand_def fire_event_def Let_def)
qed (cases "eventID v"; simp add: demand_def fire_event_def Let_def)

lemma fire_vector_demand:
  assumes "ledger now b" and "eventSet b = vec @ es"
    and "\<forall>v \<in> set vec. eventTime v \<le> now \<and> eventID v \<noteq> CANCEL_SET_CURRENT_EVENT"
  shows "demand (fold fire_event vec b) now = demand b now"
  using assms
proof (induction vec arbitrary: b)
  case (Cons v vec)
  have "ledger now (fold fire_event [v] b) \<and> eventSet (fold fire_event [v] b) = vec @ es"
    by (rule fire_vector) (use Cons.prems in auto)
  moreover have "demand (fire_event v b) now = demand b now"
    using Cons.prems by (intro fire_event_demand) (auto simp: ledger_def)
  ultimately show ?case using Cons.IH [of "fire_event v b"] Cons.prems(3) by simp
qed simp

lemma set_battery_current_queue:
  "set_battery_current env c b = (ok, b') \<Longrightarrow>
    eventSet b' = eventSet b \<and> eventMap b' = eventMap b \<and> bat_current_mA b' = bat_current_mA b"
  by (auto simp: set_battery_current_def Let_def split: kind.splits prod.splits)

lemma fire_all_run:
  assumes b: "heap s a = Some b" and col: "collected now b0 b vec rest"
  shows "\<exists>s' b'. fire_all env vec a s = Inr s' \<and> heap s' a = Some b' \<and> ledger now b' \<and>
    eventSet b' = rest \<and> demand b' now = demand b now"
proof -
  let ?b = "fold fire_event vec b"
  have led: "ledger now ?b" "eventSet ?b = rest" and dem: "demand ?b now = demand b now"
    using col fire_vector [of now b vec rest] fire_vector_demand [of now b vec rest]
    by (auto simp: collected_def)
  show ?thesis
  proof (cases "eventSet b = [] \<or> bat_current_mA ?b = bat_current_mA b")
    case True
    have "vec = []" if "eventSet b = []" using that col by (simp add: collected_def)
    with True b led dem show ?thesis by (auto simp: fire_all_def deref_def Let_def upd_def)
  next
    case False
    obtain ok b' where set: "set_battery_current env (bat_current_mA ?b) ?b = (ok, b')"
      by (cases "set_battery_current env (bat_current_mA ?b) ?b")
    note q = set_battery_current_queue [OF set]
    have "ledger now b'" "demand b' now = demand ?b now"
      using q ledger_eq [of b' ?b now] led(1) by (auto simp: demand_def)
    with False b led dem set q show ?thesis
      by (auto simp: fire_all_def deref_def Let_def upd_def set_current_def)
  qed
qed

lemma demand_map: "eventMap b = eventMap b' \<Longrightarrow> demand b t = demand b' t"
  by (simp add: demand_def)

lemma event_round_run:
  fixes s :: "'d system"
  assumes b: "heap s a = Some b" and led: "ledger t b" "t \<le> getTimeNow env"
    and wf: "wf_links s" "rank s a \<le> k"
    and ms: "refreshMode b = ACTIVE \<Longrightarrow> 0 < maxStaleness b"
    and cancel: "\<forall>v \<in> set (eventSet b). eventID v \<noteq> CANCEL_SET_CURRENT_EVENT"
    and pending: "\<exists>v \<in> set (eventSet b). getTimeNow env < eventTime v"
    and fuel: "(\<Sum>v\<leftarrow>eventSet b. turns (getTimeNow env) (maxStaleness b) v) < n"
  shows "\<exists>s' b'. event_round n k env a s = Inr s' \<and> heap s' a = Some b' \<and>
    ledger (getTimeNow env) b' \<and> bat_current_mA b' = demand b (getTimeNow env) \<and>
    (\<forall>v \<in> set (eventSet b'). getTimeNow env < eventTime v)"
proof -
  let ?now = "getTimeNow env"
  have "collected ?now b b [] (eventSet b)"
    using ledger_mono [OF led] by (simp add: collected_def)
  from collect_events_run [OF this b wf ms fuel]
  obtain vec rest s1 b1 where run: "collect_events n k env a (first_event (eventSet b)) [] s =
        Inr (first_event rest, vec, s1)"
    and b1: "heap s1 a = Some b1" and col: "collected ?now b b1 vec rest"
    and stop: "\<forall>x. first_event rest = Some x \<longrightarrow> ?now < eventTime x \<or> eventID x = CANCEL_SET_CURRENT_EVENT"
    by blast
  from pending col obtain v where "v \<in> set rest" "?now < eventTime v"
    by (force simp: collected_def)
  then obtain x rest' where rest: "rest = x # rest'" by (cases rest) auto
  have "eventID x \<noteq> CANCEL_SET_CURRENT_EVENT"
    using col cancel by (auto simp: rest collected_def)
  with stop have x: "?now < eventTime x" "eventID x \<noteq> CANCEL_SET_CURRENT_EVENT"
    by (auto simp: rest first_event_def)
  have "sorted_wrt event_less rest"
    using col by (auto simp: collected_def ledger_def queue_inv_def sorted_wrt_append)
  then have later: "\<forall>v \<in> set rest. ?now < eventTime v"
    using x(1) by (auto simp: rest event_less_def split: if_splits)
  obtain s2 b2 where fire: "fire_all env vec a s1 = Inr s2" and b2: "heap s2 a = Some b2"
    and led2: "ledger ?now b2" "eventSet b2 = rest" "demand b2 ?now = demand b1 ?now"
    using fire_all_run [OF b1 col, of env] by blast
  have dem: "demand b1 ?now = demand b ?now" using col by (intro demand_map) (simp add: collected_def)
  have cur: "bat_current_mA b2 = demand b ?now"
    using ledger_demand [OF led2(1)] later led2 dem by simp
  have "event_round n k env a s = Inr s2"
    using b run fire x(2) by (simp add: event_round_def deref_def rest first_event_def)
  with b2 led2 cur later show ?thesis by auto
qed

lemma event_round_past_end:
  fixes s :: "'d system"
  assumes b: "heap s a = Some b" and led: "ledger t b" "t \<le> getTimeNow env"
    and wf: "wf_links s" "rank s a \<le> k" and mode: "refreshMode b = LAZY"
    and due: "\<forall>v \<in> set (eventSet b). eventID v \<noteq> CANCEL_SET_CURRENT_EVENT \<and> eventTime v \<le> getTimeNow env"
    and fuel: "(\<Sum>v\<leftarrow>eventSet b. turns (getTimeNow env) (maxStaleness b) v) < n"
  shows "event_round n k env a s = Inl Deref_end"
proof -
  let ?now = "getTimeNow env"
  have "collected ?now b b [] (eventSet b)"
    using ledger_mono [OF led] by (simp add: collected_def)
  from collect_events_run [OF this b wf _ fuel] mode
  obtain vec rest s1 b1 where run: "collect_events n k env a (first_event (eventSet b)) [] s =
        Inr (first_event rest, vec, s1)"
    and col: "collected ?now b b1 vec rest"
    and stop: "\<forall>x. first_event rest = Some x \<longrightarrow> ?now < eventTime x \<or> eventID x = CANCEL_SET_CURRENT_EVENT"
    by auto
  have "rest = []"
  proof (rule ccontr)
    assume "rest \<noteq> []"
    then obtain x rest' where rest: "rest = x # rest'" by (cases rest) auto
    then have "x \<in> set (eventSet b)" using col mode by (auto simp: collected_def)
    with due stop rest show False by (force simp: first_event_def)
  qed
  then show ?thesis using b run by (simp add: event_round_def deref_def first_event_def)
qed

section \<open>A request keeps the ledger\<close>

lemma mem_cut_other:
  assumes inv: "queue_inv q" and x: "(k, p) \<in> set (eventMap q)" and v: "sequenceNumber v \<noteq> k"
  shows "v \<in> set (cut_set name s e (k, p) (eventSet q)) \<longleftrightarrow> v \<in> set (eventSet q)"
proof -
  obtain b f where p: "p = (b, f)" by (cases p)
  have x': "(k, b, f) \<in> set (eventMap q)" using x p by simp
  have ok: "sequenceNumber b = k" "sequenceNumber f = k"
    and sorted: "sorted_wrt event_less (eventSet q)"
    using inv x' by (auto simp: queue_inv_def pair_ok_def)
  have "v \<noteq> u" "\<not> ev.same u v" if "sequenceNumber u = k" for u
    using that v by (auto simp: same_event_iff)
  note ne = this
  have "v \<in> set (es_insert u (eventSet q)) \<longleftrightarrow> v \<in> set (eventSet q)" if "sequenceNumber u = k" for u
    using ne(1) [OF that] by (simp add: ev.mem_set_insert [OF sorted])
  moreover note mem_retime [OF inv x' disjI1 [OF refl], of v e] ne [OF ok(1)]
  moreover note mem_retime [OF inv x' disjI2 [OF refl], of v s] ne [OF ok(2)]
  ultimately show ?thesis
    using ok v by (auto simp: cut_set_def p Let_def)
qed

lemma mem_cut_begin:
  assumes inv: "queue_inv q" and x: "(k, b, f) \<in> set (eventMap q)"
  shows "fst (cut_pair name s e (b, f)) \<in> set (cut_set name s e (k, b, f) (eventSet q)) \<longleftrightarrow>
    b \<in> set (eventSet q) \<or> (name = event_batteryName b \<and> cuts_begin s e (b, f))"
proof -
  have ids: "eventID b = SET_CURRENT_BEGIN" "eventID f = SET_CURRENT_END"
    and sorted: "sorted_wrt event_less (eventSet q)"
    using inv x by (auto simp: queue_inv_def pair_ok_def)
  have cancel: "b \<in> set (es_insert u (eventSet q)) \<longleftrightarrow> b \<in> set (eventSet q)"
    if "eventID u = CANCEL_SET_CURRENT_EVENT" for u
    using that ids by (auto simp: ev.mem_set_insert [OF sorted])
  have "b \<noteq> f\<lparr>eventTime := t\<rparr>" "\<not> ev.same f b" for t
    using ids by (auto simp: same_event_iff)
  then have fin: "b \<in> set (es_insert (f\<lparr>eventTime := s\<rparr>) (es_erase f (eventSet q))) \<longleftrightarrow> b \<in> set (eventSet q)"
    by (auto simp: mem_retime [OF inv x disjI2 [OF refl]])
  have beg: "b\<lparr>eventTime := e\<rparr> \<in> set (es_insert (b\<lparr>eventTime := e\<rparr>) (es_erase b (eventSet q)))"
    by (simp add: mem_retime [OF inv x disjI1 [OF refl]])
  consider "name \<noteq> event_batteryName b" | "name = event_batteryName b" "covers s e (b, f)"
    | "name = event_batteryName b" "inside s e (b, f)"
    | "name = event_batteryName b" "cuts_end s e (b, f)"
    | "name = event_batteryName b" "cuts_begin s e (b, f)"
    by (metis merge_cases)
  then show ?thesis
    by cases (auto simp: cut_pair_def cut_set_def Let_def cancel fin beg covers_def inside_def
        cuts_end_def cuts_begin_def)
qed

lemma ledger_cut:
  assumes led: "ledger now b" and m: "eventMap b = pre @ (k, p) # post" and s: "now \<le> s"
  shows "ledger now (b\<lparr>eventSet := cut_set name s e (k, p) (eventSet b),
                      eventMap := pre @ (k, cut_pair name s e p) # post\<rparr>)" (is "ledger now ?b")
proof -
  have inv: "queue_inv b" using led by (simp add: ledger_def)
  obtain u f where p: "p = (u, f)" by (cases p)
  have x: "(k, u, f) \<in> set (eventMap b)" by (simp add: m p)
  have inv': "queue_inv ?b" using queue_inv_cut [OF inv m] by simp
  have seq: "sequenceNumber (fst (snd y)) \<noteq> k" if "y \<in> set pre \<union> set post" for y
  proof -
    have "pair_ok y" using that inv by (auto simp: queue_inv_def m)
    moreover have "fst y \<noteq> k" using that queue_inv_distinct [OF inv] by (force simp: m)
    ultimately show ?thesis by (auto simp: pair_ok_def)
  qed
  have other: "begun ?b y = begun b y" if "y \<in> set pre \<union> set post" for y
    using mem_cut_other [OF inv, of k p "fst (snd y)"] seq [OF that] x by (simp add: begun_def p)
  have late: "u \<in> set (eventSet b)" if "cuts_begin s e (u, f)"
    using that led x s by (force simp: ledger_def cuts_begin_def)
  have own: "begun ?b (k, cut_pair name s e p) = begun b (k, p)"
    using mem_cut_begin [OF inv x, of name s e] late
    by (auto simp: begun_def p cut_pair_def)
  have "(\<Sum>y\<leftarrow>eventMap ?b. begun ?b y) = (\<Sum>y\<leftarrow>eventMap b. begun b y)"
    using other own by (simp add: m cong: map_cong)
  moreover have "eventTime (fst (cut_pair name s e p)) \<le> eventTime (snd (cut_pair name s e p)) \<and>
      (fst (cut_pair name s e p) \<notin> set (eventSet ?b) \<longrightarrow> eventTime (fst (cut_pair name s e p)) \<le> now)"
    using led x mem_cut_begin [OF inv x, of name s e] late
    by (auto simp: ledger_def p cut_pair_def cuts_end_def cuts_begin_def)
  moreover have "eventTime (fst (snd y)) \<le> eventTime (snd (snd y)) \<and>
      (fst (snd y) \<notin> set (eventSet ?b) \<longrightarrow> eventTime (fst (snd y)) \<le> now)" if "y \<in> set pre \<union> set post" for y
    using that led mem_cut_other [OF inv, of k p "fst (snd y)"] seq [OF that] x
    by (auto simp: ledger_def m p)
  ultimately show ?thesis using led inv' by (auto simp: ledger_def)
qed

lemma ledger_cut_all:
  assumes "ledger now b" and "eventMap b = pre @ post" and "now \<le> s"
  shows "ledger now (b\<lparr>eventSet := fold (cut_set name s e) post (eventSet b),
                      eventMap := pre @ map (apsnd (cut_pair name s e)) post\<rparr>)"
  using assms
proof (induction post arbitrary: pre b)
  case Nil
  then have "pre = eventMap b" by simp
  then show ?case using Nil.prems(1) by simp
next
  case (Cons x post)
  let ?b = "b\<lparr>eventSet := cut_set name s e x (eventSet b),
               eventMap := pre @ (fst x, cut_pair name s e (snd x)) # post\<rparr>"
  have "ledger now ?b"
    using ledger_cut [of now b pre "fst x" "snd x" post s name e] Cons.prems by simp
  from Cons.IH [OF this, of "pre @ [(fst x, cut_pair name s e (snd x))]"] Cons.prems(3)
  show ?case by (cases x) simp
qed

lemma ledger_insert_pair:
  assumes led: "ledger now b" and n: "map_of (eventMap b) n = None" and s: "s \<le> e"
  shows "ledger now (insert_pair name c s e n b)"
proof -
  have inv: "queue_inv b" using led by (simp add: ledger_def)
  let ?b = "insert_pair name c s e n b"
  let ?u = "mk_event name SET_CURRENT_BEGIN c s n" and ?f = "mk_event name SET_CURRENT_END c e n"
  note mem = mem_insert_pair_events [OF inv n, of _ name c s e]
  have wf: "key.wf_map (eventMap b)" using inv by (simp add: queue_inv_def)
  have m: "eventMap ?b = map_insert key_less n (?u, ?f) (eventMap b)"
    by (simp add: insert_pair_def Let_def)
  have old: "fst (snd x) \<in> set (eventSet ?b) \<longleftrightarrow> fst (snd x) \<in> set (eventSet b)"
    if "x \<in> set (eventMap b)" for x
  proof -
    have "pair_ok x" using that inv by (simp add: queue_inv_def)
    moreover have "fst x \<noteq> n" using that n by (force simp: map_of_eq_None_iff)
    ultimately have "sequenceNumber (fst (snd x)) \<noteq> n" by (auto simp: pair_ok_def)
    then show ?thesis using mem by auto
  qed
  have "(\<Sum>x\<leftarrow>eventMap ?b. begun ?b x) = (\<Sum>x\<leftarrow>eventMap b. begun ?b x)"
    using mem by (simp add: m sum_list_map_insert [OF n] begun_def)
  also have "\<dots> = (\<Sum>x\<leftarrow>eventMap b. begun b x)"
    by (intro arg_cong [where f = sum_list] map_cong refl) (use old in \<open>simp add: begun_def\<close>)
  finally have "(\<Sum>x\<leftarrow>eventMap ?b. begun ?b x) = bat_current_mA ?b"
    using led by (simp add: ledger_def insert_pair_def Let_def)
  moreover have "eventTime (fst (snd x)) \<le> eventTime (snd (snd x)) \<and>
      (fst (snd x) \<notin> set (eventSet ?b) \<longrightarrow> eventTime (fst (snd x)) \<le> now)"
    if "x \<in> set (eventMap ?b)" for x
  proof -
    from that have "x = (n, ?u, ?f) \<or> x \<in> set (eventMap b)"
      by (simp add: m set_map_insert_fresh [OF wf n])
    then show ?thesis using led s old mem by (auto simp: ledger_def)
  qed
  ultimately show ?thesis using queue_inv_insert_pair [OF inv n] by (simp add: ledger_def)
qed

lemma ledger_merge:
  assumes led: "ledger now b" and n: "map_of (eventMap b) n = None" and s: "now \<le> s" "s \<le> e"
  shows "\<exists>b'. checkMergeAndInsertEvents name c s e n b = Inr b' \<and> ledger now b'"
proof -
  have inv: "queue_inv b" using led by (simp add: ledger_def)
  let ?b = "b\<lparr>eventSet := fold (cut_set name s e) (eventMap b) (eventSet b),
              eventMap := map (apsnd (cut_pair name s e)) (eventMap b)\<rparr>"
  have "ledger now ?b" using ledger_cut_all [OF led, of "[]"] s by simp
  moreover have "map_of (eventMap ?b) n = None" using n by (simp add: map_of_apsnd)
  ultimately show ?thesis using s(2) by (simp add: merge_fresh [OF inv n] ledger_insert_pair)
qed

section \<open>Properties of the event thread\<close>

text \<open>
  A physical battery whose queue holds the request of the sample queue and a pending refresh, and
  the system made of it alone.
\<close>

definition thread_battery :: "unit battery" where
  "thread_battery = (sample_battery ''b'' PhysicalBattery)
     \<lparr>eventSet := eventSet sample_queue @ [mk_event ''b'' REFRESH 0 30 2], eventMap := eventMap sample_queue\<rparr>"

definition thread_system :: "unit system" where
  "thread_system = \<lparr>heap = [0 \<mapsto> thread_battery], nextAddr = 1, SEQUENCE_NUMBER = 3\<rparr>"

definition env_at :: "timepoint \<Rightarrow> unit env" where
  "env_at t = sample_env\<lparr>getTimeNow := t\<rparr>"

lemma thread_ledger: "ledger 5 thread_battery"
  by (simp add: ledger_def queue_inv_def thread_battery_def sample_battery_def sample_queue_eq
      begun_def pair_ok_def recorded_def event_less_def pair_less_def in_int64_def less_EventID_def)

lemma thread_links: "wf_links thread_system" "rank thread_system 0 = 0"
  by (auto simp: wf_links_def skel_at_def thread_system_def thread_battery_def sample_battery_def
      links_ok_def rank_def split: if_splits)



text \<open>
  A request for a time not yet past, merged into a battery whose ledger is in order, keeps the
  ledger in order: cutting, cancelling and inserting never loses track of what already flows.
\<close>

theorem merge_keeps_ledger:
  assumes "ledger now b" and "map_of (eventMap b) n = None" and "now \<le> s" and "s \<le> e"
  shows "\<exists>b'. checkMergeAndInsertEvents name c s e n b = Inr b' \<and> ledger now b'"
  using assms by (rule ledger_merge)

theorem merge_keeps_ledger_witness:
  "\<exists>b'. checkMergeAndInsertEvents ''b'' 7 15 25 4 thread_battery = Inr b' \<and> ledger 5 b'"
  by (rule merge_keeps_ledger [OF thread_ledger]) (simp_all add: thread_battery_def sample_queue_eq)

text \<open>
  When every pending event of a lazily refreshed battery is due and none is a cancellation, the
  loop runs to \<open>end()\<close> and the test after it reads an event through that iterator. This is the round
  that ends the last request of a battery.
\<close>

theorem event_round_reads_past_end:
  fixes s :: "'d system"
  assumes "heap s a = Some b" and "ledger t b" and "t \<le> getTimeNow env"
    and "wf_links s" and "rank s a \<le> k" and "refreshMode b = LAZY"
    and "\<forall>v \<in> set (eventSet b). eventID v \<noteq> CANCEL_SET_CURRENT_EVENT \<and> eventTime v \<le> getTimeNow env"
    and "(\<Sum>v\<leftarrow>eventSet b. turns (getTimeNow env) (maxStaleness b) v) < n"
  shows "event_round n k env a s = Inl Deref_end"
  using assms by (rule event_round_past_end)

theorem event_round_reads_past_end_witness:
  "event_round 4 0 (env_at 30) 0 thread_system = Inl Deref_end"
  by (rule event_round_reads_past_end [of _ _ thread_battery 5])
    (use thread_ledger thread_links in \<open>simp_all add: env_at_def sample_env_def thread_system_def
      thread_battery_def sample_battery_def sample_queue_eq turns_def\<close>)

text \<open>Three nested requests of one idle battery, and the queues the event thread goes through.\<close>

definition idle_battery :: "unit battery" where
  "idle_battery = sample_battery ''b'' PhysicalBattery"

definition system_of :: "unit battery \<Rightarrow> unit system" where
  "system_of b = \<lparr>heap = [0 \<mapsto> b], nextAddr = 1, SEQUENCE_NUMBER = 4\<rparr>"

abbreviation begin_ev :: "timepoint \<Rightarrow> 64 word \<Rightarrow> event" where
  "begin_ev t n \<equiv> mk_event ''b'' SET_CURRENT_BEGIN 5 t n"

abbreviation end_ev :: "timepoint \<Rightarrow> 64 word \<Rightarrow> event" where
  "end_ev t n \<equiv> mk_event ''b'' SET_CURRENT_END 5 t n"

abbreviation cancel_ev :: "timepoint \<Rightarrow> 64 word \<Rightarrow> event" where
  "cancel_ev t n \<equiv> mk_event ''b'' CANCEL_SET_CURRENT_EVENT 0 t n"

lemmas queue_eval = checkMergeAndInsertEvents_def merge_step_def
    insert_pair_def map_insert_def map_at_def event_less_def pair_less_def key_less_def
    less_EventID_def Let_def in_int64_def

lemma nested_merge_1:
  "checkMergeAndInsertEvents ''b'' 5 10 20 1 idle_battery = Inr (idle_battery\<lparr>
     eventSet := [begin_ev 10 1, end_ev 20 1], eventMap := [(1, begin_ev 10 1, end_ev 20 1)]\<rparr>)"
  by (simp add: idle_battery_def sample_battery_def queue_eval)

lemma nested_merge_2:
  "checkMergeAndInsertEvents ''b'' 5 8 30 2 (idle_battery\<lparr>
     eventSet := [begin_ev 10 1, end_ev 20 1], eventMap := [(1, begin_ev 10 1, end_ev 20 1)]\<rparr>) =
   Inr (idle_battery\<lparr>
     eventSet := [cancel_ev 8 1, begin_ev 8 2, begin_ev 10 1, end_ev 20 1, end_ev 30 2],
     eventMap := [(1, begin_ev 10 1, end_ev 20 1), (2, begin_ev 8 2, end_ev 30 2)]\<rparr>)"
  by (simp add: idle_battery_def sample_battery_def queue_eval)

lemma nested_merge_3:
  "checkMergeAndInsertEvents ''b'' 5 6 40 3 (idle_battery\<lparr>
     eventSet := [cancel_ev 8 1, begin_ev 8 2, begin_ev 10 1, end_ev 20 1, end_ev 30 2],
     eventMap := [(1, begin_ev 10 1, end_ev 20 1), (2, begin_ev 8 2, end_ev 30 2)]\<rparr>) =
   Inr (idle_battery\<lparr>
     eventSet := [cancel_ev 6 1, cancel_ev 6 2, begin_ev 6 3, cancel_ev 8 1, begin_ev 8 2,
       begin_ev 10 1, end_ev 20 1, end_ev 30 2, end_ev 40 3],
     eventMap := [(1, begin_ev 10 1, end_ev 20 1), (2, begin_ev 8 2, end_ev 30 2),
       (3, begin_ev 6 3, end_ev 40 3)]\<rparr>)"
  by (simp add: idle_battery_def sample_battery_def queue_eval)

lemmas round_eval = event_round_def deref_def upd_def first_event_def next_after_def
    cancel_pair_def set_erase_def map_erase_def map_at_def fire_all_def env_at_def sample_env_def
    event_less_def less_EventID_def system_of_def Let_def

lemma nested_round_1:
  "event_round (Suc (Suc n)) 0 (env_at 6) 0 (system_of (idle_battery\<lparr>
     eventSet := [cancel_ev 6 1, cancel_ev 6 2, begin_ev 6 3, cancel_ev 8 1, begin_ev 8 2,
       begin_ev 10 1, end_ev 20 1, end_ev 30 2, end_ev 40 3],
     eventMap := [(1, begin_ev 10 1, end_ev 20 1), (2, begin_ev 8 2, end_ev 30 2),
       (3, begin_ev 6 3, end_ev 40 3)]\<rparr>)) =
   Inr (system_of (idle_battery\<lparr>
     eventSet := [cancel_ev 6 2, begin_ev 6 3, cancel_ev 8 1, begin_ev 8 2, end_ev 30 2, end_ev 40 3],
     eventMap := [(2, begin_ev 8 2, end_ev 30 2), (3, begin_ev 6 3, end_ev 40 3)]\<rparr>))"
  by (simp add: round_eval)

lemma nested_round_2:
  "event_round (Suc (Suc n)) 0 (env_at 6) 0 (system_of (idle_battery\<lparr>
     eventSet := [cancel_ev 6 2, begin_ev 6 3, cancel_ev 8 1, begin_ev 8 2, end_ev 30 2, end_ev 40 3],
     eventMap := [(2, begin_ev 8 2, end_ev 30 2), (3, begin_ev 6 3, end_ev 40 3)]\<rparr>)) =
   Inr (system_of (idle_battery\<lparr>
     eventSet := [begin_ev 6 3, cancel_ev 8 1, end_ev 40 3],
     eventMap := [(3, begin_ev 6 3, end_ev 40 3)]\<rparr>))"
  by (simp add: round_eval)

lemma nested_round_3:
  "event_round (Suc (Suc n)) 0 (env_at 6) 0 (system_of (idle_battery\<lparr>
     eventSet := [begin_ev 6 3, cancel_ev 8 1, end_ev 40 3],
     eventMap := [(3, begin_ev 6 3, end_ev 40 3)]\<rparr>)) = Inl Out_of_range"
  by (simp add: round_eval)

text \<open>
  Three nested requests of one battery, each covering the ones before it, make the event thread
  end in an uncaught \<open>std::out_of_range\<close>: the first request is cancelled twice, at two times, and
  the second cancellation looks it up in a map it has left.
\<close>

theorem nested_requests_throw:
  "obind (checkMerge_at ''b'' 5 10 20 1 0 (system_of idle_battery)) (\<lambda>s1.
   obind (checkMerge_at ''b'' 5 8 30 2 0 s1) (\<lambda>s2.
   obind (checkMerge_at ''b'' 5 6 40 3 0 s2) (\<lambda>s3.
   obind (event_round (Suc (Suc n)) 0 (env_at 6) 0 s3) (\<lambda>s4.
   obind (event_round (Suc (Suc n)) 0 (env_at 6) 0 s4) (\<lambda>s5.
     event_round (Suc (Suc n)) 0 (env_at 6) 0 s5))))) = Inl Out_of_range"
proof -
  have at: "checkMerge_at name c st en m 0 (system_of b) =
      obind (checkMergeAndInsertEvents name c st en m b) (\<lambda>b'. Inr (system_of b'))" for name c st en m b
    by (simp add: checkMerge_at_def deref_def upd_def system_of_def)
  show ?thesis
    by (simp only: at nested_merge_1 nested_merge_2 nested_merge_3 nested_round_1 nested_round_2
        nested_round_3 obind.simps)
qed

end
