(* ===== verification/V3_Charging.thy ===== *)
theory V3_Charging
  imports V3_Battery
begin

text \<open>
  The charging threads of the V3 pseudo battery and partition (\<open>runChargingThread\<close>), which move the
  simulated capacity while a current flows, and their interleaving with \<open>set_current\<close>. One turn of
  a loop and one call are atomic steps; the sleeps only separate them.
\<close>

section \<open>State and steps\<close>

text \<open>
  The status the thread and the callers share, the thread's local \<open>capacity\<close>, the requested current
  (used by partitions only), the flag \<open>runningThread\<close>, and whether the thread is still in its loop.
\<close>

record charging =
  ch_status :: BatteryStatus
  ch_capacity :: real
  ch_requested :: real
  ch_running :: bool
  ch_alive :: bool

text \<open>The capacity update both loops end with.\<close>

definition move_charge :: "charging \<Rightarrow> charging" where
  "move_charge s =
    (let st = ch_status s; c = current_mA st; cap = ch_capacity s + - c / 20;
         (cap', c') =
           (if c < 0 then
              (if cap \<ge> max_capacity_mAh st then (max_capacity_mAh st, 0) else (cap, c))
            else if c > 0 then
              (if cap \<le> 0 then (0, 0) else (cap, c))
            else (cap, c))
     in s\<lparr>ch_capacity := cap', ch_status := st\<lparr>current_mA := c', capacity_mAh := cap'\<rparr>\<rparr>)"

definition pseudo_body :: "charging \<Rightarrow> charging" where
  "pseudo_body s = move_charge s"

text \<open>The adjustment of the current a partition makes first.\<close>

definition adjust_current :: "real \<Rightarrow> BatteryStatus \<Rightarrow> real" where
  "adjust_current requested st =
    (let c = current_mA st in
     if c < 0 then
       (if - c > max_charging_current_mA st then - max_charging_current_mA st
        else if c \<noteq> requested then requested else c)
     else
       (if c > max_discharging_current_mA st then max_discharging_current_mA st
        else if c \<noteq> requested then requested else c))"

definition partition_body :: "charging \<Rightarrow> charging" where
  "partition_body s =
     move_charge (s\<lparr>ch_status := (ch_status s)\<lparr>current_mA := adjust_current (ch_requested s) (ch_status s)\<rparr>\<rparr>)"

text \<open>\<open>runChargingThread\<close> on its own; the first argument bounds the turns.\<close>

fun runChargingThread :: "nat \<Rightarrow> (charging \<Rightarrow> charging) \<Rightarrow> charging \<Rightarrow> charging outcome" where
  "runChargingThread 0 body s = Inl No_fuel"
| "runChargingThread (Suc n) body s =
    (if current_mA (ch_status s) \<noteq> 0 then runChargingThread n body (body s) else Inr s)"

text \<open>
  \<open>set_current\<close>: a zero current joins the thread when the flag is set; another current starts a
  thread, with its own copy of the capacity, when the flag is not set.
\<close>

definition charging_set :: "real \<Rightarrow> charging \<Rightarrow> charging" where
  "charging_set c s =
    (let s1 = s\<lparr>ch_status := (ch_status s)\<lparr>current_mA := c\<rparr>, ch_requested := c\<rparr> in
     if c = 0 then
       (if ch_running s then s1\<lparr>ch_running := False, ch_alive := False\<rparr> else s1)
     else if \<not> ch_running s then
       s1\<lparr>ch_running := True, ch_alive := True, ch_capacity := capacity_mAh (ch_status s)\<rparr>
     else s1)"

text \<open>The thread and its callers, interleaved.\<close>

inductive charging_step :: "(charging \<Rightarrow> charging) \<Rightarrow> charging \<Rightarrow> charging \<Rightarrow> bool"
  for body :: "charging \<Rightarrow> charging" where
  turn: "ch_alive s \<Longrightarrow> current_mA (ch_status s) \<noteq> 0 \<Longrightarrow> charging_step body s (body s)"
| leave: "ch_alive s \<Longrightarrow> current_mA (ch_status s) = 0 \<Longrightarrow> charging_step body s (s\<lparr>ch_alive := False\<rparr>)"
| set: "charging_step body s (charging_set c s)"

inductive_cases charging_stepE: "charging_step body s s'"

abbreviation charging_reach :: "(charging \<Rightarrow> charging) \<Rightarrow> charging \<Rightarrow> charging \<Rightarrow> bool" where
  "charging_reach body \<equiv> (charging_step body)\<^sup>*\<^sup>*"

section \<open>Capacity stays within bounds\<close>

definition bounded :: "charging \<Rightarrow> bool" where
  "bounded s \<longleftrightarrow>
     0 \<le> capacity_mAh (ch_status s) \<and> capacity_mAh (ch_status s) \<le> max_capacity_mAh (ch_status s) \<and>
     (ch_alive s \<longrightarrow> ch_running s \<and> ch_capacity s = capacity_mAh (ch_status s))"

lemma charging_set_simps [simp]:
  "current_mA (ch_status (charging_set c s)) = c"
  "capacity_mAh (ch_status (charging_set c s)) = capacity_mAh (ch_status s)"
  "max_capacity_mAh (ch_status (charging_set c s)) = max_capacity_mAh (ch_status s)"
  "ch_running (charging_set c s) \<longleftrightarrow> c \<noteq> 0"
  "ch_alive (charging_set c s) \<longleftrightarrow>
     (if c = 0 then ch_alive s \<and> \<not> ch_running s else ch_alive s \<or> \<not> ch_running s)"
  "ch_capacity (charging_set c s) =
     (if c \<noteq> 0 \<and> \<not> ch_running s then capacity_mAh (ch_status s) else ch_capacity s)"
  by (simp_all add: charging_set_def Let_def)

text \<open>The contract of a loop body; what follows from it holds under every interleaving.\<close>

locale charging_body =
  fixes body :: "charging \<Rightarrow> charging"
  assumes keeps_bounds: "bounded s \<Longrightarrow> ch_alive s \<Longrightarrow> bounded (body s)"
    and keeps_max: "max_capacity_mAh (ch_status (body s)) = max_capacity_mAh (ch_status s)"
begin

lemma step_bounded: "charging_step body s s' \<Longrightarrow> bounded s \<Longrightarrow> bounded s'"
  by (cases rule: charging_step.cases, assumption) (auto simp: keeps_bounds bounded_def [of "charging_set c s" for c]
      bounded_def [of "s\<lparr>ch_alive := False\<rparr>" for s] bounded_def [of s])

lemma step_max:
  "charging_step body s s' \<Longrightarrow> max_capacity_mAh (ch_status s') = max_capacity_mAh (ch_status s)"
  by (cases rule: charging_step.cases, assumption) (auto simp: keeps_max)

lemma reach_bounded:
  assumes "charging_reach body s s'" and "bounded s"
  shows "bounded s' \<and> max_capacity_mAh (ch_status s') = max_capacity_mAh (ch_status s)"
  using assms by induction (auto simp: step_bounded step_max)

end

lemma move_charge_bounded:
  assumes "bounded s" and "ch_alive s"
  shows "bounded (move_charge s)"
  using assms by (auto simp: bounded_def move_charge_def Let_def)

lemma move_charge_max [simp]:
  "max_capacity_mAh (ch_status (move_charge s)) = max_capacity_mAh (ch_status s)"
  by (simp add: move_charge_def Let_def split: prod.splits)

interpretation pseudo: charging_body pseudo_body
  by unfold_locales (simp_all add: pseudo_body_def move_charge_bounded)

interpretation partition: charging_body partition_body
  by unfold_locales
    (simp_all add: partition_body_def move_charge_bounded bounded_def move_charge_def Let_def
      split: prod.splits)

section \<open>The loop of a pseudo battery ends\<close>

lemma pseudo_charges:
  assumes "current_mA (ch_status s) = - c" and "0 < c"
    and "max_capacity_mAh (ch_status s) - ch_capacity s \<le> real n * (c / 20)"
  shows "\<exists>s'. runChargingThread (Suc (Suc n)) pseudo_body s = Inr s' \<and> current_mA (ch_status s') = 0 \<and>
    capacity_mAh (ch_status s') = max_capacity_mAh (ch_status s)"
  using assms
proof (induction n arbitrary: s)
  case (Suc n)
  show ?case
  proof (cases "ch_capacity s + c / 20 \<ge> max_capacity_mAh (ch_status s)")
    case True
    with Suc.prems show ?thesis by (simp add: pseudo_body_def move_charge_def Let_def)
  next
    case False
    let ?s = "pseudo_body s"
    have s: "current_mA (ch_status ?s) = - c" "ch_capacity ?s = ch_capacity s + c / 20"
      using False Suc.prems(1,2) by (simp_all add: pseudo_body_def move_charge_def Let_def)
    have max: "max_capacity_mAh (ch_status ?s) = max_capacity_mAh (ch_status s)"
      by (simp add: pseudo_body_def)
    have "max_capacity_mAh (ch_status ?s) - ch_capacity ?s \<le> real n * (c / 20)"
      using Suc.prems(3) by (simp add: s max algebra_simps)
    from Suc.IH [OF s(1) Suc.prems(2) this] show ?thesis using Suc.prems(1,2) by (simp add: max)
  qed
qed (simp add: pseudo_body_def move_charge_def Let_def)

lemma pseudo_discharges:
  assumes "current_mA (ch_status s) = c" and "0 < c" and "ch_capacity s \<le> real n * (c / 20)"
  shows "\<exists>s'. runChargingThread (Suc (Suc n)) pseudo_body s = Inr s' \<and> current_mA (ch_status s') = 0 \<and>
    capacity_mAh (ch_status s') = 0"
  using assms
proof (induction n arbitrary: s)
  case (Suc n)
  show ?case
  proof (cases "ch_capacity s - c / 20 \<le> 0")
    case True
    with Suc.prems show ?thesis by (simp add: pseudo_body_def move_charge_def Let_def)
  next
    case False
    let ?s = "pseudo_body s"
    have s: "current_mA (ch_status ?s) = c" "ch_capacity ?s = ch_capacity s - c / 20"
      using False Suc.prems(1,2) by (simp_all add: pseudo_body_def move_charge_def Let_def)
    have "ch_capacity ?s \<le> real n * (c / 20)"
      using Suc.prems(3) by (simp add: s algebra_simps)
    from Suc.IH [OF s(1) Suc.prems(2) this] show ?thesis using Suc.prems(1,2) by simp
  qed
qed (simp add: pseudo_body_def move_charge_def Let_def)

section \<open>Properties of the charging threads\<close>

definition sample_charging :: "real \<Rightarrow> charging" where
  "sample_charging c =
     \<lparr>ch_status = \<lparr>voltage_mV = Fin 5, current_mA = c, capacity_mAh = 40, max_capacity_mAh = 100,
        max_charging_current_mA = 6, max_discharging_current_mA = 8, status_time = 0\<rparr>,
      ch_capacity = 40, ch_requested = c, ch_running = True, ch_alive = True\<rparr>"



text \<open>
  C9: left alone, the charging thread of a pseudo battery ends: within twenty turns per full
  capacity over the current, and two more, it has stopped the current with the battery full when
  charging and empty when discharging.
\<close>

theorem pseudo_thread_ends:
  assumes "bounded s" and "ch_alive s" and "current_mA (ch_status s) \<noteq> 0"
    and "20 * max_capacity_mAh (ch_status s) \<le> real n * \<bar>current_mA (ch_status s)\<bar>"
  shows "\<exists>s'. runChargingThread (Suc (Suc n)) pseudo_body s = Inr s' \<and> current_mA (ch_status s') = 0 \<and>
    capacity_mAh (ch_status s') =
      (if current_mA (ch_status s) < 0 then max_capacity_mAh (ch_status s) else 0)"
proof (cases "current_mA (ch_status s) < 0")
  case True
  then show ?thesis
    using pseudo_charges [of s "- current_mA (ch_status s)" n] assms by (simp add: bounded_def)
next
  case False
  then show ?thesis
    using pseudo_discharges [of s "current_mA (ch_status s)" n] assms by (simp add: bounded_def)
qed

theorem pseudo_thread_ends_witness:
  "\<exists>s'. runChargingThread (Suc (Suc 250)) pseudo_body (sample_charging 8) = Inr s' \<and>
    current_mA (ch_status s') = 0 \<and>
    capacity_mAh (ch_status s') =
      (if current_mA (ch_status (sample_charging 8)) < 0
       then max_capacity_mAh (ch_status (sample_charging 8)) else 0)"
  by (rule pseudo_thread_ends) (simp_all add: sample_charging_def bounded_def)

text \<open>
  A partition asked for more than its discharging limit exceeds the limit on every second turn:
  the turn after the one that lowers the current to the limit restores the requested current.
\<close>

theorem partition_overshoots:
  assumes "current_mA (ch_status s) = ch_requested s"
    and "0 < max_discharging_current_mA (ch_status s)"
    and "max_discharging_current_mA (ch_status s) < ch_requested s"
    and "(max_discharging_current_mA (ch_status s) + ch_requested s) / 20 < ch_capacity s"
  shows "current_mA (ch_status (partition_body s)) = max_discharging_current_mA (ch_status s) \<and>
    current_mA (ch_status (partition_body (partition_body s))) = ch_requested s"
proof -
  have pos: "0 < ch_requested s / 20" "0 < max_discharging_current_mA (ch_status s) / 20"
    using assms(2,3) by simp_all
  have 1: "current_mA (ch_status (partition_body s)) = max_discharging_current_mA (ch_status s)"
    "ch_capacity (partition_body s) = ch_capacity s - max_discharging_current_mA (ch_status s) / 20"
    "ch_requested (partition_body s) = ch_requested s"
    "max_discharging_current_mA (ch_status (partition_body s)) = max_discharging_current_mA (ch_status s)"
    using assms pos
    by (simp_all add: partition_body_def move_charge_def adjust_current_def Let_def add_divide_distrib)
  have "adjust_current (ch_requested (partition_body s)) (ch_status (partition_body s)) = ch_requested s"
    using assms(2,3) by (simp add: adjust_current_def 1 Let_def)
  moreover have "0 < ch_capacity (partition_body s) - ch_requested s / 20"
    using assms(4) by (simp add: 1 add_divide_distrib)
  ultimately have "current_mA (ch_status (partition_body (partition_body s))) = ch_requested s"
    using assms(2,3) by (subst partition_body_def) (simp add: move_charge_def Let_def)
  with 1 show ?thesis by simp
qed

theorem partition_overshoots_witness:
  "current_mA (ch_status (partition_body (sample_charging 9))) = max_discharging_current_mA (ch_status (sample_charging 9)) \<and>
    current_mA (ch_status (partition_body (partition_body (sample_charging 9)))) = ch_requested (sample_charging 9)"
  by (rule partition_overshoots) (simp_all add: sample_charging_def)

text \<open>
  Once the charging thread has left its loop because the battery ran full or empty, setting
  another current does not start a new one: the capacity stays as it is until a zero current is set.
\<close>

theorem exhausted_thread_not_restarted:
  assumes "ch_running s" and "\<not> ch_alive s" and "\<forall>c \<in> set cs. c \<noteq> 0"
  shows "\<not> ch_alive (fold charging_set cs s) \<and>
    capacity_mAh (ch_status (fold charging_set cs s)) = capacity_mAh (ch_status s)"
  using assms by (induction cs arbitrary: s) auto

theorem exhausted_thread_not_restarted_witness:
  "\<not> ch_alive (fold charging_set [5, -3] ((sample_charging 0)\<lparr>ch_alive := False\<rparr>)) \<and>
    capacity_mAh (ch_status (fold charging_set [5, -3] ((sample_charging 0)\<lparr>ch_alive := False\<rparr>))) =
    capacity_mAh (ch_status ((sample_charging 0)\<lparr>ch_alive := False\<rparr>))"
  by (rule exhausted_thread_not_restarted) (simp_all add: sample_charging_def)

end
