(* ===== verification/V3_Directory.thy ===== *)
theory V3_Directory
  imports V3_Battery "HOL-Library.List_Lexorder" "HOL-Library.Char_ord"
begin

text \<open>
  The battery directory of BatteryOS-V3 (\<open>BatteryDirectory.cpp\<close>): the map from names to batteries
  and the two graphs, from a child to its parents and from a parent to its children. The maps are
  \<open>std::map\<close>s over \<open>std::string\<close>, ordered lexicographically.
\<close>

section \<open>Operations\<close>

type_synonym graph = "(string \<times> string list) list"

record directory =
  destroyed :: bool
  childGraph :: graph
  parentGraph :: graph
  batteryMap :: "(string \<times> addr) list"

definition empty_directory :: directory where
  "empty_directory = \<lparr>destroyed = False, childGraph = [], parentGraph = [], batteryMap = []\<rparr>"

definition has_key :: "'k \<Rightarrow> ('k \<times> 'v) list \<Rightarrow> bool" where
  "has_key k m \<longleftrightarrow> map_of m k \<noteq> None"

definition map_update :: "'k \<Rightarrow> ('v \<Rightarrow> 'v) \<Rightarrow> ('k \<times> 'v) list \<Rightarrow> ('k \<times> 'v) list" where
  "map_update k f m = map (\<lambda>(j, v). (j, if j = k then f v else v)) m"

text \<open>\<open>g[k]\<close> inserts an empty list when the key is missing.\<close>

definition graph_index :: "string \<Rightarrow> graph \<Rightarrow> graph" where
  "graph_index k g = map_insert (<) k [] g"

definition nameExists :: "string \<Rightarrow> directory \<Rightarrow> bool" where
  "nameExists name d = has_key name (batteryMap d)"

definition addBattery :: "string \<Rightarrow> addr \<Rightarrow> directory \<Rightarrow> bool \<times> directory" where
  "addBattery name a d =
    (if has_key name (batteryMap d) then (False, d)
     else (True, d\<lparr>batteryMap := map_insert (<) name a (batteryMap d)\<rparr>))"

definition canBeSource :: "string \<Rightarrow> directory \<Rightarrow> bool" where
  "canBeSource name d \<longleftrightarrow> has_key name (batteryMap d) \<and> \<not> has_key name (parentGraph d)"

definition addEdge :: "string \<Rightarrow> string \<Rightarrow> directory \<Rightarrow> bool \<times> directory" where
  "addEdge parent child d =
    (if \<not> has_key parent (batteryMap d) then (False, d)
     else if \<not> has_key child (batteryMap d) then (False, d)
     else (True,
       d\<lparr>childGraph := map_update child (\<lambda>l. l @ [parent]) (graph_index child (childGraph d)),
         parentGraph := map_update parent (\<lambda>l. l @ [child]) (graph_index parent (parentGraph d))\<rparr>))"

definition getBattery :: "string \<Rightarrow> directory \<Rightarrow> addr option" where
  "getBattery name d = map_of (batteryMap d) name"

text \<open>One turn of the loop over the parents of a removed battery.\<close>

definition unlink_parent :: "string \<Rightarrow> string \<Rightarrow> graph \<Rightarrow> graph" where
  "unlink_parent name parent g =
    (let g1 = map_update parent (filter (\<lambda>c. c \<noteq> name)) (graph_index parent g) in
     if map_of g1 parent = Some [] then map_erase parent g1 else g1)"

text \<open>The part of \<open>removeBattery\<close> after the children are gone.\<close>

definition remove_entry :: "string \<Rightarrow> directory \<Rightarrow> directory" where
  "remove_entry name d =
    (let d1 =
       (case map_of (childGraph d) name of
          None \<Rightarrow> d
        | Some parentNames \<Rightarrow>
            d\<lparr>parentGraph := fold (unlink_parent name) parentNames (parentGraph d),
              childGraph := map_erase name (childGraph d)\<rparr>)
     in d1\<lparr>batteryMap := map_erase name (batteryMap d1)\<rparr>)"

text \<open>The loop over the children: the first failure ends it.\<close>

fun remove_children ::
  "(string \<Rightarrow> directory \<Rightarrow> (bool \<times> directory) outcome) \<Rightarrow> string list \<Rightarrow> directory \<Rightarrow>
   (bool \<times> directory) outcome" where
  "remove_children R [] d = Inr (True, d)"
| "remove_children R (c # cs) d =
    obind (R c d) (\<lambda>(ok, d'). if ok then remove_children R cs d' else Inr (False, d'))"

fun removeBattery :: "nat \<Rightarrow> string \<Rightarrow> directory \<Rightarrow> (bool \<times> directory) outcome" where
  "removeBattery 0 name d = Inl No_fuel"
| "removeBattery (Suc n) name d =
    (if \<not> has_key name (batteryMap d) then Inr (False, d)
     else (case map_of (parentGraph d) name of
         None \<Rightarrow> Inr (True, remove_entry name d)
       | Some childNames \<Rightarrow>
           obind (remove_children (removeBattery n) childNames d) (\<lambda>(ok, d').
             if ok then
               Inr (True, remove_entry name (d'\<lparr>parentGraph := map_erase name (parentGraph d')\<rparr>))
             else Inr (False, d'))))"

text \<open>\<open>destroyDirectory\<close> quits every battery of the map; the objects live in the heap.\<close>

definition destroyDirectory :: "directory \<Rightarrow> 'd system \<Rightarrow> directory \<times> 'd system" where
  "destroyDirectory d s =
    (d\<lparr>batteryMap := [], destroyed := True\<rparr>,
     if destroyed d then s else fold (\<lambda>(_, a). upd a quit) (batteryMap d) s)"

section \<open>Maps over strings\<close>

interpretation str: std_key_order "(<) :: string \<Rightarrow> string \<Rightarrow> bool"
  by unfold_locales auto

definition neighbours :: "graph \<Rightarrow> string \<Rightarrow> string list" where
  "neighbours g x = (case map_of g x of None \<Rightarrow> [] | Some l \<Rightarrow> l)"

abbreviation child_names :: "directory \<Rightarrow> string \<Rightarrow> string list" where
  "child_names d \<equiv> neighbours (parentGraph d)"

abbreviation parent_names :: "directory \<Rightarrow> string \<Rightarrow> string list" where
  "parent_names d \<equiv> neighbours (childGraph d)"

lemma map_of_map_update: "map_of (map_update k f m) = (map_of m)(k := map_option f (map_of m k))"
  by (induction m) (auto simp: map_update_def fun_eq_iff)

lemma keys_map_update [simp]: "map fst (map_update k f m) = map fst m"
  by (induction m) (auto simp: map_update_def)

lemma wf_map_update [simp]: "str.wf_map (map_update k f m) = str.wf_map m"
  by (simp add: str.wf_map_keys)

lemma map_of_graph_index:
  "str.wf_map g \<Longrightarrow> map_of (graph_index k g) =
    (case map_of g k of None \<Rightarrow> (map_of g)(k \<mapsto> []) | Some _ \<Rightarrow> map_of g)"
  by (simp add: graph_index_def str.map_of_insert)

lemma wf_graph_index: "str.wf_map g \<Longrightarrow> str.wf_map (graph_index k g)"
  by (simp add: graph_index_def str.wf_map_insert)

text \<open>Two sorted maps with the same entries are the same map.\<close>

lemma wf_map_ext:
  assumes "str.wf_map m" and "str.wf_map m'" and "map_of m = map_of m'"
  shows "m = m'"
proof -
  have d: "distinct (map fst m)" "distinct (map fst m')"
    using assms(1,2) by (auto dest: str.wf_map_distinct)
  have "(k, v) \<in> set m \<longleftrightarrow> (k, v) \<in> set m'" for k v
    using map_of_eq_Some_iff [OF d(1), of k v] map_of_eq_Some_iff [OF d(2), of k v] assms(3) by simp
  then have same: "set m = set m'" by auto
  moreover have "sorted (map fst m)" "sorted (map fst m')"
    using assms(1,2) by (simp_all add: str.wf_map_keys strict_sorted_imp_sorted)
  moreover have "inj_on fst (set m \<union> set m')" using d(1) same by (simp add: distinct_map)
  ultimately show ?thesis using d by (intro map_sorted_distinct_set_unique [where f = fst])
qed

section \<open>The invariant\<close>

definition edges :: "directory \<Rightarrow> (string \<times> string) set" where
  "edges d = {(p, c). c \<in> set (child_names d p)}"

definition ranked :: "(string \<Rightarrow> nat) \<Rightarrow> directory \<Rightarrow> bool" where
  "ranked r d \<longleftrightarrow> (\<forall>(p, c) \<in> edges d. r p < r c)"

text \<open>
  The two graphs are converse, without empty or repeated entries and without cycles, and speak of
  batteries of the directory; a battery with several children is the only parent of each of them,
  as a partition manager is.
\<close>

definition dir_inv :: "directory \<Rightarrow> bool" where
  "dir_inv d \<longleftrightarrow>
     str.wf_map (childGraph d) \<and> str.wf_map (parentGraph d) \<and> str.wf_map (batteryMap d) \<and>
     (\<forall>k. map_of (parentGraph d) k \<noteq> Some [] \<and> map_of (childGraph d) k \<noteq> Some []) \<and>
     (\<forall>k. distinct (child_names d k) \<and> distinct (parent_names d k)) \<and>
     (\<forall>p c. c \<in> set (child_names d p) \<longleftrightarrow> p \<in> set (parent_names d c)) \<and>
     (\<forall>(p, c) \<in> edges d. has_key p (batteryMap d) \<and> has_key c (batteryMap d) \<and>
        (length (child_names d p) > 1 \<longrightarrow> parent_names d c = [p])) \<and>
     (\<exists>r. ranked r d)"

text \<open>A battery and everything built on it.\<close>

definition descendants :: "directory \<Rightarrow> string \<Rightarrow> string set" where
  "descendants d x = {y. (x, y) \<in> (edges d)\<^sup>*}"

text \<open>The directory without a set of batteries.\<close>

definition prune_graph :: "string set \<Rightarrow> graph \<Rightarrow> graph" where
  "prune_graph D g =
     filter (\<lambda>p. snd p \<noteq> [])
       (map (apsnd (filter (\<lambda>c. c \<notin> D))) (filter (\<lambda>p. fst p \<notin> D) g))"

definition prune :: "string set \<Rightarrow> directory \<Rightarrow> directory" where
  "prune D d =
     d\<lparr>childGraph := filter (\<lambda>p. fst p \<notin> D) (childGraph d),
       parentGraph := prune_graph D (parentGraph d),
       batteryMap := filter (\<lambda>p. fst p \<notin> D) (batteryMap d)\<rparr>"

section \<open>Pruning\<close>

lemma map_of_filter_keys:
  "map_of (filter (\<lambda>p. fst p \<notin> D) m) k = (if k \<in> D then None else map_of m k)"
  by (induction m) auto

lemma keys_prune_graph: "fst ` set (prune_graph D g) \<subseteq> fst ` set g"
  by (force simp: prune_graph_def)

lemma map_of_prune_graph:
  assumes "distinct (map fst g)"
  shows "map_of (prune_graph D g) k =
    (if k \<in> D \<or> filter (\<lambda>c. c \<notin> D) (neighbours g k) = [] then None
     else Some (filter (\<lambda>c. c \<notin> D) (neighbours g k)))"
  using assms
proof (induction g)
  case (Cons x g)
  have none: "map_of (prune_graph D g) (fst x) = None"
    using Cons.prems keys_prune_graph [of D g] by (auto simp: map_of_eq_None_iff)
  show ?case
  proof (cases "k = fst x")
    case True
    with none show ?thesis by (cases x) (auto simp: prune_graph_def neighbours_def)
  next
    case False
    with Cons show ?thesis by (cases x) (auto simp: prune_graph_def neighbours_def)
  qed
qed (simp add: prune_graph_def neighbours_def)

lemma neighbours_prune_graph:
  "distinct (map fst g) \<Longrightarrow>
    neighbours (prune_graph D g) k = (if k \<in> D then [] else filter (\<lambda>c. c \<notin> D) (neighbours g k))"
  by (subst neighbours_def) (simp add: map_of_prune_graph)

lemma prune_graph_prune_graph: "prune_graph E (prune_graph D g) = prune_graph (D \<union> E) g"
  by (induction g) (auto simp: prune_graph_def filter_empty_conv)

lemma prune_prune: "prune E (prune D d) = prune (D \<union> E) d"
  by (simp add: prune_def prune_graph_prune_graph)

lemma sorted_keys_prune_graph:
  assumes "str.wf_map g"
  shows "str.wf_map (prune_graph D g)"
proof -
  have "str.wf_map (filter (\<lambda>p. fst p \<notin> D) g)" using assms by (rule filter_sorted_wrt)
  then show ?thesis unfolding prune_graph_def
    by (intro filter_sorted_wrt) (simp add: sorted_wrt_map pair_less_def [abs_def])
qed

lemma dir_inv_facts:
  assumes "dir_inv d"
  shows dir_inv_nonempty: "map_of (parentGraph d) k \<noteq> Some []" "map_of (childGraph d) k \<noteq> Some []"
    and dir_inv_distinct: "distinct (child_names d k)" "distinct (parent_names d k)"
    and dir_inv_converse: "c \<in> set (child_names d p) \<longleftrightarrow> p \<in> set (parent_names d c)"
    and dir_inv_only_parent:
      "c \<in> set (child_names d p) \<Longrightarrow> length (child_names d p) > 1 \<Longrightarrow> parent_names d c = [p]"
    and dir_inv_alive:
      "c \<in> set (child_names d p) \<Longrightarrow> has_key p (batteryMap d) \<and> has_key c (batteryMap d)"
  using assms unfolding dir_inv_def edges_def by blast+

lemma dir_inv_keys:
  assumes "dir_inv d"
  shows "distinct (map fst (parentGraph d))" and "distinct (map fst (childGraph d))"
    and "distinct (map fst (batteryMap d))"
  using assms str.wf_map_distinct unfolding dir_inv_def by blast+

lemma child_names_prune:
  "dir_inv d \<Longrightarrow>
    child_names (prune D d) k = (if k \<in> D then [] else filter (\<lambda>c. c \<notin> D) (child_names d k))"
  by (simp add: prune_def neighbours_prune_graph dir_inv_keys)

lemma parent_names_prune:
  "parent_names (prune D d) k = (if k \<in> D then [] else parent_names d k)"
  by (simp add: prune_def neighbours_def map_of_filter_keys)

lemma edges_prune: "dir_inv d \<Longrightarrow> edges (prune D d) = {(p, c) \<in> edges d. p \<notin> D \<and> c \<notin> D}"
  by (auto simp: edges_def child_names_prune split: if_splits)

lemma ranked_prune: "dir_inv d \<Longrightarrow> ranked r d \<Longrightarrow> ranked r (prune D d)"
  by (auto simp: ranked_def edges_prune)

lemma has_key_prune: "has_key k (batteryMap (prune D d)) \<longleftrightarrow> k \<notin> D \<and> has_key k (batteryMap d)"
  by (simp add: has_key_def prune_def map_of_filter_keys)

definition down_closed :: "directory \<Rightarrow> string set \<Rightarrow> bool" where
  "down_closed d D \<longleftrightarrow> (\<forall>(p, c) \<in> edges d. p \<in> D \<longrightarrow> c \<in> D)"

lemma dir_inv_prune:
  assumes inv: "dir_inv d" and D: "down_closed d D"
  shows "dir_inv (prune D d)"
proof -
  have wf: "str.wf_map (childGraph d)" "str.wf_map (parentGraph d)" "str.wf_map (batteryMap d)"
    using inv by (auto simp: dir_inv_def)
  have "str.wf_map (childGraph (prune D d))" "str.wf_map (parentGraph (prune D d))"
    "str.wf_map (batteryMap (prune D d))"
    using wf by (auto simp: prune_def filter_sorted_wrt sorted_keys_prune_graph)
  moreover have "map_of (parentGraph (prune D d)) k \<noteq> Some []" "map_of (childGraph (prune D d)) k \<noteq> Some []" for k
    by (auto simp: prune_def map_of_prune_graph dir_inv_keys [OF inv] map_of_filter_keys
        dir_inv_nonempty [OF inv])
  moreover have "distinct (child_names (prune D d) k)" "distinct (parent_names (prune D d) k)" for k
    by (auto simp: child_names_prune [OF inv] parent_names_prune dir_inv_distinct [OF inv])
  moreover have "c \<in> set (child_names (prune D d) p) \<longleftrightarrow> p \<in> set (parent_names (prune D d) c)" for p c
    using D by (auto simp: child_names_prune [OF inv] parent_names_prune down_closed_def edges_def
        dir_inv_converse [OF inv])
  moreover have "has_key p (batteryMap (prune D d)) \<and> has_key c (batteryMap (prune D d)) \<and>
      (length (child_names (prune D d) p) > 1 \<longrightarrow> parent_names (prune D d) c = [p])"
    if "(p, c) \<in> edges (prune D d)" for p c
  proof -
    have pc: "(p, c) \<in> edges d" "p \<notin> D" "c \<notin> D" using that inv by (auto simp: edges_prune)
    moreover have "length (child_names (prune D d) p) \<le> length (child_names d p)"
      using inv by (simp add: child_names_prune)
    moreover have "has_key p (batteryMap d) \<and> has_key c (batteryMap d) \<and>
        (length (child_names d p) > 1 \<longrightarrow> parent_names d c = [p])"
      using pc(1) dir_inv_alive [OF inv] dir_inv_only_parent [OF inv] by (simp add: edges_def)
    ultimately show ?thesis by (auto simp: has_key_prune parent_names_prune)
  qed
  moreover have "\<exists>r. ranked r (prune D d)" using inv ranked_prune unfolding dir_inv_def by blast
  ultimately show ?thesis unfolding dir_inv_def by blast
qed

section \<open>Removal removes a battery with everything built on it\<close>

lemma map_of_unlink_parent:
  assumes "str.wf_map g"
  shows "map_of (unlink_parent x p g) k =
    (if k = p then (if filter (\<lambda>c. c \<noteq> x) (neighbours g p) = [] then None
                    else Some (filter (\<lambda>c. c \<noteq> x) (neighbours g p)))
     else map_of g k)"
  by (auto simp: unlink_parent_def Let_def map_of_map_update map_of_graph_index [OF assms]
      neighbours_def split: option.splits)

lemma wf_unlink_parent: "str.wf_map g \<Longrightarrow> str.wf_map (unlink_parent x p g)"
  by (simp add: unlink_parent_def Let_def wf_graph_index str.wf_map_erase)

lemma map_of_unlink_all:
  assumes "str.wf_map g" and "distinct ps"
  shows "str.wf_map (fold (unlink_parent x) ps g) \<and> map_of (fold (unlink_parent x) ps g) k =
    (if k \<in> set ps then (if filter (\<lambda>c. c \<noteq> x) (neighbours g k) = [] then None
                        else Some (filter (\<lambda>c. c \<noteq> x) (neighbours g k)))
     else map_of g k)"
  using assms
proof (induction ps arbitrary: g)
  case (Cons p ps)
  have "neighbours (unlink_parent x p g) k = neighbours g k" if "k \<noteq> p"
    using that by (simp add: neighbours_def map_of_unlink_parent [OF Cons.prems(1)])
  with Cons show ?case
    by (cases "k = p") (auto simp: wf_unlink_parent map_of_unlink_parent)
qed simp

lemma ranked_irrefl: "dir_inv d \<Longrightarrow> x \<notin> set (child_names d x)"
  unfolding dir_inv_def ranked_def edges_def by blast

lemma remove_entry_prune:
  assumes inv: "dir_inv d" and leaf: "map_of (parentGraph d) x = None"
  shows "remove_entry x d = prune {x} d"
proof -
  have wf: "str.wf_map (parentGraph d)" using inv by (simp add: dir_inv_def)
  let ?ps = "parent_names d x"
  have x: "x \<notin> set ?ps" using ranked_irrefl [OF inv] dir_inv_converse [OF inv] by blast
  have "map_of (fold (unlink_parent x) ?ps (parentGraph d)) k = map_of (prune_graph {x} (parentGraph d)) k" for k
  proof (cases "k \<in> set ?ps")
    case True
    then show ?thesis using x
      by (auto simp: map_of_unlink_all [OF wf] dir_inv_distinct [OF inv] map_of_prune_graph
          dir_inv_keys [OF inv])
  next
    case False
    then have "x \<notin> set (child_names d k)" using dir_inv_converse [OF inv] by blast
    then have "filter (\<lambda>c. c \<noteq> x) (child_names d k) = child_names d k" by (auto simp: filter_id_conv)
    then have "map_of (prune_graph {x} (parentGraph d)) k =
        (if k = x \<or> child_names d k = [] then None else Some (child_names d k))"
      by (simp add: map_of_prune_graph dir_inv_keys [OF inv])
    also have "\<dots> = map_of (parentGraph d) k"
      using leaf dir_inv_nonempty(1) [OF inv, of k]
      by (cases "map_of (parentGraph d) k") (auto simp: neighbours_def)
    finally show ?thesis
      using False map_of_unlink_all [OF wf dir_inv_distinct(2) [OF inv]] by simp
  qed
  then have same: "map_of (fold (unlink_parent x) ?ps (parentGraph d)) =
      map_of (prune_graph {x} (parentGraph d))" by (rule ext)
  have "str.wf_map (fold (unlink_parent x) ?ps (parentGraph d))"
    using map_of_unlink_all [OF wf dir_inv_distinct(2) [OF inv]] by blast
  then have par: "fold (unlink_parent x) ?ps (parentGraph d) = prune_graph {x} (parentGraph d)"
    using wf_map_ext [OF _ sorted_keys_prune_graph [OF wf] same] by simp
  show ?thesis
  proof (cases "map_of (childGraph d) x")
    case None
    then have "filter (\<lambda>p. fst p \<noteq> x) (childGraph d) = childGraph d"
      by (auto simp: filter_id_conv map_of_eq_None_iff)
    moreover have "?ps = []" using None by (simp add: neighbours_def)
    ultimately show ?thesis using None par by (simp add: remove_entry_def prune_def map_erase_def)
  next
    case (Some ps)
    then have "?ps = ps" by (simp add: neighbours_def)
    with Some par show ?thesis by (simp add: remove_entry_def prune_def map_erase_def Let_def)
  qed
qed

lemma descendants_down_closed: "down_closed d (descendants d x)"
  by (auto simp: down_closed_def descendants_def)

lemma down_closed_Union: "(\<And>D. D \<in> \<D> \<Longrightarrow> down_closed d D) \<Longrightarrow> down_closed d (\<Union>\<D>)"
  unfolding down_closed_def by blast

lemma down_closed_rtrancl:
  assumes "(x, y) \<in> (edges d)\<^sup>*" and "down_closed d D" and "x \<in> D"
  shows "y \<in> D"
  using assms by (induction rule: rtrancl_induct) (auto simp: down_closed_def)

lemma descendants_prune:
  assumes inv: "dir_inv d" and D: "down_closed d D"
  shows "D \<union> descendants (prune D d) x = D \<union> descendants d x"
proof -
  have "y \<in> D \<or> (x, y) \<in> (edges (prune D d))\<^sup>*" if "(x, y) \<in> (edges d)\<^sup>*" for y
    using that
  proof (induction rule: rtrancl_induct)
    case (step y z)
    then show ?case using D by (auto simp: down_closed_def edges_prune [OF inv] intro: rtrancl_into_rtrancl)
  qed simp
  moreover have "(x, y) \<in> (edges d)\<^sup>*" if "(x, y) \<in> (edges (prune D d))\<^sup>*" for y
    using that edges_prune [OF inv] by (metis (no_types, lifting) Collect_case_prodD case_prodD mem_Collect_eq rtrancl_mono subrelI subsetD)
  ultimately show ?thesis by (auto simp: descendants_def)
qed

lemma siblings_apart:
  assumes inv: "dir_inv d" and c: "c \<in> set (child_names d x)" "c' \<in> set (child_names d x)" "c \<noteq> c'"
  shows "c' \<notin> descendants d c"
proof
  assume "c' \<in> descendants d c"
  then have "(c, c') \<in> (edges d)\<^sup>*" by (simp add: descendants_def)
  with c(3) obtain p where p: "(c, p) \<in> (edges d)\<^sup>*" "(p, c') \<in> edges d"
    by (metis rtranclE)
  have "length (child_names d x) > 1"
    using c by (metis One_nat_def empty_iff length_0_conv length_Suc_conv less_one linorder_neqE_nat
        list.set(1) set_ConsD)
  then have "parent_names d c' = [x]" using dir_inv_only_parent [OF inv c(2)] by simp
  then have "p = x" using p(2) dir_inv_converse [OF inv, of c' p] by (simp add: edges_def)
  obtain r where r: "ranked r d" using inv by (auto simp: dir_inv_def)
  have "r c \<le> r p" using p(1)
    by (induction rule: rtrancl_induct) (use r in \<open>auto simp: ranked_def intro: order.trans less_imp_le\<close>)
  moreover have "r x < r c" using r c(1) by (auto simp: ranked_def edges_def)
  ultimately show False using \<open>p = x\<close> by simp
qed

lemma not_own_descendant:
  assumes inv: "dir_inv d" and c: "c \<in> set (child_names d x)"
  shows "x \<notin> descendants d c"
proof
  assume "x \<in> descendants d c"
  then have path: "(c, x) \<in> (edges d)\<^sup>*" by (simp add: descendants_def)
  obtain r where r: "ranked r d" using inv by (auto simp: dir_inv_def)
  have "r c \<le> r x" using path
    by (induction rule: rtrancl_induct) (use r in \<open>auto simp: ranked_def intro: order.trans less_imp_le\<close>)
  moreover have "r x < r c" using r c by (auto simp: ranked_def edges_def)
  ultimately show False by simp
qed

lemma remove_children_prune:
  assumes inv: "dir_inv d" and D: "down_closed d D" and cs: "distinct cs" "\<forall>c \<in> set cs. c \<notin> D"
    and apart: "\<forall>c \<in> set cs. \<forall>c' \<in> set cs. c \<noteq> c' \<longrightarrow> c' \<notin> descendants d c"
    and R: "\<And>c E. c \<in> set cs \<Longrightarrow> down_closed d E \<Longrightarrow> c \<notin> E \<Longrightarrow>
      R c (prune E d) = Inr (True, prune (descendants (prune E d) c) (prune E d))"
  shows "remove_children R cs (prune D d) = Inr (True, prune (D \<union> (\<Union>c \<in> set cs. descendants d c)) d)"
  using D cs apart R
proof (induction cs arbitrary: D)
  case (Cons c cs)
  have "R c (prune D d) = Inr (True, prune (D \<union> descendants d c) d)"
    using Cons.prems(5) [of c D] Cons.prems(1,3) descendants_prune [OF inv, of D c]
    by (simp add: prune_prune)
  moreover have "remove_children R cs (prune (D \<union> descendants d c) d) =
      Inr (True, prune ((D \<union> descendants d c) \<union> (\<Union>c \<in> set cs. descendants d c)) d)"
  proof (rule Cons.IH)
    show "down_closed d (D \<union> descendants d c)"
      using Cons.prems(1) descendants_down_closed [of d c] by (auto simp: down_closed_def)
    show "\<forall>c' \<in> set cs. c' \<notin> D \<union> descendants d c" using Cons.prems(2-4) by auto
  qed (use Cons.prems in auto)
  ultimately show ?case by (simp add: Un_assoc)
qed simp

lemma descendants_children:
  "descendants d x = insert x (\<Union>c \<in> set (child_names d x). descendants d c)"
proof -
  have "y = x \<or> (\<exists>c. (x, c) \<in> edges d \<and> (c, y) \<in> (edges d)\<^sup>*)" if "(x, y) \<in> (edges d)\<^sup>*" for y
    using that by (cases rule: converse_rtranclE) auto
  then show ?thesis
    by (auto simp: descendants_def edges_def intro: converse_rtrancl_into_rtrancl)
qed

lemma removeBattery_prune:
  assumes "dir_inv d" and "ranked r d" and "\<forall>k. has_key k (batteryMap d) \<longrightarrow> r k \<le> N"
    and "has_key x (batteryMap d)" and "N - r x < n"
  shows "removeBattery n x d = Inr (True, prune (descendants d x) d)"
  using assms
proof (induction n arbitrary: x d)
  case (Suc n)
  note inv = \<open>dir_inv d\<close>
  show ?case
  proof (cases "map_of (parentGraph d) x")
    case None
    then have "descendants d x = {x}" by (subst descendants_children) (simp add: neighbours_def)
    with None Suc.prems(4) show ?thesis by (simp add: remove_entry_prune [OF inv])
  next
    case (Some cs)
    then have cs: "cs = child_names d x" by (simp add: neighbours_def)
    let ?D = "\<Union>c \<in> set cs. descendants d c"
    have "removeBattery n c (prune E d) = Inr (True, prune (descendants (prune E d) c) (prune E d))"
      if c: "c \<in> set cs" and E: "down_closed d E" "c \<notin> E" for c E
    proof (rule Suc.IH)
      show "dir_inv (prune E d)" using dir_inv_prune [OF inv E(1)] .
      show "ranked r (prune E d)" using ranked_prune [OF inv Suc.prems(2)] .
      show "\<forall>k. has_key k (batteryMap (prune E d)) \<longrightarrow> r k \<le> N"
        using Suc.prems(3) by (simp add: has_key_prune)
      have key: "has_key c (batteryMap d)" using dir_inv_alive [OF inv] c cs by blast
      then show "has_key c (batteryMap (prune E d))" using E(2) by (simp add: has_key_prune)
      have "r x < r c" using Suc.prems(2) c cs by (auto simp: ranked_def edges_def)
      moreover have "r c \<le> N" using Suc.prems(3) key by blast
      ultimately show "N - r c < n" using Suc.prems(5) by linarith
    qed
    then have "remove_children (removeBattery n) cs (prune {} d) = Inr (True, prune ({} \<union> ?D) d)"
      using siblings_apart [OF inv, of _ x] dir_inv_distinct(1) [OF inv, of x] cs
      by (intro remove_children_prune [OF inv]) (auto simp: down_closed_def)
    moreover have "prune {} d = d"
    proof -
      have "filter (\<lambda>p. snd p \<noteq> []) (parentGraph d) = parentGraph d"
        using dir_inv_nonempty(1) [OF inv] dir_inv_keys(1) [OF inv] by (auto simp: filter_id_conv)
      then show ?thesis by (simp add: prune_def prune_graph_def apsnd_def map_prod_def id_def)
    qed
    ultimately have kids: "remove_children (removeBattery n) cs d = Inr (True, prune ?D d)" by simp
    have closed: "down_closed d ?D"
      by (auto simp: down_closed_def descendants_def intro: rtrancl_into_rtrancl)
    have gone: "map_of (parentGraph (prune ?D d)) x = None"
      by (auto simp: prune_def map_of_prune_graph dir_inv_keys [OF inv] filter_empty_conv cs descendants_def)
    have erase: "map_erase x (parentGraph (prune ?D d)) = parentGraph (prune ?D d)"
      using gone by (auto simp: map_erase_def filter_id_conv map_of_eq_None_iff)
    have "remove_entry x (prune ?D d) = prune {x} (prune ?D d)"
      using remove_entry_prune [OF dir_inv_prune [OF inv closed] gone] .
    also have "\<dots> = prune (descendants d x) d"
      by (simp add: prune_prune descendants_children [of d x] cs)
    finally show ?thesis using Some Suc.prems(4) kids erase by simp
  qed
qed simp

section \<open>Additions keep the invariant\<close>

lemma dir_inv_empty: "dir_inv empty_directory"
  by (auto simp: dir_inv_def empty_directory_def neighbours_def edges_def ranked_def)

lemma map_of_batteryMap_add:
  "str.wf_map m \<Longrightarrow> \<not> has_key n m \<Longrightarrow> map_of (map_insert (<) n a m) = (map_of m)(n \<mapsto> a)"
  by (simp add: has_key_def str.map_of_insert)

lemma addBattery_inv:
  assumes inv: "dir_inv d"
  shows "dir_inv (snd (addBattery n a d))"
proof (cases "has_key n (batteryMap d)")
  case False
  have wf: "str.wf_map (batteryMap d)" using inv by (simp add: dir_inv_def)
  have "has_key k (map_insert (<) n a (batteryMap d)) \<longleftrightarrow> k = n \<or> has_key k (batteryMap d)" for k
    using map_of_batteryMap_add [OF wf False] by (simp add: has_key_def)
  with inv False wf show ?thesis
    by (auto simp: addBattery_def dir_inv_def edges_def ranked_def str.wf_map_insert) blast
qed (simp add: addBattery_def inv)

text \<open>The graphs after a new edge.\<close>

lemma neighbours_push:
  assumes "str.wf_map g"
  shows "neighbours (map_update k (\<lambda>l. l @ [v]) (graph_index k g)) j =
    (if j = k then neighbours g k @ [v] else neighbours g j)"
  by (simp add: neighbours_def map_of_map_update map_of_graph_index [OF assms] split: option.splits)

lemma map_of_push:
  assumes "str.wf_map g" and "map_of g j \<noteq> Some []"
  shows "map_of (map_update k (\<lambda>l. l @ [v]) (graph_index k g)) j \<noteq> Some []"
  using assms(2)
  by (auto simp: map_of_map_update map_of_graph_index [OF assms(1)] split: option.splits)

lemma addEdge_inv:
  assumes inv: "dir_inv d" and keys: "has_key p (batteryMap d)" "has_key c (batteryMap d)"
    and new: "p \<noteq> c" "child_names d c = []" "c \<notin> set (child_names d p)"
    and only: "child_names d p = [] \<and> (\<forall>p' \<in> set (parent_names d c). length (child_names d p') \<le> 1) \<or>
      parent_names d c = [] \<and> (\<forall>c' \<in> set (child_names d p). parent_names d c' = [p])"
  shows "dir_inv (snd (addEdge p c d))" (is "dir_inv ?d")
proof -
  have wf: "str.wf_map (childGraph d)" "str.wf_map (parentGraph d)" "str.wf_map (batteryMap d)"
    using inv by (auto simp: dir_inv_def)
  have d: "?d = d\<lparr>childGraph := map_update c (\<lambda>l. l @ [p]) (graph_index c (childGraph d)),
      parentGraph := map_update p (\<lambda>l. l @ [c]) (graph_index p (parentGraph d))\<rparr>"
    using keys by (simp add: addEdge_def)
  have ch: "child_names ?d j = (if j = p then child_names d p @ [c] else child_names d j)" for j
    by (simp add: d neighbours_push [OF wf(2)])
  have pa: "parent_names ?d j = (if j = c then parent_names d c @ [p] else parent_names d j)" for j
    by (simp add: d neighbours_push [OF wf(1)])
  note conv = dir_inv_converse [OF inv]
  have "str.wf_map (childGraph ?d)" "str.wf_map (parentGraph ?d)" "str.wf_map (batteryMap ?d)"
    using wf by (simp_all add: d wf_graph_index)
  moreover have "map_of (parentGraph ?d) k \<noteq> Some []" "map_of (childGraph ?d) k \<noteq> Some []" for k
    using map_of_push [OF wf(2) dir_inv_nonempty(1) [OF inv]] map_of_push [OF wf(1) dir_inv_nonempty(2) [OF inv]]
    by (simp_all add: d)
  moreover have "distinct (child_names ?d k)" "distinct (parent_names ?d k)" for k
    using dir_inv_distinct [OF inv] new(3) conv by (auto simp: ch pa)
  moreover have "y \<in> set (child_names ?d x) \<longleftrightarrow> x \<in> set (parent_names ?d y)" for x y
    using conv new(3) by (auto simp: ch pa)
  moreover have "has_key x (batteryMap ?d) \<and> has_key y (batteryMap ?d) \<and>
      (length (child_names ?d x) > 1 \<longrightarrow> parent_names ?d y = [x])" if "(x, y) \<in> edges ?d" for x y
  proof -
    have xy: "x = p \<and> y = c \<or> y \<in> set (child_names d x)"
      using that by (auto simp: edges_def ch split: if_splits)
    then have "has_key x (batteryMap ?d) \<and> has_key y (batteryMap ?d)"
      using keys dir_inv_alive [OF inv] by (auto simp: d)
    moreover have "parent_names ?d y = [x]" if "length (child_names ?d x) > 1"
      using that xy only new(3) conv dir_inv_only_parent [OF inv, of y x]
      by (auto simp: ch pa split: if_splits)
    ultimately show ?thesis by blast
  qed
  moreover have "\<exists>r. ranked r ?d"
  proof -
    obtain r where r: "ranked r d" using inv by (auto simp: dir_inv_def)
    have "ranked (r(c := Suc (max (r c) (r p)))) ?d"
      using r new(1,2) by (fastforce simp: ranked_def edges_def ch split: if_splits)
    then show ?thesis by blast
  qed
  ultimately show ?thesis unfolding dir_inv_def by blast
qed

section \<open>Properties of the directory\<close>

text \<open>A source, an aggregate built on it and an unrelated battery.\<close>

definition sample_directory :: directory where
  "sample_directory =
     \<lparr>destroyed = False, childGraph = [(''agg'', [''src''])], parentGraph = [(''src'', [''agg''])],
      batteryMap = [(''agg'', 1), (''src'', 0), (''x'', 2)]\<rparr>"

lemma sample_directory_inv: "dir_inv sample_directory"
proof -
  have "ranked (\<lambda>k. if k = ''agg'' then 1 else 0) sample_directory"
    by (auto simp: ranked_def edges_def neighbours_def sample_directory_def split: if_splits)
  then have "\<exists>r. ranked r sample_directory" by blast
  then show ?thesis
    unfolding dir_inv_def
    by (auto simp: sample_directory_def neighbours_def edges_def has_key_def pair_less_def
        less_list_code split: if_splits)
qed

text \<open>
  C10: removing a battery from a well-formed directory succeeds and removes exactly the battery and
  everything built on it, transitively, from the map and from both graphs; the result is again
  well formed. The nesting of the calls is bounded, so some bound on it is enough.
\<close>

theorem removeBattery_removes_descendants:
  assumes inv: "dir_inv d" and x: "has_key x (batteryMap d)"
  shows "\<exists>n0. \<forall>n \<ge> n0. removeBattery n x d = Inr (True, prune (descendants d x) d) \<and>
    dir_inv (prune (descendants d x) d)"
proof -
  obtain r where r: "ranked r d" using inv by (auto simp: dir_inv_def)
  let ?N = "Max (r ` fst ` set (batteryMap d))"
  have "\<forall>k. has_key k (batteryMap d) \<longrightarrow> r k \<le> ?N"
    by (auto simp: has_key_def dest!: map_of_SomeD intro!: Max_ge) force
  then have "removeBattery n x d = Inr (True, prune (descendants d x) d)" if "n \<ge> Suc ?N" for n
    using removeBattery_prune [OF inv r _ x] that by simp
  moreover have "dir_inv (prune (descendants d x) d)"
    using dir_inv_prune [OF inv descendants_down_closed] .
  ultimately show ?thesis by blast
qed

theorem removeBattery_removes_descendants_witness:
  "\<exists>n0. \<forall>n \<ge> n0. removeBattery n ''src'' sample_directory =
      Inr (True, prune (descendants sample_directory ''src'') sample_directory) \<and>
    dir_inv (prune (descendants sample_directory ''src'') sample_directory)"
  by (rule removeBattery_removes_descendants [OF sample_directory_inv])
    (simp add: sample_directory_def has_key_def)

end
