(* ===== verification/V3_Manager.thy ===== *)
theory V3_Manager
  imports V3_Directory
begin

text \<open>
  The directory manager of BatteryOS-V3 (\<open>BatteryDirectoryManager.cpp\<close>) with the constructors of the
  battery classes: creation of physical, dynamic, aggregate, partition and secure batteries, and
  removal. An object that no \<open>shared_ptr\<close> holds any more is freed, so that a \<open>weak_ptr\<close> to it
  no longer locks.
\<close>

section \<open>State and allocation\<close>

record 'd manager =
  dir :: directory
  pManagerCounter :: "64 word"
  sys :: "'d system"

definition init_manager :: "'d manager" where
  "init_manager = \<lparr>dir = empty_directory, pManagerCounter = 1,
     sys = \<lparr>heap = Map.empty, nextAddr = 0, SEQUENCE_NUMBER = 1\<rparr>\<rparr>"

definition alloc :: "'d battery \<Rightarrow> 'd system \<Rightarrow> addr \<times> 'd system" where
  "alloc b s = (nextAddr s, s\<lparr>heap := (heap s)(nextAddr s \<mapsto> b), nextAddr := Suc (nextAddr s)\<rparr>)"

definition free :: "addr \<Rightarrow> 'd system \<Rightarrow> 'd system" where
  "free a s = s\<lparr>heap := (heap s)(a := None)\<rparr>"

text \<open>The constructor of \<open>Battery\<close>; the status starts as zeros.\<close>

definition new_Battery ::
  "string \<Rightarrow> int \<Rightarrow> RefreshMode \<Rightarrow> BatteryType \<Rightarrow> 'd kind \<Rightarrow> 'd battery" where
  "new_Battery name staleness mode ty k =
     \<lparr>eventSet = [], eventMap = [], batteryName = name, battery_type = ty, quitThread = False,
      bat_current_mA = 0, bat_status = default_status, refreshMode = mode,
      maxStaleness = staleness, kind = k\<rparr>"

section \<open>Names of partition managers\<close>

fun decimal :: "nat \<Rightarrow> string" where
  "decimal n = (if n < 10 then [char_of (48 + n)] else decimal (n div 10) @ [char_of (48 + n mod 10)])"

declare decimal.simps [simp del]

definition createPartitionManagerName :: "'d manager \<Rightarrow> string \<times> 'd manager" where
  "createPartitionManagerName m =
    (''pManager'' @ decimal (unat (pManagerCounter m)),
     m\<lparr>pManagerCounter := pManagerCounter m + 1\<rparr>)"

section \<open>Creation\<close>

text \<open>
  A new object enters the directory under its name or, when the name is taken, is destroyed with
  the last pointer to it.
\<close>

definition enter :: "string \<Rightarrow> 'd battery \<Rightarrow> 'd manager \<Rightarrow> addr option \<times> 'd manager" where
  "enter name b m =
    (let (a, s) = alloc b (sys m);
         (ok, d) = addBattery name a (dir m)
     in if ok then (Some a, m\<lparr>dir := d, sys := s\<rparr>) else (None, m\<lparr>dir := d, sys := free a s\<rparr>))"

text \<open>
  \<open>PhysicalBattery\<close> and \<open>DynamicBattery\<close> leave the field \<open>type\<close> uninitialised: the value it happens to
  hold is an argument.
\<close>

definition createPhysicalBattery ::
  "BatteryType \<Rightarrow> string \<Rightarrow> int \<Rightarrow> RefreshMode \<Rightarrow> 'd manager \<Rightarrow> addr option \<times> 'd manager" where
  "createPhysicalBattery junk name staleness mode m =
     enter name (new_Battery name staleness mode junk PhysicalBattery) m"

definition createDynamicBattery ::
  "BatteryType \<Rightarrow> 'd \<Rightarrow> string \<Rightarrow> int \<Rightarrow> RefreshMode \<Rightarrow> 'd manager \<Rightarrow> addr option \<times> 'd manager" where
  "createDynamicBattery junk drv name staleness mode m =
     enter name (new_Battery name staleness mode junk (DynamicBattery drv)) m"

definition createSecureBattery :: "string \<Rightarrow> 'd manager \<Rightarrow> addr option \<times> 'd manager" where
  "createSecureBattery name m = enter name (new_Battery name 1000 LAZY Secure SecureBattery) m"

subsection \<open>Aggregates\<close>

text \<open>
  The checks on one parent; \<open>None\<close> is a refusal. The directory holds its entries by \<open>shared_ptr\<close>, so
  that the object is there; the branch without it is never taken.
\<close>

definition aggregate_parent :: "string \<Rightarrow> 'd manager \<Rightarrow> addr option" where
  "aggregate_parent name m =
    (case getBattery name (dir m) of
       None \<Rightarrow> None
     | Some a \<Rightarrow>
         (case heap (sys m) a of
            None \<Rightarrow> None
          | Some b \<Rightarrow>
              if current_mA (bat_status b) \<noteq> 0 then None
              else if \<not> canBeSource name (dir m) then None else Some a))"

fun aggregate_parents :: "string list \<Rightarrow> 'd manager \<Rightarrow> addr list option" where
  "aggregate_parents [] m = Some []"
| "aggregate_parents (n # ns) m =
    (case aggregate_parent n m of
       None \<Rightarrow> None
     | Some a \<Rightarrow> map_option ((#) a) (aggregate_parents ns m))"

definition add_edges :: "(string \<times> string) list \<Rightarrow> directory \<Rightarrow> directory" where
  "add_edges es d = fold (\<lambda>(p, c) d. snd (addEdge p c d)) es d"

definition createAggregateBattery ::
  "timepoint \<Rightarrow> string \<Rightarrow> string list \<Rightarrow> int \<Rightarrow> RefreshMode \<Rightarrow> 'd manager \<Rightarrow> addr option \<times> 'd manager" where
  "createAggregateBattery now name parentNames staleness mode m =
    (case aggregate_parents parentNames m of
       None \<Rightarrow> (None, m)
     | Some ps \<Rightarrow>
         if ps = [] then (None, m)
         else
           (let (n, s) = getSequenceNumber (sys m);
                b = (new_Battery name staleness mode Aggregate (AggregateBattery ps 0 0))
                      \<lparr>eventSet := [mk_event name REFRESH 0 now n]\<rparr>;
                (r, m') = enter name b (m\<lparr>sys := s\<rparr>)
            in case r of
                 None \<Rightarrow> (None, m')
               | Some a \<Rightarrow>
                   (Some a, m'\<lparr>dir := add_edges (map (\<lambda>p. (p, name)) parentNames) (dir m')\<rparr>)))"

subsection \<open>Partitions\<close>

text \<open>The index of the first child with a name; the number of children when there is none.\<close>

fun child_index :: "string \<Rightarrow> addr list \<Rightarrow> 'd system \<Rightarrow> nat outcome" where
  "child_index name [] s = Inr 0"
| "child_index name (c # cs) s =
    obind (deref c s) (\<lambda>b. if batteryName b = name then Inr 0
      else obind (child_index name cs s) (\<lambda>i. Inr (Suc i)))"

definition child_status :: "timepoint \<Rightarrow> BatteryStatus \<Rightarrow> Scale \<Rightarrow> BatteryStatus" where
  "child_status now st p =
     \<lparr>voltage_mV = voltage_mV st, current_mA = current_mA st,
      capacity_mAh = capacity_mAh st * capacity_proportion p,
      max_capacity_mAh = max_capacity_mAh st * capacity_proportion p,
      max_charging_current_mA = max_charging_current_mA st * charge_proportion p,
      max_discharging_current_mA = max_discharging_current_mA st * charge_proportion p,
      status_time = convertToMilliseconds now\<rparr>"

definition initBatteryStatus ::
  "timepoint \<Rightarrow> string \<Rightarrow> addr \<Rightarrow> 'd system \<Rightarrow> BatteryStatus outcome" where
  "initBatteryStatus now childName ma s =
    obind (deref ma s) (\<lambda>mb.
      case kind mb of
        PartitionManager _ _ props cs \<Rightarrow>
          obind (child_index childName cs s) (\<lambda>i.
            if i < length props then Inr (child_status now (bat_status mb) (props ! i))
            else Inl Bad_index)
      | _ \<Rightarrow> Inl Bad_cast)"

definition setSourceBattery :: "timepoint \<Rightarrow> addr \<Rightarrow> addr \<Rightarrow> 'd system \<Rightarrow> 'd system outcome" where
  "setSourceBattery now ma a s =
    obind (deref a s) (\<lambda>b.
      case kind b of
        PartitionBattery _ r q \<Rightarrow>
          (let s1 = upd a (\<lambda>b. b\<lparr>kind := PartitionBattery (Some ma) r q\<rparr>) s in
           obind (initBatteryStatus now (batteryName b) ma s1) (\<lambda>st.
             let s2 = set_status a st s1 in
             Inr (if refreshMode b = ACTIVE then insert_refresh (now + maxStaleness b) a s2 else s2)))
      | _ \<Rightarrow> Inl Bad_cast)"

fun alloc_partitions :: "(string \<times> int \<times> RefreshMode) list \<Rightarrow> 'd system \<Rightarrow> addr list \<times> 'd system" where
  "alloc_partitions [] s = ([], s)"
| "alloc_partitions ((name, staleness, mode) # xs) s =
    (let (a, s1) = alloc (new_Battery name staleness mode Partition (PartitionBattery None False 0)) s;
         (as, s2) = alloc_partitions xs s1
     in (a # as, s2))"

text \<open>The constructor of \<open>PartitionManager\<close>: actively refreshed every minute, status of its source.\<close>

definition new_PartitionManager ::
  "nat \<Rightarrow> 'd env \<Rightarrow> string \<Rightarrow> Scale list \<Rightarrow> PolicyType \<Rightarrow> addr \<Rightarrow> addr list \<Rightarrow> 'd system \<Rightarrow>
   (addr \<times> 'd system) outcome" where
  "new_PartitionManager k env name props policy src cs s =
    obind (getStatus k env src s) (\<lambda>(st, s1).
      let (n, s2) = getSequenceNumber s1;
          b = (new_Battery name 60000 ACTIVE BatteryType.PartitionManager
                 (kind.PartitionManager policy src props cs))
                \<lparr>bat_status := st, eventSet := [mk_event name REFRESH 0 (getTimeNow env + 60000) n]\<rparr>
      in Inr (alloc b s2))"

text \<open>
  The final loop: each partition enters the directory below its manager. When a name is taken the
  function returns an empty vector; the partitions not yet entered are destroyed, the manager and
  those already entered stay.
\<close>

fun enter_partitions :: "string \<Rightarrow> (string \<times> addr) list \<Rightarrow> 'd manager \<Rightarrow> bool \<times> 'd manager" where
  "enter_partitions pm [] m = (True, m)"
| "enter_partitions pm ((name, a) # xs) m =
    (let (ok, d) = addBattery name a (dir m) in
     if ok then enter_partitions pm xs (m\<lparr>dir := snd (addEdge pm name d)\<rparr>)
     else (False, m\<lparr>dir := d, sys := fold free (a # map snd xs) (sys m)\<rparr>))"

definition createPartitionBattery ::
  "nat \<Rightarrow> 'd env \<Rightarrow> string \<Rightarrow> PolicyType \<Rightarrow> string list \<Rightarrow> Scale list \<Rightarrow> int list \<Rightarrow> RefreshMode list \<Rightarrow>
   'd manager \<Rightarrow> (addr list \<times> 'd manager) outcome" where
  "createPartitionBattery k env sourceName policy names props stalenesses modes m =
    (let total = foldl Scale_add_assign (Scale_of 0) props in
     if charge_proportion total \<noteq> 1 \<or> capacity_proportion total \<noteq> 1 then Inr ([], m)
     else if \<not> (length names = length props \<and> length props = length stalenesses \<and>
                length stalenesses = length modes) then Inr ([], m)
     else if \<not> canBeSource sourceName (dir m) then Inr ([], m)
     else
       (let (as, s1) = alloc_partitions (zip names (zip stalenesses modes)) (sys m) in
        case getBattery sourceName (dir m) of
          None \<Rightarrow> Inr ([], m\<lparr>sys := fold free as s1\<rparr>)
        | Some src \<Rightarrow>
            obind (deref src s1) (\<lambda>sb.
              if current_mA (bat_status sb) \<noteq> 0 then Inr ([], m\<lparr>sys := fold free as s1\<rparr>)
              else
                (let (pm, m1) = createPartitionManagerName (m\<lparr>sys := s1\<rparr>) in
                 obind (new_PartitionManager k env pm props policy src as (sys m1)) (\<lambda>(ma, s2).
                   obind (ofold (setSourceBattery (getTimeNow env) ma) as s2) (\<lambda>s3.
                     let (ok, d1) = addBattery pm ma (dir m1) in
                     if \<not> ok then Inl Process_exit
                     else
                       (let d2 = snd (addEdge sourceName pm d1);
                            (ok', m3) = enter_partitions pm (zip names as) (m1\<lparr>dir := d2, sys := s3\<rparr>)
                        in Inr (if ok' then as else [], m3))))))))"

definition createPartitionBattery_default ::
  "nat \<Rightarrow> 'd env \<Rightarrow> string \<Rightarrow> PolicyType \<Rightarrow> string list \<Rightarrow> Scale list \<Rightarrow> 'd manager \<Rightarrow>
   (addr list \<times> 'd manager) outcome" where
  "createPartitionBattery_default k env sourceName policy names props m =
     createPartitionBattery k env sourceName policy names props
       (map (\<lambda>_. 1000) names) (map (\<lambda>_. LAZY) names) m"

section \<open>Removal\<close>

text \<open>The objects whose directory entry is gone; their holders left the directory with them.\<close>

definition dropped :: "directory \<Rightarrow> directory \<Rightarrow> addr list" where
  "dropped d d' = map snd (filter (\<lambda>p. \<not> has_key (fst p) (batteryMap d')) (batteryMap d))"

definition remove_named :: "nat \<Rightarrow> string \<Rightarrow> 'd manager \<Rightarrow> (bool \<times> 'd manager) outcome" where
  "remove_named k name m =
    obind (removeBattery k name (dir m)) (\<lambda>(ok, d).
      Inr (ok, m\<lparr>dir := d, sys := fold free (dropped (dir m) d) (sys m)\<rparr>))"

definition manager_removeBattery :: "nat \<Rightarrow> string \<Rightarrow> 'd manager \<Rightarrow> (bool \<times> 'd manager) outcome" where
  "manager_removeBattery k name m =
    (case getBattery name (dir m) of
       None \<Rightarrow> Inr (False, m)
     | Some a \<Rightarrow>
         obind (deref a (sys m)) (\<lambda>b.
           if battery_type b = Partition then
             (case kind b of
                PartitionBattery src _ _ \<Rightarrow>
                  (case src of
                     None \<Rightarrow> Inl Null_deref
                   | Some ma \<Rightarrow> obind (deref ma (sys m)) (\<lambda>mb. remove_named k (batteryName mb) m))
              | _ \<Rightarrow> Inl Bad_cast)
           else remove_named k name m))"

definition manager_destroyDirectory :: "'d manager \<Rightarrow> 'd manager" where
  "manager_destroyDirectory m =
    (let (d, s) = destroyDirectory (dir m) (sys m) in m\<lparr>dir := d, sys := s\<rparr>)"

section \<open>Status calls keep the frame\<close>

lemma set_c_rate_frames:
  assumes G: "\<And>p s st s'. G p s = Inr (st, s') \<Longrightarrow> frames s' = frames s"
    and run: "set_c_rate G a ps s = Inr (c, d, s')"
  shows "frames s' = frames s"
proof -
  let ?P = "\<lambda>xs u. frames (snd (snd u)) = frames s"
  from run obtain u where
    loop: "ofold (\<lambda>p (cs, ds, s). obind (G p s) (\<lambda>(st, s').
      Inr (cs @ [charge_rate_of st], ds @ [discharge_rate_of st], s'))) ps ([], [], s) = Inr u"
    and s': "s' = upd a (set_rates c d) (snd (snd u))"
    by (auto simp: set_c_rate_def)
  have "?P [] u" using loop
    by (rule ofold_invariant [where P = ?P]) (auto dest: G)
  with s' show ?thesis by simp
qed

lemma calcStatusVals_frames:
  assumes G: "\<And>p s st s'. G p s = Inr (st, s') \<Longrightarrow> frames s' = frames s"
    and run: "calcStatusVals G env a ps s = Inr (st, s')"
  shows "frames s' = frames s"
proof -
  let ?P = "\<lambda>xs u. frames (snd u) = frames s"
  from run obtain c d s1 u where rates: "set_c_rate G a ps s = Inr (c, d, s1)"
    and loop: "ofold (\<lambda>p (acc, s). obind (G p s) (\<lambda>(st, s'). Inr (add_parent c d st acc, s')))
      ps ((default_status, Fin 0, Fin 0), s1) = Inr u" and s': "s' = snd u"
    by (auto simp: calcStatusVals_def)
  have "?P [] u" using loop
    by (rule ofold_invariant [where P = ?P]) (auto dest: G simp: set_c_rate_frames [OF G rates])
  with s' show ?thesis by simp
qed

lemma refreshProportional_frames:
  assumes "refreshProportional st props cs s = Inr s'"
  shows "frames s' = frames s"
proof -
  let ?P = "\<lambda>xs u. frames u = frames s"
  show ?thesis using assms unfolding refreshProportional_def
    by (rule ofold_invariant [where P = ?P]) (auto split: if_splits)
qed

lemma refresh_with_frames:
  assumes G: "\<And>p s st s'. G p s = Inr (st, s') \<Longrightarrow> frames s' = frames s"
    and run: "refresh_with G env a s = Inr (st, s')"
  shows "frames s' = frames s"
proof -
  from run obtain b where b: "deref a s = Inr b" by (auto simp: refresh_with_def)
  show ?thesis
  proof (cases "kind b")
    case (DynamicBattery drv)
    with run b show ?thesis
      by (auto simp: refresh_with_def frame_def split: prod.splits intro!: frames_upd_at)
  next
    case (AggregateBattery ps c d)
    with run b show ?thesis by (auto simp: refresh_with_def intro: calcStatusVals_frames [OF G])
  next
    case (PartitionManager policy src props cs)
    with run b show ?thesis
      by (auto simp: refresh_with_def refreshReserved_def refreshTranched_def
          dest!: G refreshProportional_frames split: PolicyType.splits)
  qed (use run b in \<open>auto simp: refresh_with_def\<close>)
qed

lemma getStatus_frames: "getStatus n env a s = Inr (st, s') \<Longrightarrow> frames s' = frames s"
proof (induction n arbitrary: a s st s')
  case (Suc n)
  then obtain b where b: "deref a s = Inr b" by auto
  show ?case
  proof (cases "refreshMode b = LAZY \<and> is_stale (getTimeNow env) b")
    case True
    with Suc.prems b obtain s1 where "refresh_with (getStatus n env) env a s = Inr (st, s1)"
      and "s' = set_status a st s1"
      by (auto simp: checkAndRefresh_with_def)
    then show ?thesis using refresh_with_frames [OF Suc.IH] by simp
  qed (use Suc.prems b in \<open>auto simp: checkAndRefresh_with_def split: if_splits\<close>)
qed simp

section \<open>What a partition creation establishes\<close>

lemma alloc_partitions_spec:
  assumes "alloc_partitions xs s = (as, s')"
  shows "as = [nextAddr s ..< nextAddr s + length xs]" and "nextAddr s' = nextAddr s + length xs"
    and "\<And>a. a < nextAddr s \<Longrightarrow> heap s' a = heap s a"
    and "\<And>i. i < length xs \<Longrightarrow> heap s' (nextAddr s + i) =
      Some (case xs ! i of (n, t, r) \<Rightarrow> new_Battery n t r Partition (PartitionBattery None False 0))"
proof -
  have "as = [nextAddr s ..< nextAddr s + length xs] \<and> nextAddr s' = nextAddr s + length xs \<and>
    (\<forall>a < nextAddr s. heap s' a = heap s a) \<and>
    (\<forall>i < length xs. heap s' (nextAddr s + i) =
      Some (case xs ! i of (n, t, r) \<Rightarrow> new_Battery n t r Partition (PartitionBattery None False 0)))"
    using assms
  proof (induction xs arbitrary: s as)
    case (Cons x xs)
    obtain n t r where x: "x = (n, t, r)" by (cases x)
    let ?b = "new_Battery n t r Partition (PartitionBattery None False 0)"
    let ?s1 = "s\<lparr>heap := (heap s)(nextAddr s \<mapsto> ?b), nextAddr := Suc (nextAddr s)\<rparr>"
    obtain as' where run: "alloc_partitions xs ?s1 = (as', s')" and as: "as = nextAddr s # as'"
      using Cons.prems by (auto simp: x alloc_def split: prod.splits)
    note IH = Cons.IH [OF run]
    have at: "heap s' (nextAddr s) = Some ?b" using IH by simp
    have "heap s' (nextAddr s + i) = Some (case (x # xs) ! i of (n, t, r) \<Rightarrow>
        new_Battery n t r Partition (PartitionBattery None False 0))" if "i < length (x # xs)" for i
      using that IH at by (cases i) (auto simp: x)
    moreover have "nextAddr s # [Suc (nextAddr s) ..< Suc (nextAddr s) + length xs] =
        [nextAddr s ..< nextAddr s + length (x # xs)]"
      by (subst upt_conv_Cons [symmetric]) simp_all
    ultimately show ?case using IH as by simp
  qed auto
  then show "as = [nextAddr s ..< nextAddr s + length xs]" "nextAddr s' = nextAddr s + length xs"
    "\<And>a. a < nextAddr s \<Longrightarrow> heap s' a = heap s a"
    "\<And>i. i < length xs \<Longrightarrow> heap s' (nextAddr s + i) =
      Some (case xs ! i of (n, t, r) \<Rightarrow> new_Battery n t r Partition (PartitionBattery None False 0))"
    by auto
qed

lemma child_index_nth:
  assumes "distinct names" and "length cs = length names" and "j < length names"
    and "\<forall>i < length cs. \<exists>b. heap s (cs ! i) = Some b \<and> batteryName b = names ! i"
  shows "child_index (names ! j) cs s = Inr j"
  using assms
proof (induction cs arbitrary: names j)
  case (Cons c cs)
  obtain n ns where names: "names = n # ns" using Cons.prems(2) by (cases names) auto
  obtain b where b: "heap s c = Some b" "batteryName b = n" using Cons.prems(4) names by force
  have rest: "\<forall>i < length cs. \<exists>b. heap s (cs ! i) = Some b \<and> batteryName b = ns ! i"
    using Cons.prems(4) names by (metis Suc_less_eq length_Cons nth_Cons_Suc)
  show ?case
  proof (cases j)
    case 0
    with b names show ?thesis by (simp add: deref_def)
  next
    case (Suc i)
    then have "ns ! i \<noteq> n" using Cons.prems(1,3) names by (auto simp: in_set_conv_nth)
    with Cons.IH [of ns i] Cons.prems rest b names Suc show ?thesis by (auto simp: deref_def)
  qed
qed simp

text \<open>The children of a manager while \<open>setSourceBattery\<close> runs over them.\<close>

definition partitioned ::
  "timepoint \<Rightarrow> BatteryStatus \<Rightarrow> string list \<Rightarrow> Scale list \<Rightarrow> addr list \<Rightarrow> addr \<Rightarrow> nat \<Rightarrow> 'd system \<Rightarrow> bool" where
  "partitioned now st names props as ma j s \<longleftrightarrow>
     (\<forall>i < length as. \<exists>b. heap s (as ! i) = Some b \<and> batteryName b = names ! i \<and>
        (\<exists>src r q. kind b = PartitionBattery src r q) \<and>
        (i < j \<longrightarrow> bat_status b = child_status now st (props ! i))) \<and>
     (\<exists>mb policy src. heap s ma = Some mb \<and> bat_status mb = st \<and>
        kind mb = PartitionManager policy src props as)"

lemma setSourceBattery_step:
  assumes P: "partitioned now st names props as ma j s" and j: "j < length as"
    and ok: "distinct names" "length as = length names" "length props = length names"
    and dist: "distinct as" "ma \<notin> set as"
  shows "\<exists>s'. setSourceBattery now ma (as ! j) s = Inr s' \<and> partitioned now st names props as ma (Suc j) s'"
proof -
  let ?a = "as ! j"
  obtain b src r q where b: "heap s ?a = Some b" "batteryName b = names ! j" "kind b = PartitionBattery src r q"
    using P j by (auto simp: partitioned_def)
  obtain mb policy msrc where mb: "heap s ma = Some mb" "bat_status mb = st"
      "kind mb = PartitionManager policy msrc props as"
    using P by (auto simp: partitioned_def)
  let ?s1 = "upd ?a (\<lambda>b. b\<lparr>kind := PartitionBattery (Some ma) r q\<rparr>) s"
  have ma: "ma \<noteq> ?a" using dist j by auto
  have "\<forall>i < length as. \<exists>b. heap ?s1 (as ! i) = Some b \<and> batteryName b = names ! i"
    using P b by (auto simp: partitioned_def upd_def)
  then have "child_index (names ! j) as ?s1 = Inr j"
    using child_index_nth [OF ok(1,2)] j ok(2) by simp
  then have init: "initBatteryStatus now (names ! j) ma ?s1 = Inr (child_status now st (props ! j))"
    using mb ma j ok by (simp add: initBatteryStatus_def deref_def upd_def)
  let ?s2 = "set_status ?a (child_status now st (props ! j)) ?s1"
  let ?s3 = "if refreshMode b = ACTIVE then insert_refresh (now + maxStaleness b) ?a ?s2 else ?s2"
  have run: "setSourceBattery now ma ?a s = Inr ?s3"
    using b init by (simp add: setSourceBattery_def deref_def Let_def)
  have other: "heap ?s3 c = heap s c" if "c \<noteq> ?a" for c
    using that by (simp add: set_status_def upd_def insert_refresh_def getSequenceNumber_def Let_def)
  have own: "\<exists>b'. heap ?s3 ?a = Some b' \<and> batteryName b' = names ! j \<and>
      kind b' = PartitionBattery (Some ma) r q \<and> bat_status b' = child_status now st (props ! j)"
    using b by (simp add: set_status_def upd_def insert_refresh_def getSequenceNumber_def Let_def)
  have "\<exists>b. heap ?s3 (as ! i) = Some b \<and> batteryName b = names ! i \<and>
      (\<exists>src r q. kind b = PartitionBattery src r q) \<and>
      (i < Suc j \<longrightarrow> bat_status b = child_status now st (props ! i))" if "i < length as" for i
  proof (cases "i = j")
    case False
    then have "as ! i \<noteq> ?a" using dist(1) that j by (simp add: nth_eq_iff_index_eq)
    then show ?thesis using P that other False by (auto simp: partitioned_def less_Suc_eq)
  qed (use own in blast)
  then have "partitioned now st names props as ma (Suc j) ?s3"
    using mb other [OF ma] by (auto simp: partitioned_def)
  with run show ?thesis by blast
qed

lemma setSourceBattery_all:
  assumes "partitioned now st names props as ma j s" and "j \<le> length as"
    and "distinct names" "length as = length names" "length props = length names"
    and "distinct as" "ma \<notin> set as"
  shows "\<exists>s'. ofold (setSourceBattery now ma) (drop j as) s = Inr s' \<and>
    partitioned now st names props as ma (length as) s'"
  using assms
proof (induction "length as - j" arbitrary: j s)
  case 0
  then show ?case by simp
next
  case (Suc m)
  then have j: "j < length as" by simp
  obtain s1 where 1: "setSourceBattery now ma (as ! j) s = Inr s1"
      "partitioned now st names props as ma (Suc j) s1"
    using setSourceBattery_step [OF Suc.prems(1) j Suc.prems(3-7)] by blast
  have "\<exists>s'. ofold (setSourceBattery now ma) (drop (Suc j) as) s1 = Inr s' \<and>
      partitioned now st names props as ma (length as) s'"
    using Suc.hyps 1(2) j Suc.prems by (intro Suc.hyps(1)) auto
  with 1(1) j show ?case by (simp add: Cons_nth_drop_Suc [symmetric])
qed

lemma enter_partitions_sys: "enter_partitions pm xs m = (True, m') \<Longrightarrow> sys m' = sys m"
  by (induction xs arbitrary: m) (auto simp: Let_def split: prod.splits if_splits)

text \<open>The run of a successful creation, taken apart.\<close>

lemma createPartition_run:
  assumes run: "createPartitionBattery k env sn policy names props ts modes m = Inr (as, m')"
    and as: "as \<noteq> []"
  obtains src s1 st s2 pm ma s4 where
    "getBattery sn (dir m) = Some src"
    and "length names = length props" "length ts = length names" "length modes = length names"
    and "charge_proportion (foldl Scale_add_assign (Scale_of 0) props) = 1"
    and "capacity_proportion (foldl Scale_add_assign (Scale_of 0) props) = 1"
    and "alloc_partitions (zip names (zip ts modes)) (sys m) = (as, s1)"
    and "getStatus k env src s1 = Inr (st, s2)"
    and "ma = nextAddr s2"
    and "ofold (setSourceBattery (getTimeNow env) ma) as
      (snd (alloc ((new_Battery pm 60000 ACTIVE BatteryType.PartitionManager
          (kind.PartitionManager policy src props as))\<lparr>bat_status := st,
          eventSet := [mk_event pm REFRESH 0 (getTimeNow env + 60000) (SEQUENCE_NUMBER s2)]\<rparr>)
          (s2\<lparr>SEQUENCE_NUMBER := SEQUENCE_NUMBER s2 + 1\<rparr>))) = Inr s4"
    and "sys m' = s4"
proof -
  note def = createPartitionBattery_def Let_def
  have total: "charge_proportion (foldl Scale_add_assign (Scale_of 0) props) = 1"
    "capacity_proportion (foldl Scale_add_assign (Scale_of 0) props) = 1"
    using run as by (auto simp: def split: if_splits)
  have lens: "length names = length props" "length ts = length names" "length modes = length names"
    and can: "canBeSource sn (dir m)"
    using run as total by (auto simp: def split: if_splits)
  obtain as' s1 where al: "alloc_partitions (zip names (zip ts modes)) (sys m) = (as', s1)"
    by (cases "alloc_partitions (zip names (zip ts modes)) (sys m)")
  obtain src where src: "getBattery sn (dir m) = Some src"
    using run as total lens can al by (cases "getBattery sn (dir m)") (auto simp: def)
  note run1 = run [unfolded createPartitionBattery_def, simplified total lens can al src Let_def, simplified]
  obtain sb where sb: "deref src s1 = Inr sb" "current_mA (bat_status sb) = 0"
    using run1 as by (auto split: if_splits)
  obtain pm m1 where nm: "createPartitionManagerName (m\<lparr>sys := s1\<rparr>) = (pm, m1)"
    by (cases "createPartitionManagerName (m\<lparr>sys := s1\<rparr>)")
  then have m1: "sys m1 = s1" by (auto simp: createPartitionManagerName_def)
  obtain ma s3' s4 where new: "new_PartitionManager k env pm props policy src as' s1 = Inr (ma, s3')"
    and loop: "ofold (setSourceBattery (getTimeNow env) ma) as' s3' = Inr s4"
    and fin: "(case addBattery pm ma (dir m1) of (ok, d1) \<Rightarrow>
      if \<not> ok then Inl Process_exit
      else (case enter_partitions pm (zip names as') (m1\<lparr>dir := snd (addEdge sn pm d1), sys := s4\<rparr>)
        of (ok', m3) \<Rightarrow> Inr (if ok' then as' else [], m3))) = Inr (as, m')"
    using run1 sb by (auto simp: nm m1)
  obtain ok d1 where add: "addBattery pm ma (dir m1) = (ok, d1)" by (cases "addBattery pm ma (dir m1)")
  obtain ok' m3 where ent: "enter_partitions pm (zip names as')
      (m1\<lparr>dir := snd (addEdge sn pm d1), sys := s4\<rparr>) = (ok', m3)"
    by (cases "enter_partitions pm (zip names as') (m1\<lparr>dir := snd (addEdge sn pm d1), sys := s4\<rparr>)")
  have ok: ok ok' and same: "as' = as" "m3 = m'"
    using fin as add ent by (auto split: if_splits)
  have "enter_partitions pm (zip names as') (m1\<lparr>dir := snd (addEdge sn pm d1), sys := s4\<rparr>) = (True, m')"
    using ent ok same by simp
  from enter_partitions_sys [OF this] have s4: "sys m' = s4" by simp
  obtain st s2 where gs: "getStatus k env src s1 = Inr (st, s2)"
    and al2: "(ma, s3') = alloc ((new_Battery pm 60000 ACTIVE BatteryType.PartitionManager
        (kind.PartitionManager policy src props as'))\<lparr>bat_status := st,
        eventSet := [mk_event pm REFRESH 0 (getTimeNow env + 60000) (SEQUENCE_NUMBER s2)]\<rparr>)
        (s2\<lparr>SEQUENCE_NUMBER := SEQUENCE_NUMBER s2 + 1\<rparr>)"
    using new by (auto simp: new_PartitionManager_def getSequenceNumber_def)
  have "ma = nextAddr s2" using al2 by (simp add: alloc_def)
  moreover have "ofold (setSourceBattery (getTimeNow env) ma) as
      (snd (alloc ((new_Battery pm 60000 ACTIVE BatteryType.PartitionManager
          (kind.PartitionManager policy src props as))\<lparr>bat_status := st,
          eventSet := [mk_event pm REFRESH 0 (getTimeNow env + 60000) (SEQUENCE_NUMBER s2)]\<rparr>)
          (s2\<lparr>SEQUENCE_NUMBER := SEQUENCE_NUMBER s2 + 1\<rparr>))) = Inr s4"
    using loop al2 same by (metis snd_conv)
  ultimately show thesis using that src lens total al gs s4 same by blast
qed

lemma child_status_sums:
  assumes "capacity_proportion (foldl Scale_add_assign (Scale_of 0) props) = 1"
    and "charge_proportion (foldl Scale_add_assign (Scale_of 0) props) = 1"
  shows "(\<Sum>p\<leftarrow>props. capacity_mAh (child_status now st p)) = capacity_mAh st"
    and "(\<Sum>p\<leftarrow>props. max_capacity_mAh (child_status now st p)) = max_capacity_mAh st"
    and "(\<Sum>p\<leftarrow>props. max_charging_current_mA (child_status now st p)) = max_charging_current_mA st"
    and "(\<Sum>p\<leftarrow>props. max_discharging_current_mA (child_status now st p)) = max_discharging_current_mA st"
  using assms
  by (simp_all add: child_status_def sum_list_map_mult foldl_Scale_add_capacity foldl_Scale_add_charge
      Scale_of_def scale_ABS_def)

lemma sum_list_along:
  assumes "length as = length ps" and "\<forall>i < length as. f (as ! i) = g (ps ! i)"
  shows "(\<Sum>a\<leftarrow>as. f a :: real) = (\<Sum>p\<leftarrow>ps. g p)"
proof -
  have "map f as = map g ps" using assms by (intro nth_equalityI) auto
  then show ?thesis by simp
qed

lemma createPartition_children:
  fixes m :: "'d manager"
  assumes run: "createPartitionBattery k env sn policy names props ts modes m = Inr (as, m')"
    and as: "as \<noteq> []" and names: "distinct names"
  shows "\<exists>src s1 st s2. getBattery sn (dir m) = Some src \<and> getStatus k env src s1 = Inr (st, s2) \<and>
    length as = length props \<and>
    (\<forall>i < length as. status_at (sys m') (as ! i) = child_status (getTimeNow env) st (props ! i)) \<and>
    capacity_proportion (foldl Scale_add_assign (Scale_of 0) props) = 1 \<and>
    charge_proportion (foldl Scale_add_assign (Scale_of 0) props) = 1"
proof -
  obtain src s1 st s2 pm ma s4 where r: "getBattery sn (dir m) = Some src"
    "length names = length props" "length ts = length names" "length modes = length names"
    "charge_proportion (foldl Scale_add_assign (Scale_of 0) props) = 1"
    "capacity_proportion (foldl Scale_add_assign (Scale_of 0) props) = 1"
    and al: "alloc_partitions (zip names (zip ts modes)) (sys m) = (as, s1)"
    and gs: "getStatus k env src s1 = Inr (st, s2)" and ma: "ma = nextAddr s2"
    and loop: "ofold (setSourceBattery (getTimeNow env) ma) as
      (snd (alloc ((new_Battery pm 60000 ACTIVE BatteryType.PartitionManager
          (kind.PartitionManager policy src props as))\<lparr>bat_status := st,
          eventSet := [mk_event pm REFRESH 0 (getTimeNow env + 60000) (SEQUENCE_NUMBER s2)]\<rparr>)
          (s2\<lparr>SEQUENCE_NUMBER := SEQUENCE_NUMBER s2 + 1\<rparr>))) = Inr s4" (is "ofold _ _ ?s3 = _")
    and m': "sys m' = s4"
    by (rule createPartition_run [OF run as])
  note spec = alloc_partitions_spec [OF al]
  have fr2: "frames s2 = frames s1" using getStatus_frames [OF gs] .
  then have "nextAddr s2 = nextAddr s1" unfolding frames_def by (metis system.select_convs(2))
  then have nxt: "ma = nextAddr (sys m) + length names" using ma spec(2) r by simp
  have len: "length as = length names" using spec(1) r by simp
  have dist: "distinct as" "ma \<notin> set as" using spec(1) nxt by auto
  have "\<exists>b. heap s2 (as ! i) = Some b \<and> batteryName b = names ! i \<and>
      (\<exists>src r q. kind b = PartitionBattery src r q)" if "i < length as" for i
  proof -
    have "heap s1 (as ! i) = Some (new_Battery (names ! i) (ts ! i) (modes ! i) Partition
        (PartitionBattery None False 0))"
      using that spec(1) spec(4) [of i] len r by simp
    from frames_heap [OF fr2 this] obtain b where "heap s2 (as ! i) = Some b"
      "frame b = frame (new_Battery (names ! i) (ts ! i) (modes ! i) Partition
        (PartitionBattery None False 0) :: 'd battery)" .
    then show ?thesis by (cases "kind b") (auto simp: frame_def new_Battery_def)
  qed
  moreover have "\<forall>i < length as. as ! i \<noteq> ma" using dist(2) nth_mem by metis
  ultimately have "partitioned (getTimeNow env) st names props as ma 0 ?s3"
    using ma by (auto simp: partitioned_def new_Battery_def alloc_def)
  from setSourceBattery_all [OF this _ names len _ dist] loop m' r
  have "partitioned (getTimeNow env) st names props as ma (length as) (sys m')" by simp
  then have "\<forall>i < length as. status_at (sys m') (as ! i) = child_status (getTimeNow env) st (props ! i)"
    by (auto simp: partitioned_def status_at_def)
  with r gs len show ?thesis by metis
qed

section \<open>Aggregates keep the directory well formed\<close>

lemma fresh_name:
  assumes inv: "dir_inv d" and n: "\<not> has_key n (batteryMap d)"
  shows "child_names d n = []" and "parent_names d n = []"
proof -
  show "child_names d n = []"
    using dir_inv_alive [OF inv, of _ n] n by (cases "child_names d n") auto
  show "parent_names d n = []"
    using dir_inv_alive [OF inv, of n] dir_inv_converse [OF inv, of n] n
    by (cases "parent_names d n") auto
qed

lemma canBeSource_leaf: "canBeSource n d \<Longrightarrow> has_key n (batteryMap d) \<and> child_names d n = []"
  by (simp add: canBeSource_def has_key_def neighbours_def)

lemma addEdge_names:
  assumes inv: "dir_inv d" and keys: "has_key p (batteryMap d)" "has_key c (batteryMap d)"
  shows "child_names (snd (addEdge p c d)) j = (if j = p then child_names d p @ [c] else child_names d j)"
    and "parent_names (snd (addEdge p c d)) j = (if j = c then parent_names d c @ [p] else parent_names d j)"
    and "batteryMap (snd (addEdge p c d)) = batteryMap d"
  using inv keys by (simp_all add: addEdge_def neighbours_push dir_inv_def)

lemma add_edges_aggregate:
  assumes "dir_inv d" and "has_key n (batteryMap d)" and "child_names d n = []" and "distinct ps"
    and "\<forall>p \<in> set ps. has_key p (batteryMap d) \<and> child_names d p = [] \<and> p \<noteq> n"
    and "\<forall>p \<in> set (parent_names d n). length (child_names d p) \<le> 1"
  shows "dir_inv (add_edges (map (\<lambda>p. (p, n)) ps) d) \<and>
    parent_names (add_edges (map (\<lambda>p. (p, n)) ps) d) n = parent_names d n @ ps"
  using assms
proof (induction ps arbitrary: d)
  case (Cons p ps)
  let ?d = "snd (addEdge p n d)"
  have p: "has_key p (batteryMap d)" "child_names d p = []" "p \<noteq> n" using Cons.prems(5) by auto
  note names = addEdge_names [OF Cons.prems(1) p(1) Cons.prems(2)]
  have "dir_inv ?d"
    using Cons.prems(1-3,6) p by (intro addEdge_inv) auto
  moreover have "\<forall>q \<in> set ps. has_key q (batteryMap ?d) \<and> child_names ?d q = [] \<and> q \<noteq> n"
    using Cons.prems(4,5) by (auto simp: names)
  moreover have "\<forall>q \<in> set (parent_names ?d n). length (child_names ?d q) \<le> 1"
    using Cons.prems(6) p(2) by (auto simp: names)
  ultimately have "dir_inv (add_edges (map (\<lambda>p. (p, n)) ps) ?d) \<and>
      parent_names (add_edges (map (\<lambda>p. (p, n)) ps) ?d) n = parent_names ?d n @ ps"
    using Cons.prems(2-4) p by (intro Cons.IH) (auto simp: names)
  then show ?case by (simp add: add_edges_def names)
qed (simp add: add_edges_def)

lemma aggregate_parents_ok:
  "aggregate_parents ns m = Some as \<Longrightarrow>
    length as = length ns \<and> (\<forall>n \<in> set ns. canBeSource n (dir m) \<and>
      (\<exists>a b. getBattery n (dir m) = Some a \<and> heap (sys m) a = Some b \<and> current_mA (bat_status b) = 0))"
  by (induction ns arbitrary: as)
    (auto simp: aggregate_parent_def split: option.splits if_splits)

section \<open>A refused partition leaves its manager with dead children\<close>

lemma free_dead: "heap (fold free as s) a = (if a \<in> set as then None else heap s a)"
  by (induction as arbitrary: s) (auto simp: free_def)

lemma enter_partitions_dead:
  assumes "enter_partitions pm xs m = (False, m')"
  shows "\<exists>a \<in> set (map snd xs). heap (sys m') a = None"
  using assms
proof (induction xs arbitrary: m)
  case (Cons x xs)
  obtain n a where x: "x = (n, a)" by (cases x)
  obtain ok d where add: "addBattery n a (dir m) = (ok, d)" by (cases "addBattery n a (dir m)")
  show ?case
  proof (cases ok)
    case True
    with Cons.prems x add have "enter_partitions pm xs (m\<lparr>dir := snd (addEdge pm n d)\<rparr>) = (False, m')"
      by simp
    from Cons.IH [OF this] show ?thesis by simp
  next
    case False
    with Cons.prems x add have "sys m' = fold free (a # map snd xs) (sys m)" by auto
    then have "heap (sys m') a = None" using free_dead [of "a # map snd xs" "sys m" a] by simp
    then show ?thesis by (simp add: x)
  qed
qed simp

lemma refreshProportional_dead:
  assumes "\<exists>c \<in> set cs. heap s c = None" and "length cs \<le> length props"
  shows "refreshProportional st props cs s = Inl Null_deref"
proof -
  let ?f = "\<lambda>index s. obind (deref (cs ! index) s) (\<lambda>_.
        if index < length props then
          Inr (upd (cs ! index)
            (setMaxDischargingCurrent (max_discharging_current_mA st * charge_proportion (props ! index)) \<circ>
             setMaxChargingCurrent (max_charging_current_mA st * charge_proportion (props ! index))) s)
        else Inl Bad_index)"
  have loop: "ofold ?f ks s = Inl Null_deref"
    if "\<exists>i \<in> set ks. heap s (cs ! i) = None" and "\<forall>i \<in> set ks. i < length props" for ks s
    using that
  proof (induction ks arbitrary: s)
    case (Cons i ks)
    show ?case
    proof (cases "heap s (cs ! i)")
      case (Some b)
      then have "\<exists>j \<in> set ks. heap (upd a g s) (cs ! j) = None" for a g
        using Cons.prems(1) by (auto simp: upd_def)
      with Some Cons show ?thesis by (simp add: deref_def)
    qed (simp add: deref_def)
  qed simp
  have "\<exists>i \<in> set [0..<length cs]. heap s (cs ! i) = None"
    using assms(1) by (force simp: in_set_conv_nth)
  then show ?thesis unfolding refreshProportional_def by (rule loop) (use assms(2) in auto)
qed

section \<open>Properties of the directory manager\<close>

definition sample_manager :: "unit manager" where
  "sample_manager =
     \<lparr>dir = \<lparr>destroyed = False, childGraph = [], parentGraph = [], batteryMap = [(''src'', 0)]\<rparr>,
      pManagerCounter = 1,
      sys = \<lparr>heap = [0 \<mapsto> sample_battery ''src'' PhysicalBattery], nextAddr = 1, SEQUENCE_NUMBER = 1\<rparr>\<rparr>"

definition halves :: "Scale list" where
  "halves = [Scale_of (1 / 2), Scale_of (1 / 2)]"


lemma sample_partition_run:
  "\<exists>m'. createPartitionBattery 1 sample_env ''src'' PROPORTIONAL [''a'', ''b''] halves [1000, 1000]
     [LAZY, LAZY] sample_manager = Inr ([1, 2], m')"
  by (simp add: createPartitionBattery_def halves_def sample_manager_def Scale_of_def scale_ABS_def
      Scale_add_assign_def canBeSource_def has_key_def getBattery_def alloc_def deref_def
      sample_battery_def sample_status_def createPartitionManagerName_def new_PartitionManager_def
      checkAndRefresh_with_def is_stale_def sample_env_def convertToTimestamp_def set_status_def
      getSequenceNumber_def setSourceBattery_def initBatteryStatus_def new_Battery_def upd_def
      addBattery_def addEdge_def map_insert_def pair_less_def less_list_code Let_def)


text \<open>
  A successful creation of an aggregate over distinct parents enters it under its name, records
  exactly the given parents, all of them idle and not yet in use, and keeps the directory well formed.
\<close>

theorem createAggregate_keeps_directory:
  assumes inv: "dir_inv (dir m)" and ps: "distinct parentNames"
    and run: "createAggregateBattery now name parentNames staleness mode m = (Some a, m')"
  shows "dir_inv (dir m') \<and> parent_names (dir m') name = parentNames \<and>
    (\<forall>p \<in> set parentNames. canBeSource p (dir m) \<and>
      (\<exists>pa b. getBattery p (dir m) = Some pa \<and> heap (sys m) pa = Some b \<and> current_mA (bat_status b) = 0))"
proof -
  obtain as where as: "aggregate_parents parentNames m = Some as" "as \<noteq> []"
    using run by (auto simp: createAggregateBattery_def split: option.splits if_splits)
  note parents = aggregate_parents_ok [OF as(1)]
  have name: "\<not> has_key name (batteryMap (dir m))"
    and d': "dir m' = add_edges (map (\<lambda>p. (p, name)) parentNames) (snd (addBattery name a (dir m)))"
    using run as
    by (auto simp: createAggregateBattery_def enter_def alloc_def getSequenceNumber_def addBattery_def
        Let_def split: option.splits if_splits)
  let ?d = "snd (addBattery name a (dir m))"
  have d: "?d = (dir m)\<lparr>batteryMap := map_insert (<) name a (batteryMap (dir m))\<rparr>"
    using name by (simp add: addBattery_def)
  have "str.wf_map (batteryMap (dir m))" using inv by (simp add: dir_inv_def)
  then have keys: "has_key k (batteryMap ?d) \<longleftrightarrow> k = name \<or> has_key k (batteryMap (dir m))" for k
    using map_of_batteryMap_add [OF _ name] by (simp add: d has_key_def)
  have names: "child_names ?d = child_names (dir m)" "parent_names ?d = parent_names (dir m)"
    by (simp_all add: d)
  have "\<forall>p \<in> set parentNames. has_key p (batteryMap ?d) \<and> child_names ?d p = [] \<and> p \<noteq> name"
    using parents name by (auto simp: keys names dest: canBeSource_leaf)
  then have "dir_inv (add_edges (map (\<lambda>p. (p, name)) parentNames) ?d) \<and>
      parent_names (add_edges (map (\<lambda>p. (p, name)) parentNames) ?d) name = parent_names ?d name @ parentNames"
    using fresh_name [OF inv name] ps keys
    by (intro add_edges_aggregate addBattery_inv [OF inv]) (auto simp: names)
  then have "dir_inv (dir m') \<and> parent_names (dir m') name = parentNames"
    unfolding d' names fresh_name(2) [OF inv name] by simp
  with parents show ?thesis by blast
qed

lemma sample_manager_dir: "dir_inv (dir sample_manager)"
  by (auto simp: dir_inv_def sample_manager_def neighbours_def edges_def ranked_def)

theorem createAggregate_keeps_directory_witness:
  "\<exists>m' :: unit manager. dir_inv (dir m') \<and> parent_names (dir m') ''agg'' = [''src''] \<and>
    (\<forall>p \<in> set [''src'']. canBeSource p (dir sample_manager) \<and>
      (\<exists>pa b. getBattery p (dir sample_manager) = Some pa \<and> heap (sys sample_manager) pa = Some b \<and>
        current_mA (bat_status b) = 0))"
proof -
  obtain m' where "createAggregateBattery 100 ''agg'' [''src''] 1000 LAZY sample_manager = (Some 1, m')"
    by (simp add: createAggregateBattery_def aggregate_parent_def sample_manager_def getBattery_def
        canBeSource_def has_key_def sample_battery_def sample_status_def enter_def alloc_def
        getSequenceNumber_def addBattery_def Let_def)
  from createAggregate_keeps_directory [OF sample_manager_dir _ this] show ?thesis by fastforce
qed

text \<open>
  When the creation of partitions stops at a name that is taken, the manager it has already put
  into the directory keeps children that are destroyed: the next refresh of a proportional manager
  dereferences a null pointer.
\<close>

theorem refused_partition_dangles:
  assumes "enter_partitions pm xs m = (False, m')" and "length xs \<le> length props"
  shows "refreshProportional st props (map snd xs) (sys m') = Inl Null_deref"
  using enter_partitions_dead [OF assms(1)] assms(2) by (intro refreshProportional_dead) auto

theorem refused_partition_dangles_witness:
  "refreshProportional sample_status halves (map snd [(''a'', 5), (''src'', 6)])
     (sys (snd (enter_partitions ''pm'' [(''a'', 5), (''src'', 6)] sample_manager))) = Inl Null_deref"
  by (rule refused_partition_dangles [where pm = "''pm''" and m = sample_manager])
    (simp_all add: prod_eq_iff halves_def sample_manager_def addBattery_def has_key_def map_insert_def
      pair_less_def less_list_code addEdge_def)

text \<open>
  An aggregate may name a parent twice; the parent can then not be removed: the second visit to
  the child finds it gone, the removal reports failure and the parent stays in the directory.
\<close>

theorem repeated_parent_blocks_removal:
  "\<exists>a m' m''. createAggregateBattery 100 ''agg'' [''src'', ''src''] 1000 LAZY sample_manager = (Some a, m') \<and>
    manager_removeBattery (Suc (Suc n)) ''src'' m' = Inr (False, m'') \<and>
    getBattery ''src'' (dir m'') = Some 0 \<and> getBattery ''agg'' (dir m'') = None"
  by (simp add: createAggregateBattery_def aggregate_parent_def sample_manager_def getBattery_def
      canBeSource_def has_key_def sample_battery_def sample_status_def enter_def alloc_def
      getSequenceNumber_def addBattery_def Let_def add_edges_def addEdge_def map_insert_def
      pair_less_def less_list_code graph_index_def map_update_def manager_removeBattery_def deref_def
      remove_named_def remove_entry_def unlink_parent_def map_erase_def)

end
