(* ===== verification/V3_BOS.thy ===== *)
theory V3_BOS
  imports V3_Manager
begin

text \<open>
  The server of BatteryOS-V3 (\<open>BOS.cpp\<close>, \<open>ProtoParameters.cpp\<close>): the admin and battery commands, how
  their parameters are read from the messages, and the response each handler writes. A connection
  delivers a parsed message or nothing; writing a response is an output of the handler. Protobuf
  enumerations are open, so that an enumeration field is the integer on the wire.
\<close>

section \<open>Messages\<close>

record Physical_Msg =
  p_batteryname :: string
  p_max_staleness :: "64 word option"
  p_refresh_mode :: "int option"

record Dynamic_Msg =
  d_batteryname :: string
  d_refresh_func :: string
  d_destructor_func :: string
  d_constructor_func :: string
  d_set_current_func :: string
  d_arguments :: "string list"
  d_max_staleness :: "64 word option"
  d_refresh_mode :: "int option"

record Aggregate_Msg =
  a_batteryname :: string
  a_parentnames :: "string list"
  a_max_staleness :: "64 word option"
  a_refresh_mode :: "int option"

record Partition_Msg =
  t_sourcename :: string
  t_policy :: int
  t_names :: "string list"
  t_scales :: "(real \<times> real) list"
  t_max_stalenesses :: "64 word list"
  t_refresh_modes :: "int list"

record Secure_Msg =
  s_batteryname :: string
  s_numclients :: "64 word"

datatype Admin_Params =
    No_admin_params
  | Physical_params Physical_Msg
  | Aggregate_params Aggregate_Msg
  | Partition_params Partition_Msg
  | Dynamic_params Dynamic_Msg
  | Secure_params Secure_Msg

record Admin_Command =
  command_options :: int
  command_parameters :: Admin_Params

record ScheduleSetCurrent =
  ssc_current_ma :: real
  ssc_starttime :: "64 word"
  ssc_endtime :: "64 word"

datatype Schedule_Params =
    No_params
  | Status_params ProtoStatus
  | Schedule_params ScheduleSetCurrent
  | Set_schedule_params string

record BatteryCommand =
  command :: int
  schedule_parameters :: Schedule_Params

datatype response =
    BatteryStatusResponse int ProtoStatus
  | SetStatusResponse int string
  | ScheduleSetCurrentResponse int string
  | AdminResponse int string
  | ConnectResponse int

section \<open>Parameters\<close>

definition parse_staleness :: "64 word option \<Rightarrow> int" where
  "parse_staleness ms = (case ms of Some w \<Rightarrow> sint w | None \<Rightarrow> 1000)"

definition parse_mode :: "int \<Rightarrow> RefreshMode" where
  "parse_mode r = (if r = 0 then LAZY else ACTIVE)"

definition parse_refresh :: "int option \<Rightarrow> RefreshMode" where
  "parse_refresh r = (case r of Some k \<Rightarrow> parse_mode k | None \<Rightarrow> LAZY)"

record paramsPhysical =
  pp_name :: string
  pp_refresh :: RefreshMode
  pp_staleness :: int

definition parsePhysicalBattery :: "Physical_Msg \<Rightarrow> paramsPhysical" where
  "parsePhysicalBattery msg =
     \<lparr>pp_name = p_batteryname msg, pp_refresh = parse_refresh (p_refresh_mode msg),
      pp_staleness = parse_staleness (p_max_staleness msg)\<rparr>"

record paramsDynamic =
  pd_name :: string
  pd_refresh :: RefreshMode
  pd_initArgs :: "string list"
  pd_destructor :: string
  pd_staleness :: int
  pd_constructor :: string
  pd_refreshFunc :: string
  pd_setCurrentFunc :: string

definition parseDynamicBattery :: "Dynamic_Msg \<Rightarrow> paramsDynamic" where
  "parseDynamicBattery msg =
     \<lparr>pd_name = d_batteryname msg, pd_refresh = parse_refresh (d_refresh_mode msg),
      pd_initArgs = d_arguments msg, pd_destructor = d_destructor_func msg,
      pd_staleness = parse_staleness (d_max_staleness msg), pd_constructor = d_constructor_func msg,
      pd_refreshFunc = d_refresh_func msg, pd_setCurrentFunc = d_set_current_func msg\<rparr>"

record paramsAggregate =
  pa_name :: string
  pa_refresh :: RefreshMode
  pa_staleness :: int
  pa_parents :: "string list"

definition parseAggregateBattery :: "Aggregate_Msg \<Rightarrow> paramsAggregate" where
  "parseAggregateBattery msg =
     \<lparr>pa_name = a_batteryname msg, pa_refresh = parse_refresh (a_refresh_mode msg),
      pa_staleness = parse_staleness (a_max_staleness msg), pa_parents = a_parentnames msg\<rparr>"

record paramsPartition =
  pt_policy :: PolicyType
  pt_source :: string
  pt_proportions :: "Scale list"
  pt_child_names :: "string list"
  pt_refreshModes :: "RefreshMode list"
  pt_stalenesses :: "int list"

definition parsePartitionBattery :: "Partition_Msg \<Rightarrow> paramsPartition" where
  "parsePartitionBattery msg =
     \<lparr>pt_policy = (if t_policy msg = 0 then PROPORTIONAL
                   else if t_policy msg = 1 then TRANCHED else RESERVED),
      pt_source = t_sourcename msg,
      pt_proportions = map (\<lambda>(charge, capacity). Scale_of_pair capacity charge) (t_scales msg),
      pt_child_names = t_names msg,
      pt_refreshModes = map parse_mode (t_refresh_modes msg),
      pt_stalenesses = map sint (t_max_stalenesses msg)\<rparr>"

definition parseSecureBattery :: "Secure_Msg \<Rightarrow> string \<times> 32 word" where
  "parseSecureBattery msg = (s_batteryname msg, ucast (s_numclients msg))"

section \<open>State\<close>

datatype BOSMode = Network | Fifo

record 'd bos =
  directoryManager :: "'d manager"
  hasQuit :: bool
  quitPoll :: bool
  bos_mode :: BOSMode
  fifos :: "string list"
  connections :: "string list"

text \<open>
  The driver library: which symbols it has, and the driver state its constructor makes from the
  four functions and the arguments. The values uninitialised fields happen to hold are part of it.
\<close>

record 'd library =
  dlsym :: "string \<Rightarrow> bool"
  dlconstruct :: "string \<Rightarrow> string \<Rightarrow> string \<Rightarrow> string \<Rightarrow> string list \<Rightarrow> 'd"
  junk_type :: BatteryType

type_synonym 'd handled = "('d bos \<times> response list) outcome"

definition createBatteryFifos :: "string \<Rightarrow> 'd bos \<Rightarrow> 'd bos" where
  "createBatteryFifos name s =
    (case bos_mode s of Fifo \<Rightarrow> s\<lparr>fifos := fifos s @ [name]\<rparr> | Network \<Rightarrow> s)"

section \<open>Battery commands\<close>

definition bos_getStatus :: "nat \<Rightarrow> 'd env \<Rightarrow> string \<Rightarrow> 'd bos \<Rightarrow> 'd handled" where
  "bos_getStatus k env name s =
    (case getBattery name (dir (directoryManager s)) of
       None \<Rightarrow> Inl Null_deref
     | Some a \<Rightarrow>
         obind (getStatus k env a (sys (directoryManager s))) (\<lambda>(st, y).
           Inr (s\<lparr>directoryManager := (directoryManager s)\<lparr>sys := y\<rparr>\<rparr>,
                [BatteryStatusResponse 0 (toProto st)])))"

definition bos_setStatus :: "Schedule_Params \<Rightarrow> string \<Rightarrow> 'd bos \<Rightarrow> 'd handled" where
  "bos_setStatus params name s =
    (case params of
       Status_params p \<Rightarrow>
         (case getBattery name (dir (directoryManager s)) of
            None \<Rightarrow> Inr (s, [SetStatusResponse (-1) ''battery does not exist in directory!''])
          | Some a \<Rightarrow>
              Inr (s\<lparr>directoryManager := (directoryManager s)
                       \<lparr>sys := set_status a (fromProto p) (sys (directoryManager s))\<rparr>\<rparr>,
                   [SetStatusResponse 0 ''successfully set status!'']))
     | _ \<Rightarrow> Inr (s, [SetStatusResponse (-1) ''status needs to be set!'']))"

definition bos_scheduleSetCurrent ::
  "nat \<Rightarrow> 'd env \<Rightarrow> Schedule_Params \<Rightarrow> string \<Rightarrow> 'd bos \<Rightarrow> 'd handled" where
  "bos_scheduleSetCurrent k env params name s =
    (case params of
       Schedule_params p \<Rightarrow>
         (case getBattery name (dir (directoryManager s)) of
            None \<Rightarrow> Inl Null_deref
          | Some a \<Rightarrow>
              obind (schedule_ms k env (ssc_current_ma p) (ssc_starttime p) (ssc_endtime p) a
                       (sys (directoryManager s))) (\<lambda>(ok, y).
                Inr (s\<lparr>directoryManager := (directoryManager s)\<lparr>sys := y\<rparr>\<rparr>,
                     [if ok then ScheduleSetCurrentResponse 0 (''successfully set current for '' @ name)
                      else ScheduleSetCurrentResponse (-1) (''failure setting current for '' @ name)])))
     | _ \<Rightarrow> Inr (s, [ScheduleSetCurrentResponse (-1) ''must set current, start time, and end time'']))"

text \<open>
  The switch. The schedule of a secure battery goes to its collector and its own connection, which
  \<open>V3_Secure\<close> models; here the null and cast checks are kept and the state of the server stays.
\<close>

definition handleBatteryCommand ::
  "nat \<Rightarrow> 'd env \<Rightarrow> string \<Rightarrow> BatteryCommand option \<Rightarrow> 'd bos \<Rightarrow> 'd handled" where
  "handleBatteryCommand k env name msg s =
    (case msg of
       None \<Rightarrow> Inr (s, [])
     | Some c \<Rightarrow>
         if command c = 1 then bos_getStatus k env name s
         else if command c = 3 then bos_setStatus (schedule_parameters c) name s
         else if command c = 0 then bos_scheduleSetCurrent k env (schedule_parameters c) name s
         else if command c = 4 then
           (case getBattery name (dir (directoryManager s)) of
              None \<Rightarrow> Inl Null_deref
            | Some a \<Rightarrow>
                obind (deref a (sys (directoryManager s))) (\<lambda>b.
                  if kind b = SecureBattery then Inr (s, []) else Inl Bad_cast))
         else Inr (s, []))"

section \<open>Admin commands\<close>

definition admin_fail :: "string \<Rightarrow> 'd bos \<Rightarrow> 'd handled" where
  "admin_fail msg s = Inr (s, [AdminResponse (-1) msg])"

text \<open>The common end of the handlers that create one battery.\<close>

definition created :: "string \<Rightarrow> string \<Rightarrow> addr option \<times> 'd manager \<Rightarrow> 'd bos \<Rightarrow> 'd handled" where
  "created name failure r s =
    (case r of
       (None, m) \<Rightarrow> Inr (s\<lparr>directoryManager := m\<rparr>, [AdminResponse (-1) failure])
     | (Some _, m) \<Rightarrow>
         Inr (createBatteryFifos name (s\<lparr>directoryManager := m\<rparr>),
              [AdminResponse 0 (''successfully created battery: '' @ name)]))"

definition name_taken :: "string \<Rightarrow> string" where
  "name_taken name = ''battery name: '' @ name @ '' already exists''"

definition bos_createPhysicalBattery :: "'d library \<Rightarrow> Admin_Params \<Rightarrow> 'd bos \<Rightarrow> 'd handled" where
  "bos_createPhysicalBattery lib params s =
    (case params of
       Physical_params msg \<Rightarrow>
         (let b = parsePhysicalBattery msg in
          created (pp_name b) (name_taken (pp_name b))
            (createPhysicalBattery (junk_type lib) (pp_name b) (pp_staleness b) (pp_refresh b)
               (directoryManager s)) s)
     | _ \<Rightarrow> admin_fail ''Physical_Battery parameters not set!'' s)"

definition bos_createAggregateBattery :: "'d env \<Rightarrow> Admin_Params \<Rightarrow> 'd bos \<Rightarrow> 'd handled" where
  "bos_createAggregateBattery env params s =
    (case params of
       Aggregate_params msg \<Rightarrow>
         (let b = parseAggregateBattery msg in
          created (pa_name b) ''error creating aggregate battery!''
            (createAggregateBattery (getTimeNow env) (pa_name b) (pa_parents b) (pa_staleness b)
               (pa_refresh b) (directoryManager s)) s)
     | _ \<Rightarrow> admin_fail ''Aggregate_Battery parameters not set!'' s)"

definition bos_createPartitionBattery ::
  "nat \<Rightarrow> 'd env \<Rightarrow> Admin_Params \<Rightarrow> 'd bos \<Rightarrow> 'd handled" where
  "bos_createPartitionBattery k env params s =
    (case params of
       Partition_params msg \<Rightarrow>
         (let b = parsePartitionBattery msg;
              m = directoryManager s;
              result =
                (if pt_refreshModes b = [] \<and> pt_stalenesses b = [] then
                   Some (createPartitionBattery_default k env (pt_source b) (pt_policy b)
                     (pt_child_names b) (pt_proportions b) m)
                 else if pt_refreshModes b = [] \<or> pt_stalenesses b = [] then None
                 else
                   Some (createPartitionBattery k env (pt_source b) (pt_policy b) (pt_child_names b)
                     (pt_proportions b) (pt_stalenesses b) (pt_refreshModes b) m))
          in case result of
               None \<Rightarrow> admin_fail
                 ''refresh modes and stalenesses both need to be included or excluded: cannot choose one'' s
             | Some r \<Rightarrow>
                 obind r (\<lambda>(batteries, m').
                   if batteries = [] then
                     Inr (s\<lparr>directoryManager := m'\<rparr>, [AdminResponse (-1) ''error creating partition batteries!''])
                   else
                     Inr (fold createBatteryFifos (pt_child_names b) (s\<lparr>directoryManager := m'\<rparr>),
                          [AdminResponse 0 ''successfully created batteries!''])))
     | _ \<Rightarrow> admin_fail ''Partition_Battery parameters not set!'' s)"

definition bos_createDynamicBattery :: "'d library \<Rightarrow> Admin_Params \<Rightarrow> 'd bos \<Rightarrow> 'd handled" where
  "bos_createDynamicBattery lib params s =
    (case params of
       Dynamic_params msg \<Rightarrow>
         (let b = parseDynamicBattery msg in
          if \<not> dlsym lib (pd_constructor b) \<or> \<not> dlsym lib (pd_destructor b) \<or>
             \<not> dlsym lib (pd_refreshFunc b) \<or> \<not> dlsym lib (pd_setCurrentFunc b)
          then admin_fail ''function names not found in dynamic library file'' s
          else
            created (pd_name b) (name_taken (pd_name b))
              (createDynamicBattery (junk_type lib)
                 (dlconstruct lib (pd_constructor b) (pd_destructor b) (pd_refreshFunc b)
                    (pd_setCurrentFunc b) (pd_initArgs b))
                 (pd_name b) (pd_staleness b) (pd_refresh b) (directoryManager s)) s)
     | _ \<Rightarrow> admin_fail ''Dynamic_Battery parameters not set!'' s)"

definition bos_createSecureBattery :: "Admin_Params \<Rightarrow> 'd bos \<Rightarrow> 'd handled" where
  "bos_createSecureBattery params s =
    (case params of
       Secure_params msg \<Rightarrow>
         (let (name, _) = parseSecureBattery msg in
          created name (name_taken name) (createSecureBattery name (directoryManager s)) s)
     | _ \<Rightarrow> admin_fail ''Secure_Battery parameters not set!'' s)"

definition bos_shutdown :: "'d bos \<Rightarrow> 'd bos" where
  "bos_shutdown s =
     s\<lparr>hasQuit := True, quitPoll := True,
       directoryManager := manager_destroyDirectory (directoryManager s)\<rparr>"

definition handleAdminCommand ::
  "nat \<Rightarrow> 'd env \<Rightarrow> 'd library \<Rightarrow> Admin_Command option \<Rightarrow> 'd bos \<Rightarrow> 'd handled" where
  "handleAdminCommand k env lib msg s =
    (case msg of
       None \<Rightarrow> Inr (s, [])
     | Some c \<Rightarrow>
         (let opt = command_options c; params = command_parameters c in
          if opt = 0 then bos_createPhysicalBattery lib params s
          else if opt = 1 then bos_createAggregateBattery env params s
          else if opt = 2 then bos_createPartitionBattery k env params s
          else if opt = 3 then bos_createDynamicBattery lib params s
          else if opt = 5 then bos_createSecureBattery params s
          else if opt = 4 then Inr (bos_shutdown s, [])
          else admin_fail ''Invalid admin command!'' s))"

section \<open>Connections\<close>

text \<open>
  A battery connection on a socket. \<open>BatteryConnection::read\<close> returns the boolean of the parser, so
  that its result is never the \<open>-1\<close> the handler tests for; a message that does not parse leaves the
  empty name.
\<close>

definition bos_connect :: "string option \<Rightarrow> 'd bos \<Rightarrow> 'd bos \<times> response list" where
  "bos_connect msg s =
    (let bytes_read = (case msg of None \<Rightarrow> 0 | Some _ \<Rightarrow> (1 :: int));
         name = (case msg of None \<Rightarrow> [] | Some n \<Rightarrow> n)
     in if bytes_read = - 1 then (s, [ConnectResponse 1])
        else if getBattery name (dir (directoryManager s)) = None then (s, [ConnectResponse 2])
        else (s\<lparr>connections := connections s @ [name]\<rparr>, [ConnectResponse 0]))"

section \<open>Properties of the server\<close>

definition sample_bos :: "unit bos" where
  "sample_bos = \<lparr>directoryManager = sample_manager, hasQuit = False, quitPoll = False,
     bos_mode = Network, fifos = [], connections = [''src'']\<rparr>"

lemma sample_bos_wf: "wf_system (sys (directoryManager sample_bos))"
  by (auto simp: wf_system_def wf_links_def queues_ok_def sample_bos_def sample_manager_def
      skel_at_def sample_battery_def links_ok_def queue_inv_def split: if_splits)

lemma sample_bos_src: "getBattery ''src'' (dir (directoryManager sample_bos)) = Some 0"
  "skel_at (sys (directoryManager sample_bos)) 0 = Some PhysicalBattery"
  "rank (sys (directoryManager sample_bos)) 0 = 0"
  by (simp_all add: sample_bos_def sample_manager_def getBattery_def skel_at_def sample_battery_def rank_def)

text \<open>
  A status query for a live battery of a well-formed system is answered by exactly one response
  with return code zero, whose status, read back, is the one \<open>getStatus\<close> computed; the system stays
  well formed and the directory is not touched.
\<close>

theorem server_answers_status:
  assumes wf: "wf_system (sys (directoryManager s))"
    and a: "getBattery name (dir (directoryManager s)) = Some a"
    and alive: "skel_at (sys (directoryManager s)) a \<noteq> None"
    and k: "rank (sys (directoryManager s)) a < k" and c: "command c = 1"
  shows "\<exists>st p s'. getStatus k env a (sys (directoryManager s)) = Inr (st, sys (directoryManager s')) \<and>
    handleBatteryCommand k env name (Some c) s = Inr (s', [BatteryStatusResponse 0 p]) \<and>
    fromProto p = st \<and> wf_system (sys (directoryManager s')) \<and>
    dir (directoryManager s') = dir (directoryManager s)"
proof -
  obtain st y where run: "getStatus k env a (sys (directoryManager s)) = Inr (st, y)"
    and fr: "frames y = frames (sys (directoryManager s))"
    using getStatus_total [of "sys (directoryManager s)" a k env] wf alive k
    by (auto simp: wf_system_def)
  have "wf_system y" using wf_system_cong [OF fr] wf by simp
  with run a c show ?thesis
    by (auto simp: handleBatteryCommand_def bos_getStatus_def
        intro!: exI [of _ "s\<lparr>directoryManager := (directoryManager s)\<lparr>sys := y\<rparr>\<rparr>"])
qed

theorem server_answers_status_witness:
  "\<exists>st p s'. getStatus 1 sample_env 0 (sys (directoryManager sample_bos)) = Inr (st, sys (directoryManager s')) \<and>
    handleBatteryCommand 1 sample_env ''src'' (Some \<lparr>command = 1, schedule_parameters = No_params\<rparr>) sample_bos =
      Inr (s', [BatteryStatusResponse 0 p]) \<and>
    fromProto p = st \<and> wf_system (sys (directoryManager s')) \<and>
    dir (directoryManager s') = dir (directoryManager sample_bos)"
  by (rule server_answers_status [OF sample_bos_wf]) (simp_all add: sample_bos_src)

text \<open>
  A status set through the server is the one a query right after it returns, as long as the
  battery is refreshed actively or the status is not stale at the time of the query.
\<close>

theorem set_status_then_query:
  assumes a: "getBattery name (dir (directoryManager s)) = Some a"
    and b: "heap (sys (directoryManager s)) a = Some b"
    and fresh: "refreshMode b = ACTIVE \<or>
      \<not> is_stale (getTimeNow env) (b\<lparr>bat_status := fromProto p\<rparr>)"
    and set: "command c = 3" "schedule_parameters c = Status_params p" and query: "command c' = 1"
  shows "\<exists>s1 s2. handleBatteryCommand k env name (Some c) s =
      Inr (s1, [SetStatusResponse 0 ''successfully set status!'']) \<and>
    handleBatteryCommand (Suc k) env name (Some c') s1 = Inr (s2, [BatteryStatusResponse 0 p])"
proof -
  let ?y = "set_status a (fromProto p) (sys (directoryManager s))"
  have "heap ?y a = Some (b\<lparr>bat_status := fromProto p\<rparr>)" using b by (simp add: set_status_def upd_def)
  then have "fresh_at (getTimeNow env) ?y a" "status_at ?y a = fromProto p"
    using fresh by (auto simp: fresh_at_def status_at_def)
  then have "getStatus (Suc k) env a ?y = Inr (fromProto p, ?y)"
    using getStatus_fresh [of env ?y a k] by simp
  then show ?thesis using a set query
    by (simp add: handleBatteryCommand_def bos_setStatus_def bos_getStatus_def del: getStatus.simps)
qed

theorem set_status_then_query_witness:
  "\<exists>s1 s2. handleBatteryCommand 1 sample_env ''src''
      (Some \<lparr>command = 3, schedule_parameters = Status_params (toProto sample_status)\<rparr>) sample_bos =
      Inr (s1, [SetStatusResponse 0 ''successfully set status!'']) \<and>
    handleBatteryCommand (Suc 1) sample_env ''src'' (Some \<lparr>command = 1, schedule_parameters = No_params\<rparr>) s1 =
      Inr (s2, [BatteryStatusResponse 0 (toProto sample_status)])"
  by (rule set_status_then_query [OF sample_bos_src(1)])
    (auto simp: sample_bos_def sample_manager_def is_stale_def sample_env_def convertToTimestamp_def
      sample_status_def sample_battery_def)

text \<open>
  A connection outlives the battery it names. When the battery is no longer in the directory,
  a status query or a request dereferences a null pointer, while setting a status is answered with
  an error.
\<close>

theorem query_of_removed_battery:
  assumes "getBattery name (dir (directoryManager s)) = None"
  shows "handleBatteryCommand k env name (Some \<lparr>command = 1, schedule_parameters = q\<rparr>) s = Inl Null_deref \<and>
    handleBatteryCommand k env name (Some \<lparr>command = 0, schedule_parameters = Schedule_params r\<rparr>) s = Inl Null_deref \<and>
    handleBatteryCommand k env name (Some \<lparr>command = 3, schedule_parameters = Status_params p\<rparr>) s =
      Inr (s, [SetStatusResponse (-1) ''battery does not exist in directory!''])"
  using assms
  by (simp add: handleBatteryCommand_def bos_getStatus_def bos_scheduleSetCurrent_def bos_setStatus_def)

theorem query_of_removed_battery_witness:
  "handleBatteryCommand 1 sample_env ''gone'' (Some \<lparr>command = 1, schedule_parameters = No_params\<rparr>) sample_bos =
      Inl Null_deref \<and>
    handleBatteryCommand 1 sample_env ''gone'' (Some \<lparr>command = 0, schedule_parameters =
      Schedule_params \<lparr>ssc_current_ma = 1, ssc_starttime = 200, ssc_endtime = 300\<rparr>\<rparr>) sample_bos = Inl Null_deref \<and>
    handleBatteryCommand 1 sample_env ''gone'' (Some \<lparr>command = 3, schedule_parameters =
      Status_params (toProto sample_status)\<rparr>) sample_bos =
      Inr (sample_bos, [SetStatusResponse (-1) ''battery does not exist in directory!''])"
  by (rule query_of_removed_battery) (simp add: sample_bos_def sample_manager_def getBattery_def)

text \<open>
  A socket connection is accepted exactly when the battery it asks for is in the directory, and
  is refused as non-existent otherwise; the generic error is never sent, not even for a message that
  does not parse.
\<close>

theorem connect_accepts_known:
  "snd (bos_connect msg s) =
    [ConnectResponse (if getBattery (case msg of None \<Rightarrow> [] | Some n \<Rightarrow> n) (dir (directoryManager s)) = None
      then 2 else 0)]"
  by (simp add: bos_connect_def Let_def split: option.splits)

text \<open>
  The creation of a physical battery under a name that is taken is refused, and leaves the
  directory and every existing battery as they were.
\<close>

theorem taken_name_refused:
  assumes "nameExists (p_batteryname msg) (dir (directoryManager s))"
  shows "\<exists>s'. handleAdminCommand k env lib
      (Some \<lparr>command_options = 0, command_parameters = Physical_params msg\<rparr>) s =
      Inr (s', [AdminResponse (-1) (name_taken (p_batteryname msg))]) \<and>
    dir (directoryManager s') = dir (directoryManager s) \<and>
    (\<forall>a < nextAddr (sys (directoryManager s)).
      heap (sys (directoryManager s')) a = heap (sys (directoryManager s)) a)"
  using assms
  by (auto simp: handleAdminCommand_def bos_createPhysicalBattery_def createPhysicalBattery_def
      parsePhysicalBattery_def enter_def alloc_def free_def addBattery_def nameExists_def created_def)

theorem taken_name_refused_witness:
  "\<exists>s'. handleAdminCommand 1 sample_env
      \<lparr>dlsym = \<lambda>_. False, dlconstruct = \<lambda>_ _ _ _ _. (), junk_type = Physical\<rparr>
      (Some \<lparr>command_options = 0, command_parameters = Physical_params
        \<lparr>p_batteryname = ''src'', p_max_staleness = None, p_refresh_mode = None\<rparr>\<rparr>) sample_bos =
      Inr (s', [AdminResponse (-1) (name_taken (p_batteryname
        \<lparr>p_batteryname = ''src'', p_max_staleness = None, p_refresh_mode = None\<rparr>))]) \<and>
    dir (directoryManager s') = dir (directoryManager sample_bos) \<and>
    (\<forall>a < nextAddr (sys (directoryManager sample_bos)).
      heap (sys (directoryManager s')) a = heap (sys (directoryManager sample_bos)) a)"
  by (rule taken_name_refused) (simp add: sample_bos_def sample_manager_def nameExists_def has_key_def)

end
