(* ===== verification/V3_Client.thy ===== *)
theory V3_Client
  imports V3_BOS
begin

text \<open>
  The clients of the V3 server: the administrator (\<open>Admin.cpp\<close>), the remote battery over a socket or a
  FIFO (\<open>ClientBattery.cpp\<close>, \<open>FifoBattery.cpp\<close>) and the client of a secure battery
  (\<open>SecureClientBattery.cpp\<close>). A client writes a command and reads the response; what happens in
  between is its peer, a parameter of the operations. The peer returns the fields of the response
  or \<open>None\<close> when the response does not parse.
\<close>

type_synonym ('c, 'r, 's) peer = "'c \<Rightarrow> 's \<Rightarrow> ('r option \<times> 's) outcome"

section \<open>The administrator\<close>

definition refresh_code :: "RefreshMode \<Rightarrow> int" where
  "refresh_code mode = (if mode = LAZY then 0 else 1)"

definition policy_code :: "PolicyType \<Rightarrow> int" where
  "policy_code policy =
     (if policy = PROPORTIONAL then 0 else if policy = TRANCHED then 1 else 2)"

text \<open>The end all requests share: an unreadable response and the return code \<open>-1\<close> mean failure.\<close>

definition admin_request :: "(Admin_Command, int, 's) peer \<Rightarrow> Admin_Command \<Rightarrow> 's \<Rightarrow> (bool \<times> 's) outcome" where
  "admin_request peer cmd s =
    obind (peer cmd s) (\<lambda>(r, s').
      Inr (case r of None \<Rightarrow> False | Some code \<Rightarrow> code \<noteq> - 1, s'))"

definition Admin_createPhysicalBattery ::
  "(Admin_Command, int, 's) peer \<Rightarrow> string \<Rightarrow> int \<Rightarrow> RefreshMode \<Rightarrow> 's \<Rightarrow> (bool \<times> 's) outcome" where
  "Admin_createPhysicalBattery peer name ms mode s =
    admin_request peer
      \<lparr>command_options = 0,
       command_parameters = Physical_params
         \<lparr>p_batteryname = name, p_max_staleness = Some (word_of_int ms),
          p_refresh_mode = Some (refresh_code mode)\<rparr>\<rparr> s"

text \<open>The body of this request is commented out in the sources.\<close>

definition Admin_createDynamicBattery ::
  "string list \<Rightarrow> string \<Rightarrow> string \<Rightarrow> string \<Rightarrow> string \<Rightarrow> string \<Rightarrow> int \<Rightarrow> RefreshMode \<Rightarrow> 's \<Rightarrow>
   (bool \<times> 's) outcome" where
  "Admin_createDynamicBattery initArgs destructor constructor refreshFun setCurrentFun name ms mode s =
     Inr (True, s)"

definition Admin_createAggregateBattery ::
  "(Admin_Command, int, 's) peer \<Rightarrow> string \<Rightarrow> string list \<Rightarrow> int \<Rightarrow> RefreshMode \<Rightarrow> 's \<Rightarrow>
   (bool \<times> 's) outcome" where
  "Admin_createAggregateBattery peer name parentNames ms mode s =
    admin_request peer
      \<lparr>command_options = 1,
       command_parameters = Aggregate_params
         \<lparr>a_batteryname = name, a_parentnames = parentNames, a_max_staleness = Some (word_of_int ms),
          a_refresh_mode = Some (refresh_code mode)\<rparr>\<rparr> s"

definition Admin_createPartitionBattery ::
  "(Admin_Command, int, 's) peer \<Rightarrow> string \<Rightarrow> PolicyType \<Rightarrow> string list \<Rightarrow> Scale list \<Rightarrow> int list \<Rightarrow>
   RefreshMode list \<Rightarrow> 's \<Rightarrow> (bool \<times> 's) outcome" where
  "Admin_createPartitionBattery peer sourceName policy names proportions stalenesses modes s =
    admin_request peer
      \<lparr>command_options = 2,
       command_parameters = Partition_params
         \<lparr>t_sourcename = sourceName, t_policy = policy_code policy, t_names = names,
          t_scales = map (\<lambda>p. (charge_proportion p, capacity_proportion p)) proportions,
          t_max_stalenesses = map word_of_int stalenesses, t_refresh_modes = map refresh_code modes\<rparr>\<rparr> s"

definition Admin_createPartitionBattery_default ::
  "(Admin_Command, int, 's) peer \<Rightarrow> string \<Rightarrow> PolicyType \<Rightarrow> string list \<Rightarrow> Scale list \<Rightarrow> 's \<Rightarrow>
   (bool \<times> 's) outcome" where
  "Admin_createPartitionBattery_default peer sourceName policy names proportions s =
     Admin_createPartitionBattery peer sourceName policy names proportions [] [] s"

definition Admin_createSecureBattery ::
  "(Admin_Command, int, 's) peer \<Rightarrow> string \<Rightarrow> 64 word \<Rightarrow> 's \<Rightarrow> (bool \<times> 's) outcome" where
  "Admin_createSecureBattery peer name num_clients s =
    admin_request peer
      \<lparr>command_options = 5,
       command_parameters = Secure_params \<lparr>s_batteryname = name, s_numclients = num_clients\<rparr>\<rparr> s"

text \<open>\<open>write\<close> always reports success, and nothing is read back.\<close>

definition Admin_shutdown :: "(Admin_Command \<Rightarrow> 's \<Rightarrow> 's outcome) \<Rightarrow> 's \<Rightarrow> (bool \<times> 's) outcome" where
  "Admin_shutdown send s =
    obind (send \<lparr>command_options = 4, command_parameters = No_admin_params\<rparr> s) (\<lambda>s'. Inr (True, s'))"

section \<open>The remote battery over a socket\<close>

text \<open>
  The answer to the connection request. The code tests \<open>DoesNotExist\<close> (2) twice and
  \<open>GenericError\<close> never; a response that does not parse leaves the default \<open>Success\<close> (0).
\<close>

definition ClientBattery_connect :: "int option \<Rightarrow> unit outcome" where
  "ClientBattery_connect r =
    (let status_code = (case r of None \<Rightarrow> 0 | Some c \<Rightarrow> c) in
     if status_code = 2 then Inl Process_exit
     else if status_code = 2 then Inl Process_exit
     else Inr ())"

definition ClientBattery_getStatus ::
  "(BatteryCommand, int \<times> ProtoStatus option, 's) peer \<Rightarrow> 's \<Rightarrow> (BatteryStatus \<times> 's) outcome" where
  "ClientBattery_getStatus peer s =
    obind (peer \<lparr>command = 1, schedule_parameters = No_params\<rparr> s) (\<lambda>(r, s').
      case r of
        None \<Rightarrow> Inl Runtime_error
      | Some (_, None) \<Rightarrow> Inl Runtime_error
      | Some (_, Some p) \<Rightarrow> Inr (fromProto p, s'))"

definition ClientBattery_setBatteryStatus ::
  "(BatteryCommand, int, 's) peer \<Rightarrow> BatteryStatus \<Rightarrow> 's \<Rightarrow> (bool \<times> 's) outcome" where
  "ClientBattery_setBatteryStatus peer st s =
    obind (peer \<lparr>command = 3, schedule_parameters = Status_params (toProto st)\<rparr> s) (\<lambda>(r, s').
      case r of
        None \<Rightarrow> Inr (False, s')
      | Some code \<Rightarrow> if code = - 1 then Inr (False, s') else Inr (True, s'))"

definition schedule_command :: "real \<Rightarrow> 64 word \<Rightarrow> 64 word \<Rightarrow> BatteryCommand" where
  "schedule_command c st en =
     \<lparr>command = 0,
      schedule_parameters = Schedule_params \<lparr>ssc_current_ma = c, ssc_starttime = st, ssc_endtime = en\<rparr>\<rparr>"

text \<open>The return code of the response is not looked at.\<close>

definition ClientBattery_schedule_set_current ::
  "(BatteryCommand, int, 's) peer \<Rightarrow> real \<Rightarrow> 64 word \<Rightarrow> 64 word \<Rightarrow> 's \<Rightarrow> (bool \<times> 's) outcome" where
  "ClientBattery_schedule_set_current peer c st en s =
    obind (peer (schedule_command c st en) s) (\<lambda>(r, s').
      case r of None \<Rightarrow> Inr (False, s') | Some _ \<Rightarrow> Inr (True, s'))"

definition ClientBattery_schedule_at ::
  "(BatteryCommand, int, 's) peer \<Rightarrow> real \<Rightarrow> timepoint \<Rightarrow> timepoint \<Rightarrow> 's \<Rightarrow> (bool \<times> 's) outcome" where
  "ClientBattery_schedule_at peer c startTime endTime s =
     ClientBattery_schedule_set_current peer c (word_of_int startTime) (word_of_int endTime) s"

section \<open>The remote battery over a FIFO\<close>

text \<open>\<open>opened\<close>: whether both FIFOs open; otherwise \<open>ERROR\<close> ends the process.\<close>

definition FifoBattery_getStatus ::
  "bool \<Rightarrow> (BatteryCommand, int \<times> ProtoStatus option, 's) peer \<Rightarrow> 's \<Rightarrow> (BatteryStatus \<times> 's) outcome" where
  "FifoBattery_getStatus opened peer s =
    (if \<not> opened then Inl Process_exit
     else
       obind (peer \<lparr>command = 1, schedule_parameters = No_params\<rparr> s) (\<lambda>(r, s').
         case r of
           None \<Rightarrow> Inr (default_status, s')
         | Some (_, None) \<Rightarrow> Inr (default_status, s')
         | Some (_, Some p) \<Rightarrow>
             Inr (\<lparr>voltage_mV = pb_voltage_mv p, current_mA = pb_current_ma p,
                   capacity_mAh = pb_capacity_mah p, max_capacity_mAh = pb_max_capacity_mah p,
                   max_charging_current_mA = pb_max_charging_current_ma p,
                   max_discharging_current_mA = pb_max_discharging_current_ma p,
                   status_time = pb_timestamp p\<rparr>, s')))"

definition FifoBattery_setBatteryStatus ::
  "bool \<Rightarrow> (BatteryCommand, int, 's) peer \<Rightarrow> BatteryStatus \<Rightarrow> 's \<Rightarrow> (bool \<times> 's) outcome" where
  "FifoBattery_setBatteryStatus opened peer st s =
    (if \<not> opened then Inl Process_exit
     else
       obind (peer \<lparr>command = 3, schedule_parameters = Status_params
                     \<lparr>pb_voltage_mv = voltage_mV st, pb_current_ma = current_mA st,
                      pb_capacity_mah = capacity_mAh st, pb_max_capacity_mah = max_capacity_mAh st,
                      pb_max_charging_current_ma = max_charging_current_mA st,
                      pb_max_discharging_current_ma = max_discharging_current_mA st,
                      pb_timestamp = status_time st\<rparr>\<rparr> s) (\<lambda>(r, s').
         case r of
           None \<Rightarrow> Inr (False, s')
         | Some code \<Rightarrow> if code = - 1 then Inr (False, s') else Inr (True, s')))"

definition FifoBattery_schedule_set_current ::
  "bool \<Rightarrow> (BatteryCommand, int, 's) peer \<Rightarrow> real \<Rightarrow> 64 word \<Rightarrow> 64 word \<Rightarrow> 's \<Rightarrow> (bool \<times> 's) outcome" where
  "FifoBattery_schedule_set_current opened peer c st en s =
    (if \<not> opened then Inl Process_exit
     else
       obind (peer (schedule_command c st en) s) (\<lambda>(r, s').
         case r of
           None \<Rightarrow> Inr (False, s')
         | Some code \<Rightarrow> if code = - 1 then Inr (False, s') else Inr (True, s')))"

definition FifoBattery_schedule_at ::
  "bool \<Rightarrow> (BatteryCommand, int, 's) peer \<Rightarrow> real \<Rightarrow> timepoint \<Rightarrow> timepoint \<Rightarrow> 's \<Rightarrow>
   (bool \<times> 's) outcome" where
  "FifoBattery_schedule_at opened peer c startTime endTime s =
     FifoBattery_schedule_set_current opened peer c (word_of_int startTime) (word_of_int endTime) s"

section \<open>The client of a secure battery\<close>

text \<open>
  \<open>localtime\<close> (the hour and the minute of a time in seconds) depends on the time zone and is a
  parameter, as is \<open>client_submit\<close> of the secret-sharing library, which hands the shares of the
  schedule to a callback. The conversion of a \<open>double\<close> to \<open>uint32_t\<close> goes through 64 bits.
\<close>

record secure_client =
  schedule :: "32 word list"
  to_battery :: "string list"
  to_aggregator :: "string list"

definition new_SecureClientBattery :: secure_client where
  "new_SecureClientBattery = \<lparr>schedule = replicate 1440 0, to_battery = [], to_aggregator = []\<rparr>"

definition minute_of_day :: "(int \<Rightarrow> int \<times> int) \<Rightarrow> 64 word \<Rightarrow> int" where
  "minute_of_day localtime t = (let (tm_hour, tm_min) = localtime (sint t) in tm_hour * 60 + tm_min)"

definition to_uint32 :: "real \<Rightarrow> 32 word" where
  "to_uint32 c = word_of_int (to_int64 c)"

definition write_minute :: "32 word \<Rightarrow> int \<Rightarrow> secure_client \<Rightarrow> secure_client outcome" where
  "write_minute v i s =
    (if 0 \<le> i \<and> i < int (length (schedule s)) then Inr (s\<lparr>schedule := (schedule s)[nat i := v]\<rparr>)
     else Inl Bad_index)"

definition SecureClientBattery_schedule_set_current ::
  "(int \<Rightarrow> int \<times> int) \<Rightarrow> real \<Rightarrow> 64 word \<Rightarrow> 64 word \<Rightarrow> secure_client \<Rightarrow> (bool \<times> secure_client) outcome" where
  "SecureClientBattery_schedule_set_current localtime c startTime endTime s =
    (let start_min = minute_of_day localtime startTime;
         end_min = minute_of_day localtime endTime in
     obind (ofold (write_minute (to_uint32 c)) [start_min..end_min - 1] s) (\<lambda>s'. Inr (False, s')))"

definition SecureClientBattery_schedule_at ::
  "(int \<Rightarrow> int \<times> int) \<Rightarrow> real \<Rightarrow> timepoint \<Rightarrow> timepoint \<Rightarrow> secure_client \<Rightarrow> (bool \<times> secure_client) outcome" where
  "SecureClientBattery_schedule_at localtime c startTime endTime s =
     SecureClientBattery_schedule_set_current localtime c
       (word_of_int (trunc (of_int startTime / 1000))) (word_of_int (trunc (of_int endTime / 1000))) s"

definition submit_callback :: "string \<times> nat \<Rightarrow> secure_client \<Rightarrow> secure_client" where
  "submit_callback share s =
    (case share of (buf, i) \<Rightarrow>
       if i = 0 then s\<lparr>to_battery := to_battery s @ [buf]\<rparr>
       else s\<lparr>to_aggregator := to_aggregator s @ [buf]\<rparr>)"

definition submit_schedule ::
  "(32 word list \<Rightarrow> (string \<times> nat) list) \<Rightarrow> secure_client \<Rightarrow> bool \<times> secure_client" where
  "submit_schedule client_submit s = (True, fold submit_callback (client_submit (schedule s)) s)"

section \<open>The server as the peer\<close>

text \<open>
  The server answers with one response of the kind the client reads, or, when it writes none, the
  client waits for ever.
\<close>

definition admin_peer :: "nat \<Rightarrow> 'd env \<Rightarrow> 'd library \<Rightarrow> (Admin_Command, int, 'd bos) peer" where
  "admin_peer k env lib cmd s =
    obind (handleAdminCommand k env lib (Some cmd) s) (\<lambda>(s', rs).
      case rs of AdminResponse code _ # _ \<Rightarrow> Inr (Some code, s') | _ \<Rightarrow> Inl No_fuel)"

definition battery_answer :: "response list \<Rightarrow> (int \<times> ProtoStatus option) outcome" where
  "battery_answer rs =
    (case rs of
       BatteryStatusResponse code p # _ \<Rightarrow> Inr (code, Some p)
     | SetStatusResponse code _ # _ \<Rightarrow> Inr (code, None)
     | ScheduleSetCurrentResponse code _ # _ \<Rightarrow> Inr (code, None)
     | _ \<Rightarrow> Inl No_fuel)"

definition battery_peer ::
  "nat \<Rightarrow> 'd env \<Rightarrow> string \<Rightarrow> (BatteryCommand, int \<times> ProtoStatus option, 'd bos) peer" where
  "battery_peer k env name cmd s =
    obind (handleBatteryCommand k env name (Some cmd) s) (\<lambda>(s', rs).
      obind (battery_answer rs) (\<lambda>a. Inr (Some a, s')))"

text \<open>The peer of the requests whose response has a return code only.\<close>

definition code_peer :: "nat \<Rightarrow> 'd env \<Rightarrow> string \<Rightarrow> (BatteryCommand, int, 'd bos) peer" where
  "code_peer k env name cmd s =
    obind (battery_peer k env name cmd s) (\<lambda>(r, s'). Inr (map_option fst r, s'))"

section \<open>Facts\<close>

lemma parse_refresh_code [simp]: "parse_mode (refresh_code mode) = mode"
  by (cases mode) (simp_all add: parse_mode_def refresh_code_def)

lemma sint_word_of_int64: "in_int64 t \<Longrightarrow> sint (word_of_int t :: 64 word) = t"
  using timestamp_round_trip [of t] by (simp add: convertToTimestamp_def convertToMilliseconds_def)

lemma map_sint_word_of_int64: "list_all in_int64 ts \<Longrightarrow> map (\<lambda>t. sint (word_of_int t :: 64 word)) ts = ts"
  by (induction ts) (simp_all add: sint_word_of_int64)

definition proper_scale :: "Scale \<Rightarrow> bool" where
  "proper_scale p \<longleftrightarrow> 0 \<le> charge_proportion p \<and> 0 \<le> capacity_proportion p"

lemma Scale_of_pair_proper:
  "proper_scale p \<Longrightarrow> Scale_of_pair (capacity_proportion p) (charge_proportion p) = p"
  by (simp add: proper_scale_def Scale_of_pair_def scale_ABS_def)

lemma map_Scale_proper:
  "list_all proper_scale ps \<Longrightarrow>
     map (\<lambda>p. Scale_of_pair (capacity_proportion p) (charge_proportion p)) ps = ps"
  by (induction ps) (simp_all add: Scale_of_pair_proper)

text \<open>What the server makes of the outcome of a creation.\<close>

definition creation_result :: "string \<Rightarrow> 'd bos \<Rightarrow> addr option \<times> 'd manager \<Rightarrow> (bool \<times> 'd bos) outcome" where
  "creation_result name s r =
    (case r of
       (None, m) \<Rightarrow> Inr (False, s\<lparr>directoryManager := m\<rparr>)
     | (Some _, m) \<Rightarrow> Inr (True, createBatteryFifos name (s\<lparr>directoryManager := m\<rparr>)))"

lemma admin_request_created:
  assumes "handleAdminCommand k env lib (Some cmd) s = created name failure r s"
  shows "admin_request (admin_peer k env lib) cmd s = creation_result name s r"
  using assms
  by (auto simp: admin_request_def admin_peer_def created_def creation_result_def
      split: prod.splits option.splits)

lemmas admin_handlers = handleAdminCommand_def bos_createPhysicalBattery_def
  bos_createAggregateBattery_def bos_createSecureBattery_def bos_createPartitionBattery_def
  parsePhysicalBattery_def parseAggregateBattery_def parseSecureBattery_def parsePartitionBattery_def
  parse_staleness_def parse_refresh_def

definition sample_library :: "unit library" where
  "sample_library = \<lparr>dlsym = (\<lambda>_. False), dlconstruct = (\<lambda>_ _ _ _ _. ()), junk_type = Physical\<rparr>"

section \<open>Properties of the clients\<close>



text \<open>
  A request to partition a battery reaches the directory manager unchanged: the source, the
  policy, the names, non-negative proportions, stalenesses and modes. Without stalenesses and modes
  the server uses its defaults. The administrator is told that it succeeded exactly when batteries
  were created.
\<close>

theorem admin_partition_reaches_manager:
  fixes s :: "'d bos"
  assumes "list_all proper_scale proportions"
    and "list_all in_int64 stalenesses"
    and "stalenesses = [] \<longleftrightarrow> modes = []"
  shows "Admin_createPartitionBattery (admin_peer k env lib) src policy names proportions stalenesses modes s =
     obind (if modes = [] then
              createPartitionBattery_default k env src policy names proportions (directoryManager s)
            else
              createPartitionBattery k env src policy names proportions stalenesses modes (directoryManager s))
       (\<lambda>(batteries, m). Inr (batteries \<noteq> [],
          (if batteries = [] then \<lambda>s. s else fold createBatteryFifos names) (s\<lparr>directoryManager := m\<rparr>)))"
proof -
  have parsed: "parsePartitionBattery
      \<lparr>t_sourcename = src, t_policy = policy_code policy, t_names = names,
       t_scales = map (\<lambda>p. (charge_proportion p, capacity_proportion p)) proportions,
       t_max_stalenesses = map word_of_int stalenesses, t_refresh_modes = map refresh_code modes\<rparr> =
      \<lparr>pt_policy = policy, pt_source = src, pt_proportions = proportions, pt_child_names = names,
       pt_refreshModes = modes, pt_stalenesses = stalenesses\<rparr>"
    using assms(1,2)
    by (cases policy)
       (simp_all add: parsePartitionBattery_def policy_code_def map_Scale_proper map_sint_word_of_int64
          comp_def)
  define r where "r = (if modes = [] then
              createPartitionBattery_default k env src policy names proportions (directoryManager s)
            else
              createPartitionBattery k env src policy names proportions stalenesses modes (directoryManager s))"
  have "Admin_createPartitionBattery (admin_peer k env lib) src policy names proportions stalenesses modes s =
     admin_request (\<lambda>_ s. obind r (\<lambda>(batteries, m').
        if batteries = [] then Inr (Some (- 1), s\<lparr>directoryManager := m'\<rparr>)
        else Inr (Some 0, fold createBatteryFifos names (s\<lparr>directoryManager := m'\<rparr>)))) cmd s" for cmd
    using assms(3)
    by (cases r) (auto simp: r_def Admin_createPartitionBattery_def admin_request_def admin_peer_def
          handleAdminCommand_def bos_createPartitionBattery_def parsed Let_def split: if_splits)
  then show ?thesis
    unfolding r_def [symmetric] by (cases r) (auto simp: admin_request_def)
qed

theorem admin_partition_reaches_manager_witness:
  "Admin_createPartitionBattery (admin_peer 1 sample_env sample_library) ''src'' PROPORTIONAL [''a'', ''b''] halves [] []
       sample_bos =
     obind (createPartitionBattery_default 1 sample_env ''src'' PROPORTIONAL [''a'', ''b''] halves
              (directoryManager sample_bos))
       (\<lambda>(batteries, m). Inr (batteries \<noteq> [],
          (if batteries = [] then \<lambda>s. s else fold createBatteryFifos [''a'', ''b''])
            (sample_bos\<lparr>directoryManager := m\<rparr>)))"
  using admin_partition_reaches_manager [of halves "[]" "[]" 1 sample_env sample_library "''src''" PROPORTIONAL
      "[''a'', ''b'']" sample_bos]
  by (simp add: halves_def proper_scale_def Scale_of_def scale_ABS_def)

lemma battery_peer_status:
  assumes "getBattery name (dir (directoryManager s)) = Some a"
  shows "ClientBattery_getStatus (battery_peer k env name) s =
           obind (getStatus k env a (sys (directoryManager s))) (\<lambda>(status, y).
             Inr (status, s\<lparr>directoryManager := (directoryManager s)\<lparr>sys := y\<rparr>\<rparr>))"
  using assms
  by (cases "getStatus k env a (sys (directoryManager s))")
     (auto simp: ClientBattery_getStatus_def battery_peer_def handleBatteryCommand_def bos_getStatus_def
        battery_answer_def)

lemma code_peer_schedule:
  assumes "getBattery name (dir (directoryManager s)) = Some a" and "in_int64 st" and "in_int64 en"
  shows "code_peer k env name (schedule_command c (word_of_int st) (word_of_int en)) s =
           obind (schedule_own k env c st en a (sys (directoryManager s))) (\<lambda>(ok, y).
             Inr (Some (if ok then 0 else - 1), s\<lparr>directoryManager := (directoryManager s)\<lparr>sys := y\<rparr>\<rparr>))"
  using assms
  by (cases "schedule_own k env c st en a (sys (directoryManager s))")
     (auto simp: code_peer_def battery_peer_def handleBatteryCommand_def bos_scheduleSetCurrent_def
        schedule_command_def schedule_ms_def convertToTimestamp_def sint_word_of_int64 battery_answer_def)



text \<open>
  Over a socket the client reports success for a request that the battery refuses, because the
  return code of the response is not looked at; over a FIFO the refusal is reported.
\<close>

theorem client_hides_refusal:
  fixes s :: "'d bos"
  assumes "getBattery name (dir (directoryManager s)) = Some a"
    and "in_int64 st" and "in_int64 en"
    and "schedule_own k env c st en a (sys (directoryManager s)) = Inr (False, y)"
  shows "ClientBattery_schedule_at (code_peer k env name) c st en s =
           Inr (True, s\<lparr>directoryManager := (directoryManager s)\<lparr>sys := y\<rparr>\<rparr>) \<and>
         FifoBattery_schedule_at True (code_peer k env name) c st en s =
           Inr (False, s\<lparr>directoryManager := (directoryManager s)\<lparr>sys := y\<rparr>\<rparr>)"
  using assms(4)
  by (simp add: ClientBattery_schedule_at_def ClientBattery_schedule_set_current_def
      FifoBattery_schedule_at_def FifoBattery_schedule_set_current_def code_peer_schedule [OF assms(1-3)])

theorem client_hides_refusal_witness:
  "\<exists>y. ClientBattery_schedule_at (code_peer 1 sample_env ''src'') 1 (-1) 9 sample_bos =
           Inr (True, sample_bos\<lparr>directoryManager := (directoryManager sample_bos)\<lparr>sys := y\<rparr>\<rparr>) \<and>
         FifoBattery_schedule_at True (code_peer 1 sample_env ''src'') 1 (-1) 9 sample_bos =
           Inr (False, sample_bos\<lparr>directoryManager := (directoryManager sample_bos)\<lparr>sys := y\<rparr>\<rparr>)"
proof -
  have "\<exists>y. schedule_own 1 sample_env 1 (-1) 9 0 (sys (directoryManager sample_bos)) = Inr (False, y)"
    by (simp add: schedule_own_def deref_def sample_bos_def sample_manager_def sample_battery_def
        getSequenceNumber_def sample_env_def request_refused_def One_nat_def)
  then show ?thesis
    using client_hides_refusal [of "''src''" sample_bos 0 "-1" 9 1 sample_env 1] sample_bos_src
    by (auto simp: in_int64_def)
qed

section \<open>Bounds of the secure client\<close>

lemma write_minutes:
  assumes "length (schedule s) = 1440" and "0 \<le> i" and "j \<le> 1440"
  shows "\<exists>s'. ofold (write_minute v) [i..j - 1] s = Inr s' \<and> length (schedule s') = 1440 \<and>
           (\<forall>n < 1440. schedule s' ! n = (if i \<le> int n \<and> int n < j then v else schedule s ! n))"
  using assms
proof (induction "nat (j - i)" arbitrary: i s)
  case 0
  then have "j \<le> i" by simp
  then show ?case using 0 by (force simp: upto_empty)
next
  case (Suc m)
  let ?s = "s\<lparr>schedule := (schedule s)[nat i := v]\<rparr>"
  have m: "m = nat (j - (i + 1))" using Suc.hyps(2) by simp
  have "[i..j - 1] = i # [i + 1..j - 1]" using Suc.hyps(2) by (simp add: upto_rec1)
  moreover have "write_minute v i s = Inr ?s"
    using Suc.prems Suc.hyps(2) by (simp add: write_minute_def)
  moreover obtain s' where "ofold (write_minute v) [i + 1..j - 1] ?s = Inr s'" "length (schedule s') = 1440"
      and s': "\<forall>n < 1440. schedule s' ! n =
            (if i + 1 \<le> int n \<and> int n < j then v else (schedule s)[nat i := v] ! n)"
    using Suc.hyps(1) [of "i + 1" ?s] m Suc.prems by auto
  moreover have "\<forall>n < 1440. schedule s' ! n = (if i \<le> int n \<and> int n < j then v else schedule s ! n)"
    using s' Suc.prems Suc.hyps(2) by (auto simp: nth_list_update)
  ultimately show ?case by auto
qed

text \<open>
  If the local time has hours below 24 and minutes below 60, scheduling writes inside the array
  of 1440 minutes only: it returns (always \<open>false\<close>), sets exactly the minutes from the start to the
  end and keeps the others. An interval that ends at an earlier minute of the day than it starts,
  across midnight, sets none.
\<close>

theorem secure_schedule_in_bounds:
  assumes "\<forall>t. let (h, m) = localtime t in 0 \<le> h \<and> h < 24 \<and> 0 \<le> m \<and> m < 60"
    and "length (schedule s) = 1440"
  shows "\<exists>s'. SecureClientBattery_schedule_set_current localtime c st en s = Inr (False, s') \<and>
           length (schedule s') = 1440 \<and>
           (\<forall>n < 1440. schedule s' ! n =
              (if minute_of_day localtime st \<le> int n \<and> int n < minute_of_day localtime en
               then to_uint32 c else schedule s ! n))"
proof -
  have "0 \<le> minute_of_day localtime t \<and> minute_of_day localtime t < 1440" for t
  proof -
    obtain h m where hm: "localtime (sint t) = (h, m)" by fastforce
    with assms(1) [THEN spec, of "sint t"] show ?thesis by (simp add: minute_of_day_def)
  qed
  then show ?thesis
    using write_minutes [OF assms(2), of "minute_of_day localtime st" "minute_of_day localtime en" "to_uint32 c"]
    by (force simp: SecureClientBattery_schedule_set_current_def Let_def less_imp_le)
qed

theorem secure_schedule_in_bounds_witness:
  "\<exists>s'. SecureClientBattery_schedule_set_current (\<lambda>t. (t div 3600 mod 24, t div 60 mod 60)) 7 60 180
           new_SecureClientBattery = Inr (False, s') \<and>
     length (schedule s') = 1440 \<and>
     (\<forall>n < 1440. schedule s' ! n =
        (if minute_of_day (\<lambda>t. (t div 3600 mod 24, t div 60 mod 60)) 60 \<le> int n \<and>
            int n < minute_of_day (\<lambda>t. (t div 3600 mod 24, t div 60 mod 60)) 180
         then to_uint32 7 else schedule new_SecureClientBattery ! n))"
  by (rule secure_schedule_in_bounds) (simp_all add: new_SecureClientBattery_def)

end
