(* ===== verification/V3_Connection.thy ===== *)
theory V3_Connection
  imports Prelude
begin

text \<open>
  The framing of messages on a V3 stream (\<open>BatteryConnection.cpp\<close>, \<open>util.cpp\<close>): a message is its
  length as four big-endian bytes and then its bytes. The system calls are outside the sources:
  the outcomes of the calls to come are a list, a positive number for the most bytes the call moves,
  \<open>0\<close> for the end of the file, \<open>-e\<close> for a failure with \<open>errno\<close> \<open>e\<close>. An exhausted list means the loop
  has not ended. Serialisation is protobuf's and a parameter.
\<close>

unbundle bit_operations_syntax

type_synonym byte = "8 word"

section \<open>Exact reads and writes\<close>

text \<open>\<open>EAGAIN\<close> is 11 on the platforms the code runs on; the sources write the number.\<close>

primrec read_exact :: "int list \<Rightarrow> nat \<Rightarrow> byte list \<Rightarrow> byte list \<Rightarrow>
    (int \<times> byte list \<times> byte list \<times> int list) outcome" where
  "read_exact [] num_bytes buffer pending =
    (if length buffer < num_bytes then Inl No_fuel
     else Inr (int (length buffer), buffer, pending, []))"
| "read_exact (res # calls) num_bytes buffer pending =
    (if length buffer < num_bytes then
       (if res < 0 then
          (if - res \<noteq> 11 then Inr (- 1, buffer, pending, calls)
           else read_exact calls num_bytes buffer pending)
        else
          (let k = min (nat res) (min (num_bytes - length buffer) (length pending)) in
           read_exact calls num_bytes (buffer @ take k pending) (drop k pending)))
     else Inr (int (length buffer), buffer, pending, res # calls))"

primrec write_exact :: "int list \<Rightarrow> byte list \<Rightarrow> nat \<Rightarrow> byte list \<Rightarrow> (int \<times> byte list \<times> int list) outcome" where
  "write_exact [] buffer bytes_written out =
    (if bytes_written < length buffer then Inl No_fuel else Inr (int bytes_written, out, []))"
| "write_exact (res # calls) buffer bytes_written out =
    (if bytes_written < length buffer then
       (if res < 0 then
          (if - res \<noteq> 11 then Inr (- 1, out, calls)
           else write_exact calls buffer bytes_written out)
        else
          (let k = min (nat res) (length buffer - bytes_written) in
           write_exact calls buffer (bytes_written + k)
             (out @ take k (drop bytes_written buffer))))
     else Inr (int bytes_written, out, res # calls))"

declare read_exact.simps [simp del] write_exact.simps [simp del]

section \<open>Frames\<close>

text \<open>The bytes of a \<open>uint32_t\<close> in network order, as \<open>htonl\<close> lays them out in memory.\<close>

definition htonl :: "32 word \<Rightarrow> byte list" where
  "htonl w = [ucast (drop_bit 24 w), ucast (drop_bit 16 w), ucast (drop_bit 8 w), ucast w]"

definition ntohl :: "byte list \<Rightarrow> 32 word" where
  "ntohl bs = push_bit 24 (ucast (bs ! 0)) OR push_bit 16 (ucast (bs ! 1)) OR
     push_bit 8 (ucast (bs ! 2)) OR ucast (bs ! 3)"

definition connection_write :: "('m \<Rightarrow> byte list) \<Rightarrow> int list \<Rightarrow> 'm \<Rightarrow> byte list \<Rightarrow>
    (int \<times> byte list \<times> int list) outcome" where
  "connection_write serialize calls message out =
    obind (write_exact calls (htonl (of_nat (length (serialize message)))) 0 out)
      (\<lambda>(_, out1, calls1).
    obind (write_exact calls1 (take (unat (of_nat (length (serialize message)) :: 32 word)) (serialize message))
             0 out1)
      (\<lambda>(_, out2, calls2). Inr (1, out2, calls2)))"

text \<open>
  The length is read until a read succeeds, each time into a buffer filled from its start; a failure
  while the body is read goes unnoticed and the parser sees whatever the rest of the new buffer
  holds (\<open>junk\<close>).
\<close>

lemma read_exact_calls:
  "read_exact calls n buffer pending = Inr (r, buffer', pending', calls') \<Longrightarrow>
     length calls' \<le> length calls \<and> (r = - 1 \<longrightarrow> length calls' < length calls)"
proof (induction calls arbitrary: buffer pending)
  case Nil
  then show ?case by (simp add: read_exact.simps split: if_splits)
next
  case (Cons c cs)
  from Cons.prems Cons.IH show ?case
    by (fastforce simp: read_exact.simps Let_def split: if_splits)
qed

declare obind_cong [fundef_cong]

function read_length :: "int list \<Rightarrow> byte list \<Rightarrow> (byte list \<times> byte list \<times> int list) outcome" where
  "read_length calls pending =
    obind (read_exact calls 4 [] pending) (\<lambda>(r, buffer, pending', calls').
      if r = - 1 then read_length calls' pending' else Inr (buffer, pending', calls'))"
  by pat_completeness auto

termination read_length
  by (relation "measure (\<lambda>(calls, _). length calls)") (auto dest: read_exact_calls)

declare read_length.simps [simp del]

definition connection_read :: "(byte list \<Rightarrow> 'm option) \<Rightarrow> (nat \<Rightarrow> byte list) \<Rightarrow> int list \<Rightarrow> byte list \<Rightarrow>
    ('m option \<times> byte list \<times> int list) outcome" where
  "connection_read parse junk calls pending =
    obind (read_length calls pending) (\<lambda>(header, pending1, calls1).
      let message_len = unat (ntohl header) in
      obind (read_exact calls1 message_len [] pending1) (\<lambda>(_, buffer, pending2, calls2).
        Inr (parse (buffer @ drop (length buffer) (junk message_len)), pending2, calls2)))"

section \<open>Facts\<close>

lemma htonl_length [simp]: "length (htonl w) = 4"
  by (simp add: htonl_def)

lemma ntohl_htonl [simp]: "ntohl (htonl w) = w"
proof (rule bit_word_eqI)
  fix n assume "n < LENGTH(32)"
  then consider "n < 8" | "8 \<le> n" "n < 16" | "16 \<le> n" "n < 24" | "24 \<le> n" "n < 32"
    by fastforce
  then show "bit (ntohl (htonl w)) n = bit w n"
    by cases (auto simp: ntohl_def htonl_def bit_simps)
qed

text \<open>Calls that keep the stream going: each moves a byte or asks to try again.\<close>

definition live_calls :: "nat \<Rightarrow> int list \<Rightarrow> bool" where
  "live_calls n calls \<longleftrightarrow>
     (\<forall>c \<in> set calls. c = - 11 \<or> 1 \<le> c) \<and> n \<le> length (filter (\<lambda>c. 1 \<le> c) calls)"

lemma live_calls_Nil [simp]: "live_calls n [] \<longleftrightarrow> n = 0"
  by (simp add: live_calls_def)

lemma live_calls_Cons: "live_calls n (c # cs) \<longleftrightarrow>
    (c = - 11 \<and> live_calls n cs) \<or> (1 \<le> c \<and> live_calls (n - 1) cs)"
  by (auto simp: live_calls_def)

lemma live_calls_mono: "live_calls n cs \<Longrightarrow> m \<le> n \<Longrightarrow> live_calls m cs"
  by (auto simp: live_calls_def)

lemma read_exact_live:
  assumes "live_calls (m + k) calls" and "length buffer + m = n" and "m \<le> length pending"
  shows "\<exists>calls'. read_exact calls n buffer pending =
           Inr (int n, buffer @ take m pending, drop m pending, calls') \<and> live_calls k calls'"
  using assms
proof (induction calls arbitrary: m buffer pending)
  case Nil
  then show ?case by (simp add: read_exact.simps)
next
  case (Cons c cs)
  consider "m = 0" | "m > 0" "c = - 11" "live_calls (m + k) cs" | "m > 0" "1 \<le> c" "live_calls (m + k - 1) cs"
    using Cons.prems(1) by (auto simp: live_calls_Cons)
  then show ?case
  proof cases
    case 1
    with Cons.prems show ?thesis by (simp add: read_exact.simps)
  next
    case 2
    with Cons.IH [of m buffer pending] Cons.prems show ?thesis by (simp add: read_exact.simps)
  next
    case 3
    define j where "j = min (nat c) m"
    have j: "1 \<le> j" "j \<le> m" using 3 by (auto simp: j_def)
    have "min (nat c) (min (n - length buffer) (length pending)) = j"
      using Cons.prems by (auto simp: j_def)
    moreover have "live_calls (m - j + k) cs"
      using 3(3) j by (elim live_calls_mono) simp
    moreover have "take j pending @ take (m - j) (drop j pending) = take m pending"
      using j by (metis le_add_diff_inverse take_add)
    ultimately show ?thesis
      using Cons.IH [of "m - j" "buffer @ take j pending" "drop j pending"] Cons.prems 3 j
      by (simp add: read_exact.simps)
  qed
qed

lemma write_exact_live:
  assumes "live_calls (m + k) calls" and "i + m = length buffer"
  shows "\<exists>calls'. write_exact calls buffer i out =
           Inr (int (length buffer), out @ drop i buffer, calls') \<and> live_calls k calls'"
  using assms
proof (induction calls arbitrary: m i out)
  case Nil
  then show ?case by (simp add: write_exact.simps)
next
  case (Cons c cs)
  consider "m = 0" | "m > 0" "c = - 11" "live_calls (m + k) cs" | "m > 0" "1 \<le> c" "live_calls (m + k - 1) cs"
    using Cons.prems(1) by (auto simp: live_calls_Cons)
  then show ?case
  proof cases
    case 1
    with Cons.prems show ?thesis by (simp add: write_exact.simps)
  next
    case 2
    with Cons.IH [of m i out] Cons.prems show ?thesis by (simp add: write_exact.simps)
  next
    case 3
    define j where "j = min (nat c) m"
    have j: "1 \<le> j" "j \<le> m" using 3 by (auto simp: j_def)
    have "min (nat c) (length buffer - i) = j"
      using Cons.prems by (auto simp: j_def)
    moreover have "live_calls (m - j + k) cs"
      using 3(3) j by (elim live_calls_mono) simp
    moreover have "take j (drop i buffer) @ drop (i + j) buffer = drop i buffer"
      by (metis add.commute append_take_drop_id drop_drop)
    ultimately show ?thesis
      using Cons.IH [of "m - j" "i + j" "out @ take j (drop i buffer)"] Cons.prems 3 j
      by (simp add: write_exact.simps)
  qed
qed

definition frame_bytes :: "byte list \<Rightarrow> byte list" where
  "frame_bytes body = htonl (of_nat (length body)) @ body"

lemma connection_write_frame:
  assumes "length (serialize m) < 2 ^ 32" and "live_calls (4 + length (serialize m)) calls"
  shows "\<exists>calls'. connection_write serialize calls m out =
           Inr (1, out @ frame_bytes (serialize m), calls')"
proof -
  let ?h = "htonl (of_nat (length (serialize m)))"
  have len: "unat (of_nat (length (serialize m)) :: 32 word) = length (serialize m)"
    using assms(1) by (simp add: unat_of_nat)
  obtain calls1 where 1: "write_exact calls ?h 0 out = Inr (4, out @ ?h, calls1)"
      and "live_calls (length (serialize m)) calls1"
    using write_exact_live [of 4 "length (serialize m)" calls 0 ?h out] assms(2) by auto
  then obtain calls2 where 2: "write_exact calls1 (serialize m) 0 (out @ ?h) =
      Inr (int (length (serialize m)), out @ ?h @ serialize m, calls2)"
    using write_exact_live [of "length (serialize m)" 0 calls1 0 "serialize m" "out @ ?h"] by auto
  show ?thesis
    using 1 2 by (simp add: connection_write_def len frame_bytes_def)
qed

lemma connection_read_frame:
  assumes "length body < 2 ^ 32" and "live_calls (4 + length body) calls"
    and junk: "\<forall>n. length (junk n) = n"
  shows "\<exists>calls'. connection_read parse junk calls (frame_bytes body @ rest) = Inr (parse body, rest, calls')"
proof -
  let ?h = "htonl (of_nat (length body))"
  have len: "unat (of_nat (length body) :: 32 word) = length body"
    using assms(1) by (simp add: unat_of_nat)
  obtain calls1 where 1: "read_exact calls 4 [] (?h @ body @ rest) = Inr (4, ?h, body @ rest, calls1)"
      and "live_calls (length body) calls1"
    using read_exact_live [of 4 "length body" calls "[]" 4 "?h @ body @ rest"] assms(2) by auto
  then obtain calls2 where 2: "read_exact calls1 (length body) [] (body @ rest) =
      Inr (int (length body), body, rest, calls2)"
    using read_exact_live [of "length body" 0 calls1 "[]" "length body" "body @ rest"] by auto
  show ?thesis
    using 1 2 junk by (simp add: connection_read_def read_length.simps len frame_bytes_def)
qed

section \<open>Properties of the framing\<close>

text \<open>
  C12: messages survive the stream: however the system calls split the bytes, and however often they
  ask to try again, writing a message of less than 4 GiB appends one frame to what is on the stream,
  and reading from a stream that starts with that frame returns the message and leaves the rest.
  That the parser inverts the serialiser is protobuf's promise.
\<close>

theorem message_round_trip:
  assumes "parse (serialize m) = Some m"
    and "length (serialize m) < 2 ^ 32"
    and "live_calls (4 + length (serialize m)) wcalls" and "live_calls (4 + length (serialize m)) rcalls"
    and "\<forall>n. length (junk n) = n"
  shows "\<exists>frame wcalls' rcalls'.
           connection_write serialize wcalls m out = Inr (1, out @ frame, wcalls') \<and>
           connection_read parse junk rcalls (frame @ rest) = Inr (Some m, rest, rcalls')"
  using connection_write_frame [where serialize = serialize, OF assms(2,3)]
    connection_read_frame [where body = "serialize m", OF assms(2,4,5)] assms(1)
  by metis

theorem message_round_trip_witness:
  "\<exists>frame wcalls' rcalls'.
     connection_write (\<lambda>b. [b, 7]) [-11, 3, 1, 2, 1, 1, 5] (42 :: byte) [9] = Inr (1, [9] @ frame, wcalls') \<and>
     connection_read (\<lambda>bs. Some (hd bs)) (\<lambda>n. replicate n 0) [1, -11, 1, 1, 1, 2, 1] (frame @ [5]) =
       Inr (Some 42, [5], rcalls')"
  by (rule message_round_trip) (simp_all add: live_calls_def)

text \<open>
  A peer that closes the stream in the middle of a message makes the reader spin: \<open>read\<close> returns
  0 at the end of the file, the loop counts no progress, and after any number of calls it has not
  ended.
\<close>

theorem read_spins_at_eof:
  assumes "length buffer < num_bytes"
  shows "read_exact (replicate k 0) num_bytes buffer [] = Inl No_fuel"
  using assms by (induction k) (simp_all add: read_exact.simps)

theorem read_spins_at_eof_witness: "read_exact (replicate 5 0) 4 [1, 2] [] = Inl No_fuel"
  by (rule read_spins_at_eof) simp

end
