(* ===== verification/V3_Drivers.thy ===== *)
theory V3_Drivers
  imports V3_Status V3_Connection
begin

text \<open>
  The device drivers of BatteryOS-V3: the JBD battery management system on a serial line
  (\<open>device_drivers/JBDBMS.cpp\<close>), the sample driver (\<open>Driver.cpp\<close>) and the IEC 61850 client
  (\<open>iec61850.cpp\<close>). The serial line and the IEC 61850 library are outside the sources: the bytes
  waiting after each request, the values read and the acceptance of a write are parameters.
\<close>

section \<open>The JBD protocol\<close>

definition U16 :: "byte \<Rightarrow> byte \<Rightarrow> 16 word" where
  "U16 x y = push_bit 8 (ucast x) OR ucast y"

text \<open>The parameters of this lambda are \<open>int8_t\<close>, so that both bytes are sign-extended.\<close>

definition S16 :: "byte \<Rightarrow> byte \<Rightarrow> 16 word" where
  "S16 x y = push_bit 8 (scast x) OR scast y"

definition checksum :: "byte list \<Rightarrow> 16 word" where
  "checksum payload = NOT (fold (\<lambda>p c. c + ucast p) payload 0) + 1"

definition validateData :: "byte \<Rightarrow> byte \<Rightarrow> byte list \<Rightarrow> 16 word \<Rightarrow> byte \<Rightarrow> bool" where
  "validateData startByte errorByte payload checkSum stopByte \<longleftrightarrow>
     (if startByte \<noteq> 0xDD then False
      else if errorByte = 0x80 then False
      else if checkSum \<noteq> checksum payload then False
      else if stopByte \<noteq> 0x77 then False
      else True)"

record jbd =
  jbd_max_charging_current_mA :: real
  jbd_max_discharging_current_mA :: real

definition BMS_REFRESH :: "byte list" where
  "BMS_REFRESH = [0xDD, 0xA5, 0x03, 0x00, 0xff, 0xfd, 0x77]"

text \<open>
  The request is repeated until bytes arrive; each element of the list is what waits on the line
  one second after the next request.
\<close>

fun jbd_wait :: "byte list list \<Rightarrow> byte list outcome" where
  "jbd_wait [] = Inl No_fuel"
| "jbd_wait (avail # later) = (if length avail > 0 then Inr avail else jbd_wait later)"

definition jbd_decode :: "jbd \<Rightarrow> timepoint \<Rightarrow> byte list \<Rightarrow> BatteryStatus" where
  "jbd_decode bms now data =
    (if length data \<noteq> 34 then default_status
     else
       (let startByte = data ! 0; errorByte = data ! 2; stopByte = data ! 33;
            checkSum = U16 (data ! 31) (data ! 32);
            payload = drop 2 (take 31 data) in
        if \<not> validateData startByte errorByte payload checkSum stopByte then default_status
        else
          \<lparr>voltage_mV = Fin (of_int (uint (U16 (data ! 4) (data ! 5)) * 10)),
           current_mA = of_int (sint (S16 (data ! 6) (data ! 7)) * 10),
           capacity_mAh = of_int (uint (U16 (data ! 8) (data ! 9)) * 10),
           max_capacity_mAh = of_int (uint (U16 (data ! 10) (data ! 11)) * 10),
           max_charging_current_mA = jbd_max_charging_current_mA bms,
           max_discharging_current_mA = jbd_max_discharging_current_mA bms,
           status_time = convertToMilliseconds now\<rparr>))"

definition jbd_refresh :: "jbd \<Rightarrow> timepoint \<Rightarrow> byte list list \<Rightarrow> BatteryStatus outcome" where
  "jbd_refresh bms now line = obind (jbd_wait line) (\<lambda>data. Inr (jbd_decode bms now data))"

definition jbd_set_current :: "real \<Rightarrow> jbd \<Rightarrow> bool \<times> jbd" where
  "jbd_set_current c bms = (True, bms)"

section \<open>The sample driver\<close>

definition Driver_refresh :: BatteryStatus where
  "Driver_refresh = default_status\<lparr>voltage_mV := Fin 5, current_mA := 0, capacity_mAh := 10,
     max_capacity_mAh := 10, max_charging_current_mA := 1200, max_discharging_current_mA := 1200\<rparr>"

definition Driver_set_current :: "real \<Rightarrow> bool" where
  "Driver_set_current c = True"

section \<open>The IEC 61850 client\<close>

text \<open>
  An object of the server is named by a string. Reading one gives a float or nothing; the writes
  are recorded in order with their integer values, a failed write being only logged.
\<close>

record iec61850 =
  LogicalDevice_Name :: string
  ZBAT_Name :: string
  ZBTC_Name :: string
  ZINV_Name :: string
  iec_status :: BatteryStatus
  iec_writes :: "(string \<times> int) list"

definition iec_object :: "iec61850 \<Rightarrow> (iec61850 \<Rightarrow> string) \<Rightarrow> string \<Rightarrow> string" where
  "iec_object d node attr = LogicalDevice_Name d @ ''/'' @ node d @ attr"

definition iec_read ::
  "(string \<Rightarrow> real option) \<Rightarrow> string \<Rightarrow> (real \<Rightarrow> BatteryStatus \<Rightarrow> BatteryStatus) \<Rightarrow> BatteryStatus \<Rightarrow> BatteryStatus" where
  "iec_read readObject obj put st =
    (case readObject obj of None \<Rightarrow> st | Some v \<Rightarrow> put (of_int (to_int64 v)) st)"

definition iec_refresh :: "(string \<Rightarrow> real option) \<Rightarrow> timepoint \<Rightarrow> iec61850 \<Rightarrow> BatteryStatus \<times> iec61850" where
  "iec_refresh readObject now d =
    (let st0 = iec_status d;
         st1 = iec_read readObject (iec_object d ZBAT_Name ''.Vol.mag.f'') (\<lambda>v st. st\<lparr>voltage_mV := Fin v\<rparr>) st0;
         st2 = iec_read readObject (iec_object d ZBAT_Name ''.Amp.mag.f'') (\<lambda>v st. st\<lparr>current_mA := v\<rparr>) st1;
         st3 = iec_read readObject (iec_object d ZBAT_Name ''.AhrRtg.setMag.f'') (\<lambda>v st. st\<lparr>max_capacity_mAh := v\<rparr>) st2;
         st4 = iec_read readObject (iec_object d ZBAT_Name ''.MaxBatA.setMag.f'')
                 (\<lambda>v st. st\<lparr>max_discharging_current_mA := v\<rparr>) st3;
         st5 = st4\<lparr>status_time := convertToMilliseconds now, max_charging_current_mA := 10\<rparr>
     in (st5, d\<lparr>iec_status := st5\<rparr>))"

definition iec_write :: "string \<Rightarrow> int \<Rightarrow> iec61850 \<Rightarrow> iec61850" where
  "iec_write obj v d = d\<lparr>iec_writes := iec_writes d @ [(obj, v)]\<rparr>"

text \<open>The function returns \<open>0\<close> where it has written, which a \<open>bool\<close> turns into \<open>false\<close>.\<close>

definition iec_set_current :: "real \<Rightarrow> iec61850 \<Rightarrow> bool \<times> iec61850" where
  "iec_set_current c d =
    (let charge_mode = iec_object d ZBTC_Name ''.BatChaMod.setVal'';
         current_limit = iec_object d ZINV_Name ''.InALim.setMag.i'';
         recharge_rate = iec_object d ZBTC_Name ''.ReChaRte.setMag.i'' in
     if c < 0 \<and> - c < max_charging_current_mA (iec_status d) then
       (False, iec_write charge_mode 2 (iec_write recharge_rate (trunc (- c)) d))
     else if c > 0 \<and> c < max_discharging_current_mA (iec_status d) then
       (False, iec_write current_limit (to_int64 c) (iec_write charge_mode 1 d))
     else (True, d))"

section \<open>Facts about words and checksums\<close>

lemma uint_U16: "uint (U16 x y) = 256 * uint x + uint y"
proof -
  have "U16 x y = word_of_int (256 * uint x + uint y)"
  proof (rule bit_word_eqI)
    fix n assume "n < LENGTH(16)"
    have "push_bit 8 (uint x) + uint y = push_bit 8 (uint x) OR uint y"
      by (rule disjunctive_add) (auto simp: bit_simps dest: bit_imp_le_length)
    then have "256 * uint x + uint y = push_bit 8 (uint x) OR uint y"
      by (simp add: push_bit_eq_mult mult.commute)
    then show "bit (U16 x y) n = bit (word_of_int (256 * uint x + uint y) :: 16 word) n"
      using \<open>n < LENGTH(16)\<close> by (auto simp: U16_def bit_simps)
  qed
  moreover have "(256 * uint x + uint y) mod 2 ^ 16 = 256 * uint x + uint y"
    using uint_lt2p [of x] uint_lt2p [of y] uint_ge_0 [of x] uint_ge_0 [of y]
    by (intro mod_pos_pos_trivial) auto
  ultimately show ?thesis using uint_word_of_int [where 'a = 16, of "256 * uint x + uint y"] by simp
qed

lemma U16_inj: "U16 x y = U16 x' y' \<longleftrightarrow> x = x' \<and> y = y'"
proof
  assume "U16 x y = U16 x' y'"
  then have eq: "256 * uint x + uint y = 256 * uint x' + uint y'" by (metis uint_U16)
  have parts: "(256 * uint a + uint b) div 256 = uint a" "(256 * uint a + uint b) mod 256 = uint b"
    for a b :: byte
    using uint_lt2p [of b] uint_ge_0 [of b] by simp_all
  have "uint x = uint x'" "uint y = uint y'"
    using parts [of x y] parts [of x' y'] eq by simp_all
  then show "x = x' \<and> y = y'" by (simp add: word_uint_eq_iff)
qed simp

definition byte_sum :: "byte list \<Rightarrow> 16 word" where
  "byte_sum bs = (\<Sum>b\<leftarrow>bs. ucast b)"

lemma fold_byte_sum: "fold (\<lambda>p c. c + ucast p) bs c = c + (byte_sum bs :: 16 word)"
  by (induction bs arbitrary: c) (simp_all add: byte_sum_def algebra_simps)

lemma checksum_eq: "checksum payload = - byte_sum payload"
  by (simp add: checksum_def fold_byte_sum minus_eq_not_plus_1)

lemma byte_sum_update:
  "i < length bs \<Longrightarrow> byte_sum (bs[i := b]) = byte_sum bs + ucast b - ucast (bs ! i)"
  by (induction bs arbitrary: i) (auto simp: byte_sum_def split: nat.splits)

lemma ucast_byte_inj [simp]: "(ucast (a :: byte) :: 16 word) = ucast b \<longleftrightarrow> a = b"
proof
  assume eq: "(ucast a :: 16 word) = ucast b"
  show "a = b"
  proof (rule bit_word_eqI)
    fix n assume "n < LENGTH(8)"
    then show "bit a n = bit b n"
      using arg_cong [OF eq, of "\<lambda>w. bit w n"] by (simp add: bit_simps)
  qed
qed simp

text \<open>One changed byte changes the sum, because the change is smaller than the modulus.\<close>

lemma checksum_detects:
  assumes "i < length bs" and "b \<noteq> bs ! i"
  shows "checksum (bs[i := b]) \<noteq> checksum bs"
  using assms by (simp add: checksum_eq byte_sum_update)

text \<open>The index of a byte the driver checks: all but the echo of the register.\<close>

lemma take_drop_update:
  assumes "length data = 34" and "i < 34"
  shows "drop 2 (take 31 (data[i := b])) =
           (if 2 \<le> i \<and> i < 31 then (drop 2 (take 31 data))[i - 2 := b] else drop 2 (take 31 data))"
  using assms by (auto intro!: nth_equalityI simp: nth_list_update)

definition jbd_valid :: "byte list \<Rightarrow> bool" where
  "jbd_valid data \<longleftrightarrow> length data = 34 \<and>
     validateData (data ! 0) (data ! 2) (drop 2 (take 31 data)) (U16 (data ! 31) (data ! 32)) (data ! 33)"

lemma jbd_decode_invalid: "\<not> jbd_valid data \<Longrightarrow> jbd_decode bms now data = default_status"
  by (auto simp: jbd_decode_def jbd_valid_def Let_def)

lemma jbd_valid_update:
  assumes "jbd_valid data" and "i < 34" and "i \<noteq> 1" and "b \<noteq> data ! i"
  shows "\<not> jbd_valid (data[i := b])"
proof -
  have len: "length data = 34" using assms(1) by (simp add: jbd_valid_def)
  have ok: "data ! 0 = 0xDD" "data ! 33 = 0x77"
      "U16 (data ! 31) (data ! 32) = checksum (drop 2 (take 31 data))"
    using assms(1) by (auto simp: jbd_valid_def validateData_def split: if_splits)
  consider "i = 0" | "i = 33" | "i = 31" | "i = 32" | "2 \<le> i" "i < 31"
    using assms(2,3) by linarith
  then show ?thesis
  proof cases
    case 5
    then obtain j where j: "i = Suc (Suc j)" by (metis add_2_eq_Suc le_Suc_ex)
    have "checksum ((drop 2 (take 31 data))[i - 2 := b]) \<noteq> checksum (drop 2 (take 31 data))"
      using 5 len assms(4) j by (intro checksum_detects) auto
    then show ?thesis
      using 5 len ok by (simp add: jbd_valid_def validateData_def take_drop_update)
  qed (use len ok assms(4) in \<open>auto simp: jbd_valid_def validateData_def take_drop_update U16_inj
         simp flip: ok(3)\<close>)
qed

lemma S16_negative_low:
  assumes "bit y 7"
  shows "S16 x y = scast y"
  using assms by (intro bit_word_eqI) (auto simp: S16_def bit_simps)

lemma S16_positive_low:
  assumes "\<not> bit y 7"
  shows "S16 x y = U16 x y"
proof (rule bit_word_eqI)
  fix n assume n: "n < LENGTH(16)"
  show "bit (S16 x y) n = bit (U16 x y) n"
  proof (cases "n < 8")
    case True
    then have "min 7 n = n" by simp
    with True show ?thesis by (simp add: S16_def U16_def bit_simps)
  next
    case False
    then have "min 7 n = 7" "min 7 (n - 8) = n - 8" "\<not> bit y n"
      using n by (auto dest: bit_imp_le_length)
    with False n assms show ?thesis by (simp add: S16_def U16_def bit_simps)
  qed
qed

lemma sint_byte_bounds: "- 128 \<le> sint (y :: byte)" "sint (y :: byte) < 128"
  using sint_ge [of y] sint_lt [of y] by simp_all

lemma sint_scast_byte: "sint (scast (y :: byte) :: 16 word) = sint y"
  using sint_byte_bounds [of y] by (simp add: signed_scast_eq signed_take_bit_int_eq_self)

lemma sint_negative_byte: "bit (y :: byte) 7 \<Longrightarrow> sint y < 0"
  using bit_last_iff [of y] by simp

section \<open>Properties of the drivers\<close>

text \<open>
  A reply of the device: start byte, register, status, length, 27 bytes of data, checksum, stop byte.
\<close>

definition jbd_reply :: "byte \<Rightarrow> byte \<Rightarrow> byte list \<Rightarrow> byte list" where
  "jbd_reply reg st info =
    (let payload = [st, of_nat (length info)] @ info; c = checksum payload in
     [0xDD, reg] @ payload @ [ucast (drop_bit 8 c), ucast c, 0x77])"

lemma U16_split: "U16 (ucast (drop_bit 8 w)) (ucast w) = w"
proof (rule bit_word_eqI)
  fix n assume "n < LENGTH(16)"
  then show "bit (U16 (ucast (drop_bit 8 w)) (ucast w)) n = bit w n"
    by (cases "n < 8") (auto simp: U16_def bit_simps)
qed

lemma jbd_reply_valid:
  assumes "length info = 27" and "st \<noteq> 0x80"
  shows "jbd_valid (jbd_reply reg st info)"
    and "n < 27 \<Longrightarrow> jbd_reply reg st info ! (n + 4) = info ! n"
proof -
  show "jbd_valid (jbd_reply reg st info)"
    using assms
    by (simp add: jbd_valid_def jbd_reply_def Let_def validateData_def nth_append nth_Cons' U16_split)
  show "n < 27 \<Longrightarrow> jbd_reply reg st info ! (n + 4) = info ! n"
    using assms by (simp add: jbd_reply_def Let_def nth_append)
qed

text \<open>
  A well-formed reply of the device is decoded: voltage, remaining and full capacity are the
  big-endian words of the reply times ten, and so is the current, as a signed word, when the high bit
  of its low byte is clear; the driver waits through any number of seconds without an answer.
\<close>

theorem jbd_refresh_decodes:
  assumes "length info = 27" and "st \<noteq> 0x80"
  shows "\<exists>status. jbd_refresh bms now (replicate k [] @ jbd_reply reg st info # later) = Inr status \<and>
     voltage_mV status = Fin (10 * of_int (256 * uint (info ! 0) + uint (info ! 1))) \<and>
     (\<not> bit (info ! 3) 7 \<longrightarrow> current_mA status = 10 * of_int (sint (U16 (info ! 2) (info ! 3)))) \<and>
     capacity_mAh status = 10 * of_int (256 * uint (info ! 4) + uint (info ! 5)) \<and>
     max_capacity_mAh status = 10 * of_int (256 * uint (info ! 6) + uint (info ! 7))"
proof -
  let ?data = "jbd_reply reg st info"
  have wait: "jbd_wait (replicate k [] @ ?data # later) = Inr ?data"
    by (induction k) (simp_all add: jbd_reply_def Let_def)
  have nth: "?data ! 4 = info ! 0" "?data ! 5 = info ! 1" "?data ! 6 = info ! 2" "?data ! 7 = info ! 3"
      "?data ! 8 = info ! 4" "?data ! 9 = info ! 5" "?data ! 10 = info ! 6" "?data ! 11 = info ! 7"
    using jbd_reply_valid(2) [OF assms, of 0] jbd_reply_valid(2) [OF assms, of 1]
      jbd_reply_valid(2) [OF assms, of 2] jbd_reply_valid(2) [OF assms, of 3]
      jbd_reply_valid(2) [OF assms, of 4] jbd_reply_valid(2) [OF assms, of 5]
      jbd_reply_valid(2) [OF assms, of 6] jbd_reply_valid(2) [OF assms, of 7] by simp_all
  show ?thesis
    using jbd_reply_valid(1) [OF assms, of reg] wait
    by (simp add: jbd_refresh_def jbd_decode_def jbd_valid_def nth uint_U16 S16_positive_low)
qed

theorem jbd_refresh_decodes_witness:
  "\<exists>status. jbd_refresh \<lparr>jbd_max_charging_current_mA = 1, jbd_max_discharging_current_mA = 2\<rparr> 5
       (replicate 3 [] @ jbd_reply 3 0 (replicate 27 7) # []) = Inr status \<and>
     voltage_mV status = Fin (10 * of_int (256 * uint (replicate 27 7 ! 0 :: byte) + uint (replicate 27 7 ! 1 :: byte))) \<and>
     (\<not> bit (replicate 27 7 ! 3 :: byte) 7 \<longrightarrow>
        current_mA status = 10 * of_int (sint (U16 (replicate 27 7 ! 2) (replicate 27 7 ! 3)))) \<and>
     capacity_mAh status = 10 * of_int (256 * uint (replicate 27 7 ! 4 :: byte) + uint (replicate 27 7 ! 5 :: byte)) \<and>
     max_capacity_mAh status = 10 * of_int (256 * uint (replicate 27 7 ! 6 :: byte) + uint (replicate 27 7 ! 7 :: byte))"
  by (rule jbd_refresh_decodes) simp_all

text \<open>
  C21: a reply with one wrong byte is never reported as a status: whichever byte differs, the echo of
  the register apart, which the driver does not look at, the refresh returns the zero status.
\<close>

theorem jbd_detects_corruption:
  assumes "jbd_valid data" and "i < 34" and "i \<noteq> 1" and "b \<noteq> data ! i"
  shows "jbd_refresh bms now [data[i := b]] = Inr default_status"
proof -
  have "length data = 34" using assms(1) by (simp add: jbd_valid_def)
  then show ?thesis
    using jbd_decode_invalid [OF jbd_valid_update [OF assms]] by (auto simp: jbd_refresh_def)
qed

theorem jbd_detects_corruption_witness:
  "jbd_refresh \<lparr>jbd_max_charging_current_mA = 1, jbd_max_discharging_current_mA = 2\<rparr> 5
     [(jbd_reply 3 0 (replicate 27 7))[6 := 8]] = Inr default_status"
  by (rule jbd_detects_corruption, rule jbd_reply_valid(1))
     (simp_all add: jbd_reply_def Let_def nth_append)

text \<open>
  When the low byte of the current has its high bit set, the driver reports a small charging
  current, between -1280 and -10 mA, whatever the high byte says: the sign extension of the low byte
  overwrites it. A discharge of 2.56 A plus 1.28 A is reported as a charge of 1.28 A.
\<close>

theorem jbd_current_misread:
  assumes "jbd_valid data" and "bit (data ! 7) 7"
  shows "current_mA (jbd_decode bms now data) = 10 * of_int (sint (data ! 7)) \<and>
         - 1280 \<le> current_mA (jbd_decode bms now data) \<and> current_mA (jbd_decode bms now data) < 0"
  using assms sint_byte_bounds [of "data ! 7"] sint_negative_byte [of "data ! 7"]
  by (simp add: jbd_decode_def jbd_valid_def S16_negative_low sint_scast_byte del: of_int_sint)

theorem jbd_current_misread_witness:
  "current_mA (jbd_decode \<lparr>jbd_max_charging_current_mA = 1, jbd_max_discharging_current_mA = 2\<rparr> 5
     (jbd_reply 3 0 (replicate 27 0x80))) = - 1280"
  using jbd_current_misread [OF jbd_reply_valid(1) [of "replicate 27 0x80" 0 3],
      where bms = "\<lparr>jbd_max_charging_current_mA = 1, jbd_max_discharging_current_mA = 2\<rparr>" and now = 5]
    jbd_reply_valid(2) [of "replicate 27 0x80" 0 3 3]
  by simp

text \<open>
  The IEC 61850 driver reports the opposite of what it did: a request it carries out, by two
  writes in the order of the code, returns \<open>false\<close>, and a request it ignores returns \<open>true\<close>.
\<close>

theorem iec_verdict_inverted:
  "fst (iec_set_current c d) \<longleftrightarrow> iec_writes (snd (iec_set_current c d)) = iec_writes d"
  by (simp add: iec_set_current_def iec_write_def Let_def)

end
