(* ===== verification/V3_Creation.thy ===== *)
theory V3_Creation
  imports V3_BOS
begin

text \<open>
  The creation of batteries keeps a system well linked (\<open>server_ok\<close>): every object is below the next
  address, every link points at a live object of lower rank, every name of the directory at a live
  object. Between the allocation of partitions and the end of \<open>setSourceBattery\<close> some objects have no
  source; a status call made in between stays among the linked ones (\<open>closed_links\<close>) and returns.
\<close>

section \<open>Systems that grow\<close>

definition bounded :: "'d system \<Rightarrow> bool" where
  "bounded s \<longleftrightarrow> (\<forall>a. skel_at s a \<noteq> None \<longrightarrow> a < nextAddr s)"

definition extends :: "'d system \<Rightarrow> 'd system \<Rightarrow> bool" where
  "extends s s' \<longleftrightarrow> (\<forall>a. skel_at s a \<noteq> None \<longrightarrow> skel_at s' a = skel_at s a)"

definition sys_ok :: "'d system \<Rightarrow> bool" where
  "sys_ok s \<longleftrightarrow> wf_system s \<and> bounded s"

lemma bounded_new [simp]: "bounded s \<Longrightarrow> heap s (nextAddr s) = None"
  by (auto simp: bounded_def skel_at_def)

lemma bounded_cong:
  "skel_at s' = skel_at s \<Longrightarrow> nextAddr s' = nextAddr s \<Longrightarrow> bounded s \<Longrightarrow> bounded s'"
  by (simp add: bounded_def)

lemma frames_nextAddr: "frames s' = frames s \<Longrightarrow> nextAddr s' = nextAddr s"
  unfolding frames_def by (metis system.select_convs(2))

lemma sys_ok_frames: "frames s' = frames s \<Longrightarrow> sys_ok s \<Longrightarrow> sys_ok s'"
  using wf_system_cong [of s' s] bounded_cong [OF skel_at_cong [of s' s] frames_nextAddr]
  by (auto simp: sys_ok_def)

lemma rank_bound:
  assumes "wf_links s" and "bounded s" and "skel_at s a \<noteq> None"
  shows "rank s a < 2 * nextAddr s"
proof -
  have lt: "b < nextAddr s" if "skel_at s b \<noteq> None" for b
    using that assms(2) by (simp add: bounded_def)
  have "m < nextAddr s" if "skel_at s a = Some (PartitionBattery (Some m) r q)" for m r q
  proof -
    have "links_ok s a (PartitionBattery (Some m) r q)" using assms(1) that by (simp add: wf_links_def)
    then show ?thesis by (auto simp: links_ok_def intro: lt)
  qed
  with lt [OF assms(3)] show ?thesis by (fastforce simp: rank_def split: option.splits kind.splits)
qed

lemma extends_rank: "extends s s' \<Longrightarrow> skel_at s a \<noteq> None \<Longrightarrow> rank s' a = rank s a"
  by (simp add: extends_def rank_def)

lemma extends_links:
  assumes "extends s s'" and "skel_at s a = Some k" and "links_ok s a k"
  shows "links_ok s' a k"
  using assms extends_rank [OF assms(1)]
  by (auto simp: links_ok_def extends_def split: kind.splits option.splits)

lemma extends_wf_links:
  assumes "wf_links s" and "extends s s'"
    and "\<And>a k. skel_at s a = None \<Longrightarrow> skel_at s' a = Some k \<Longrightarrow> links_ok s' a k"
  shows "wf_links s'"
  unfolding wf_links_def
proof (intro allI impI)
  fix a k assume k: "skel_at s' a = Some k"
  show "links_ok s' a k"
  proof (cases "skel_at s a")
    case (Some k')
    then have "k' = k" using assms(2) k by (simp add: extends_def)
    with Some assms show ?thesis by (simp add: wf_links_def extends_links)
  qed (use assms(3) k in blast)
qed

section \<open>One new battery\<close>

text \<open>The kinds that can be entered on their own, their sources being there.\<close>

definition sources_there :: "'d system \<Rightarrow> 'd kind \<Rightarrow> bool" where
  "sources_there s k =
    (case k of
       AggregateBattery ps _ _ \<Rightarrow> ps \<noteq> [] \<and> (\<forall>p \<in> set ps. skel_at s p \<noteq> None)
     | PartitionBattery _ _ _ \<Rightarrow> False
     | PartitionManager _ _ _ _ \<Rightarrow> False
     | _ \<Rightarrow> True)"

lemma alloc_ok:
  assumes s: "sys_ok s" and b: "queue_inv b" and src: "sources_there s (kind b)"
  shows "sys_ok (snd (alloc b s))"
proof -
  let ?t = "snd (alloc b s)" and ?n = "nextAddr s"
  have wf: "wf_links s" and bd: "bounded s" and q: "queues_ok s"
    using s by (simp_all add: sys_ok_def wf_system_def)
  have new: "skel_at s ?n = None" using bd by (simp add: skel_at_def)
  have t: "skel_at ?t a = (if a = ?n then Some (skel (kind b)) else skel_at s a)" for a
    by (simp add: alloc_def skel_at_def)
  have ext: "extends s ?t" using new by (auto simp: extends_def t)
  have "wf_links ?t"
  proof (rule extends_wf_links [OF wf ext])
    fix a k assume "skel_at s a = None" "skel_at ?t a = Some k"
    then have k: "k = skel (kind b)" "a = ?n" by (auto simp: t split: if_splits)
    show "links_ok ?t a k"
    proof (cases "kind b")
      case (AggregateBattery ps c d)
      have "skel_at ?t p \<noteq> None \<and> rank ?t p < rank ?t ?n" if "p \<in> set ps" for p
      proof -
        have "skel_at s p \<noteq> None" using src that AggregateBattery by (simp add: sources_there_def)
        then have "rank ?t p < 2 * ?n" "skel_at ?t p \<noteq> None"
          using rank_bound [OF wf bd, of p] extends_rank [OF ext, of p] ext by (simp_all add: extends_def)
        moreover have "rank ?t ?n = 2 * ?n" using AggregateBattery by (simp add: rank_def t)
        ultimately show ?thesis by simp
      qed
      with src AggregateBattery show ?thesis by (simp add: k links_ok_def sources_there_def)
    qed (use src in \<open>simp_all add: k links_ok_def sources_there_def\<close>)
  qed
  moreover have "queues_ok ?t" using q b by (auto simp: queues_ok_def alloc_def)
  moreover have "bounded ?t" unfolding bounded_def t using bd by (auto simp: bounded_def alloc_def less_Suc_eq)
  ultimately show ?thesis by (simp add: sys_ok_def wf_system_def)
qed

lemma free_new_ok:
  assumes "sys_ok s"
  shows "sys_ok (free (nextAddr s) (snd (alloc b s)))"
proof -
  let ?t = "free (nextAddr s) (snd (alloc b s))"
  have "heap ?t = heap s"
    using assms by (auto simp: free_def alloc_def fun_eq_iff sys_ok_def)
  then show ?thesis
    using assms by (simp add: sys_ok_def wf_system_def bounded_def queues_ok_def wf_links_def
        links_ok_def rank_def skel_at_def free_def alloc_def cong: kind.case_cong option.case_cong)
      (metis less_SucI)
qed

section \<open>The invariant of the manager\<close>

definition server_ok :: "'d manager \<Rightarrow> bool" where
  "server_ok m \<longleftrightarrow> sys_ok (sys m) \<and> (\<forall>(n, a) \<in> set (batteryMap (dir m)). skel_at (sys m) a \<noteq> None)"

lemma server_ok_entry:
  "server_ok m \<Longrightarrow> getBattery n (dir m) = Some a \<Longrightarrow> skel_at (sys m) a \<noteq> None"
  by (auto simp: server_ok_def getBattery_def dest: map_of_SomeD)

lemma set_batteryMap_add:
  "set (batteryMap (snd (addBattery n a d))) \<subseteq> insert (n, a) (set (batteryMap d))"
  using str.pairs.set_insert_subset [of "(n, a)" "batteryMap d"]
  by (auto simp: addBattery_def map_insert_def simp del: str.pairs.set_insert_subset)

lemma batteryMap_addEdge [simp]: "batteryMap (snd (addEdge p c d)) = batteryMap d"
  by (simp add: addEdge_def)

lemma batteryMap_add_edges [simp]: "batteryMap (add_edges es d) = batteryMap d"
  by (induction es arbitrary: d) (auto simp: add_edges_def)

lemma enter_ok:
  assumes m: "server_ok m" and b: "queue_inv b" and src: "sources_there (sys m) (kind b)"
  shows "server_ok (snd (enter name b m))"
proof -
  let ?s = "snd (alloc b (sys m))" and ?n = "nextAddr (sys m)"
  have s: "sys_ok (sys m)" and entries: "\<forall>(n, a) \<in> set (batteryMap (dir m)). skel_at (sys m) a \<noteq> None"
    using m by (simp_all add: server_ok_def)
  have keep: "skel_at (sys m) a \<noteq> None \<Longrightarrow> skel_at ?s a = skel_at (sys m) a \<and> a \<noteq> ?n" for a
    using s by (auto simp: alloc_def sys_ok_def bounded_def skel_at_def)
  show ?thesis
  proof (cases "has_key name (batteryMap (dir m))")
    case True
    then have r: "snd (enter name b m) = m\<lparr>dir := dir m, sys := free ?n ?s\<rparr>"
      by (simp add: enter_def alloc_def addBattery_def)
    have "skel_at (free ?n ?s) a \<noteq> None" if "skel_at (sys m) a \<noteq> None" for a
      using keep [OF that] that by (simp add: free_def skel_at_def)
    with entries free_new_ok [OF s] show ?thesis unfolding r by (auto simp: server_ok_def)
  next
    case False
    then have r: "snd (enter name b m) = m\<lparr>dir := snd (addBattery name ?n (dir m)), sys := ?s\<rparr>"
      by (simp add: enter_def alloc_def addBattery_def)
    have "skel_at ?s ?n \<noteq> None" by (simp add: alloc_def skel_at_def)
    with entries keep set_batteryMap_add [of name ?n "dir m"] alloc_ok [OF s b src]
    show ?thesis unfolding r by (fastforce simp: server_ok_def)
  qed
qed

section \<open>Creations that enter one battery\<close>

lemma queue_inv_new_Battery: "queue_inv (new_Battery name t mode ty k)"
  by (simp add: queue_inv_def new_Battery_def)

lemma kind_new_Battery [simp]: "kind (new_Battery name t mode ty k) = k"
  by (simp add: new_Battery_def)

lemma queue_inv_refresh:
  "queue_inv ((new_Battery name t mode ty k)\<lparr>eventSet := [mk_event name REFRESH 0 now n]\<rparr>)"
  by (simp add: queue_inv_def new_Battery_def recorded_def)

lemma aggregate_parents_there:
  "aggregate_parents ns m = Some ps \<Longrightarrow> p \<in> set ps \<Longrightarrow> heap (sys m) p \<noteq> None"
  by (induction ns arbitrary: ps) (auto simp: aggregate_parent_def split: option.splits if_splits)

lemma createPhysicalBattery_ok: "server_ok m \<Longrightarrow> server_ok (snd (createPhysicalBattery j n t r m))"
  unfolding createPhysicalBattery_def by (intro enter_ok) (simp_all add: queue_inv_new_Battery sources_there_def)

lemma createDynamicBattery_ok: "server_ok m \<Longrightarrow> server_ok (snd (createDynamicBattery j d n t r m))"
  unfolding createDynamicBattery_def by (intro enter_ok) (simp_all add: queue_inv_new_Battery sources_there_def)

lemma createSecureBattery_ok: "server_ok m \<Longrightarrow> server_ok (snd (createSecureBattery n m))"
  unfolding createSecureBattery_def by (intro enter_ok) (simp_all add: queue_inv_new_Battery sources_there_def)

lemma server_ok_sequence:
  "server_ok m \<Longrightarrow> server_ok (m\<lparr>sys := (sys m)\<lparr>SEQUENCE_NUMBER := n\<rparr>\<rparr>)"
proof -
  let ?s = "(sys m)\<lparr>SEQUENCE_NUMBER := n\<rparr>"
  assume m: "server_ok m"
  have same: "skel_at ?s = skel_at (sys m)" by (simp add: fun_eq_iff skel_at_def)
  have "queues_ok ?s = queues_ok (sys m)" by (simp add: queues_ok_def)
  with m same skel_wf_links [OF same] show ?thesis
    by (simp add: server_ok_def sys_ok_def wf_system_def bounded_def)
qed

lemma server_ok_dir:
  "server_ok m \<Longrightarrow> set (batteryMap d) \<subseteq> set (batteryMap (dir m)) \<Longrightarrow> server_ok (m\<lparr>dir := d\<rparr>)"
  by (auto simp: server_ok_def)

lemma createAggregateBattery_ok:
  assumes m: "server_ok m"
  shows "server_ok (snd (createAggregateBattery now name ns t r m))"
proof (cases "aggregate_parents ns m")
  case (Some ps)
  show ?thesis
  proof (cases "ps = []")
    case False
    let ?n = "SEQUENCE_NUMBER (sys m)"
    let ?m = "m\<lparr>sys := (sys m)\<lparr>SEQUENCE_NUMBER := ?n + 1\<rparr>\<rparr>"
    let ?b = "(new_Battery name t r Aggregate (AggregateBattery ps 0 0))
      \<lparr>eventSet := [mk_event name REFRESH 0 now ?n]\<rparr> :: 'a battery"
    have "sources_there (sys ?m) (kind ?b)"
      using False aggregate_parents_there [OF Some] by (simp add: sources_there_def skel_at_def)
    then have "server_ok (snd (enter name ?b ?m))"
      by (intro enter_ok server_ok_sequence m queue_inv_refresh)
    with False Some show ?thesis
      by (auto simp: createAggregateBattery_def getSequenceNumber_def Let_def intro: server_ok_dir
          split: prod.splits option.splits)
  qed (simp add: createAggregateBattery_def Some m)
qed (simp add: createAggregateBattery_def m)

section \<open>The creation of partitions\<close>

lemma queue_inv_insert_refresh:
  assumes "queue_inv b"
  shows "queue_inv (b\<lparr>eventSet := es_insert (mk_event name REFRESH 0 t n) (eventSet b)\<rparr>)"
proof -
  have "recorded m (mk_event name REFRESH 0 t n)" for m by (simp add: recorded_def split: option.splits)
  then show ?thesis
    using assms ev.set_insert_superset [of "eventSet b"] ev.set_insert_subset [of _ "eventSet b"]
    by (fastforce simp: queue_inv_def intro: ev.sorted_set_insert)
qed

text \<open>The objects between the allocation and the end of \<open>setSourceBattery\<close>: \<open>todo\<close> have no source yet.\<close>

definition partition_at :: "'d system \<Rightarrow> addr \<Rightarrow> addr option \<Rightarrow> bool" where
  "partition_at s a src \<longleftrightarrow>
     (\<exists>b r q. heap s a = Some b \<and> queue_inv b \<and> kind b = PartitionBattery src r q)"

lemma setSourceBattery_spec:
  assumes run: "setSourceBattery now ma a s = Inr s'" and at: "partition_at s a src"
  shows "partition_at s' a (Some ma)" and "\<And>c. c \<noteq> a \<Longrightarrow> heap s' c = heap s c"
    and "nextAddr s' = nextAddr s"
proof -
  obtain b r q where b: "heap s a = Some b" "queue_inv b" "kind b = PartitionBattery src r q"
    using at by (auto simp: partition_at_def)
  let ?s1 = "upd a (\<lambda>b. b\<lparr>kind := PartitionBattery (Some ma) r q\<rparr>) s"
  obtain st where s': "s' = (if refreshMode b = ACTIVE
      then insert_refresh (now + maxStaleness b) a (set_status a st ?s1) else set_status a st ?s1)"
    using run b by (auto simp: setSourceBattery_def deref_def Let_def)
  note defs = s' insert_refresh_def getSequenceNumber_def set_status_def upd_def Let_def
  show "partition_at s' a (Some ma)"
  proof (cases "refreshMode b")
    case ACTIVE
    have "queue_inv (b\<lparr>kind := PartitionBattery (Some ma) r q, bat_status := st\<rparr>)"
      using b(2) by (simp add: queue_inv_def)
    from queue_inv_insert_refresh [OF this, of "batteryName b" "now + maxStaleness b" "SEQUENCE_NUMBER s"]
    show ?thesis using b ACTIVE by (simp add: partition_at_def defs)
  next
    case LAZY
    with b show ?thesis by (simp add: partition_at_def defs) (simp add: queue_inv_def)
  qed
  show "heap s' c = heap s c" if "c \<noteq> a" for c using that by (simp add: defs)
  show "nextAddr s' = nextAddr s" by (simp add: defs)
qed

lemma setSourceBattery_loop:
  assumes run: "ofold (setSourceBattery now ma) as s = Inr s'"
    and at: "\<forall>a \<in> set as. \<exists>src. partition_at s a src"
  shows "\<forall>a \<in> set as. partition_at s' a (Some ma)" and "\<And>c. c \<notin> set as \<Longrightarrow> heap s' c = heap s c"
    and "nextAddr s' = nextAddr s"
proof -
  let ?P = "\<lambda>xs u. nextAddr u = nextAddr s \<and> set xs \<subseteq> set as \<and> (\<forall>c. c \<notin> set as \<longrightarrow> heap u c = heap s c) \<and>
    (\<forall>a \<in> set as. \<exists>src. partition_at u a src) \<and> (\<forall>a \<in> set as - set xs. partition_at u a (Some ma))"
  have "?P [] s'"
  proof (rule ofold_invariant [OF run, of ?P])
    fix y ys u v assume P: "?P (y # ys) u" and step: "setSourceBattery now ma y u = Inr v"
    then obtain src where "partition_at u y src" by auto
    note spec = setSourceBattery_spec [OF step this]
    have other: "partition_at v a src \<longleftrightarrow> partition_at u a src" if "a \<noteq> y" for a src
      using spec(2) [OF that] by (simp add: partition_at_def)
    show "?P ys v"
    proof (intro conjI ballI allI impI)
      fix a assume "a \<in> set as - set ys"
      then show "partition_at v a (Some ma)" using P spec(1) other by (cases "a = y") auto
    next
      fix a assume "a \<in> set as"
      then show "\<exists>src. partition_at v a src" using P spec(1) other by (cases "a = y") auto
    next
      fix c assume c: "c \<notin> set as"
      with P have "c \<noteq> y" by auto
      with P c spec(2) show "heap v c = heap s c" by simp
    qed (use P spec in auto)
  qed (use at in auto)
  then show "\<forall>a \<in> set as. partition_at s' a (Some ma)" "\<And>c. c \<notin> set as \<Longrightarrow> heap s' c = heap s c"
    "nextAddr s' = nextAddr s" by auto
qed

lemma alloc_partitions_other:
  "alloc_partitions xs s = (as, s') \<Longrightarrow> a \<notin> set as \<Longrightarrow> heap s' a = heap s a"
proof (induction xs arbitrary: s as)
  case (Cons x xs)
  obtain n t r where x: "x = (n, t, r)" by (cases x)
  obtain as' where "alloc_partitions xs (snd (alloc (new_Battery n t r Partition
      (PartitionBattery None False 0)) s)) = (as', s')" and "as = nextAddr s # as'"
    using Cons.prems(1) by (auto simp: x alloc_def split: prod.splits)
  with Cons.IH [of _ as'] Cons.prems(2) show ?case by (simp add: alloc_def)
qed simp

lemma alloc_partitions_queues:
  assumes q: "queues_ok s" and al: "alloc_partitions xs s = (as, s1)"
  shows "queues_ok s1" and "\<forall>a \<in> set as. skel_at s1 a = Some (PartitionBattery None False 0)"
proof -
  note spec = alloc_partitions_spec [OF al]
  have new: "\<exists>n t r. heap s1 a = Some (new_Battery n t r Partition (PartitionBattery None False 0))"
    if "a \<in> set as" for a
  proof -
    have "nextAddr s \<le> a" "a < nextAddr s + length xs" using that spec(1) by auto
    then obtain i where i: "i < length xs" "a = nextAddr s + i"
      by (metis le_add_diff_inverse nat_add_left_cancel_less)
    show ?thesis using spec(4) [OF i(1)] i(2) by (cases "xs ! i") auto
  qed
  show "\<forall>a \<in> set as. skel_at s1 a = Some (PartitionBattery None False 0)"
    using new by (fastforce simp: skel_at_def)
  show "queues_ok s1"
    unfolding queues_ok_def
  proof (intro allI impI)
    fix a b assume "heap s1 a = Some b"
    then show "queue_inv b"
      using new [of a] alloc_partitions_other [OF al, of a] q queue_inv_new_Battery
      by (cases "a \<in> set as") (auto simp: queues_ok_def)
  qed
qed

text \<open>What the manager and its children are linked to once \<open>setSourceBattery\<close> has run over them.\<close>

lemma partitions_linked:
  assumes s: "sys_ok s" and al: "alloc_partitions xs s = (as, s1)" and src: "skel_at s src \<noteq> None"
    and fr: "frames s2 = frames s1"
    and mb: "kind mb = kind.PartitionManager policy src props as" "queue_inv mb"
    and len: "length as \<le> length props" and ma: "ma = nextAddr s2"
    and loop: "ofold (setSourceBattery now ma) as
      (snd (alloc mb (s2\<lparr>SEQUENCE_NUMBER := n\<rparr>))) = Inr s4"
  shows "sys_ok s4 \<and> extends s s4 \<and> (\<forall>a \<in> insert ma (set as). skel_at s4 a \<noteq> None)"
proof -
  let ?s3 = "snd (alloc mb (s2\<lparr>SEQUENCE_NUMBER := n\<rparr>))"
  have wf: "wf_links s" and bd: "bounded s" and q: "queues_ok s"
    using s by (simp_all add: sys_ok_def wf_system_def)
  note spec = alloc_partitions_spec [OF al]
  have nxt: "nextAddr s2 = nextAddr s + length xs" using frames_nextAddr [OF fr] spec(2) by simp
  have skel2: "skel_at s2 = skel_at s1" using skel_at_cong [OF fr] .
  have q2: "queues_ok s2"
    using alloc_partitions_queues(1) [OF q al] fr by (metis queues_ok_frames)
  have notin: "ma \<notin> set as" using spec(1) nxt ma by simp
  have heap3: "heap ?s3 = (heap s2)(ma \<mapsto> mb)" "nextAddr ?s3 = Suc ma"
    using ma by (simp_all add: alloc_def)
  have at: "\<forall>a \<in> set as. \<exists>src. partition_at ?s3 a src"
  proof
    fix a assume a: "a \<in> set as"
    then have "skel_at s2 a = Some (PartitionBattery None False 0)"
      using alloc_partitions_queues(2) [OF q al] skel2 by simp
    then obtain b where b: "heap s2 a = Some b" "skel (kind b) = PartitionBattery None False 0"
      by (auto simp: skel_at_def)
    moreover have "a \<noteq> ma" using a notin by auto
    ultimately show "\<exists>src. partition_at ?s3 a src"
      using q2 by (cases "kind b") (auto simp: partition_at_def heap3 queues_ok_def)
  qed
  note res = setSourceBattery_loop [OF loop at]
  have skel4: "skel_at s4 ma = Some (kind.PartitionManager policy src props as)"
    "\<And>a. a \<in> set as \<Longrightarrow> \<exists>r q. skel_at s4 a = Some (PartitionBattery (Some ma) r q)"
    using res(1) res(2) [OF notin] mb by (fastforce simp: skel_at_def partition_at_def heap3)+
  have old: "skel_at s4 a = skel_at s a" if "a \<notin> set as" "a \<noteq> ma" for a
  proof -
    have "skel_at s4 a = skel_at s2 a" using res(2) [OF that(1)] that(2) by (simp add: skel_at_def heap3)
    also have "\<dots> = skel_at s a"
      using skel2 alloc_partitions_other [OF al that(1)] by (simp add: skel_at_def)
    finally show ?thesis .
  qed
  have small: "a \<notin> set as" "a \<noteq> ma" if "skel_at s a \<noteq> None" for a
    using that bd spec(1) nxt ma by (auto simp: bounded_def)
  have ext: "extends s s4" using small old by (auto simp: extends_def)
  have wf4: "wf_links s4"
  proof (rule extends_wf_links [OF wf ext])
    fix a k assume "skel_at s a = None" and k: "skel_at s4 a = Some k"
    then consider "a \<in> set as" | "a = ma" using old by fastforce
    then show "links_ok s4 a k"
    proof cases
      case 1
      then show ?thesis using skel4 k by (fastforce simp: links_ok_def rank_def)
    next
      case 2
      have "rank s4 src < 2 * ma"
        using rank_bound [OF wf bd src] extends_rank [OF ext src] nxt ma by simp
      moreover have "skel_at s4 src \<noteq> None" using ext src by (simp add: extends_def)
      ultimately show ?thesis
        using 2 k skel4 len by (fastforce simp: links_ok_def rank_def)
    qed
  qed
  have q4: "queues_ok s4"
    unfolding queues_ok_def
  proof (intro allI impI)
    fix a b assume "heap s4 a = Some b"
    then show "queue_inv b"
      using res(1) res(2) [of a] q2 mb(2)
      by (cases "a \<in> set as") (auto simp: partition_at_def queues_ok_def heap3 split: if_splits)
  qed
  have "bounded s4"
    unfolding bounded_def
  proof (intro allI impI)
    fix a assume "skel_at s4 a \<noteq> None"
    then show "a < nextAddr s4"
      using old [of a] bd spec(1) nxt ma res(3) heap3(2) by (fastforce simp: bounded_def)
  qed
  with wf4 q4 ext skel4 show ?thesis by (fastforce simp: sys_ok_def wf_system_def)
qed

lemma partitions_freed:
  assumes s: "sys_ok s" and al: "alloc_partitions xs s = (as, s1)"
  shows "sys_ok (fold free as s1) \<and> skel_at (fold free as s1) = skel_at s"
proof -
  let ?t = "fold free as s1"
  have "nextAddr (fold free as u) = nextAddr u" for u :: "'a system"
    by (induction as arbitrary: u) (auto simp: free_def)
  then have nxt: "nextAddr ?t = nextAddr s + length xs" using alloc_partitions_spec(2) [OF al] by simp
  have "heap ?t a = heap s a" for a
  proof (cases "a \<in> set as")
    case True
    then have "nextAddr s \<le> a" using alloc_partitions_spec(1) [OF al] by simp
    then have "heap s a = None"
      using s by (cases "heap s a") (auto simp: sys_ok_def bounded_def skel_at_def dest: spec [of _ a])
    with True show ?thesis by (simp add: free_dead)
  qed (simp add: free_dead alloc_partitions_other [OF al])
  then have h: "heap ?t = heap s" by blast
  then have "skel_at ?t = skel_at s" by (simp add: fun_eq_iff skel_at_def)
  with s nxt skel_wf_links [OF this] h show ?thesis
    by (auto simp: sys_ok_def wf_system_def queues_ok_def bounded_def)
qed

lemma has_key_set: "has_key k m \<longleftrightarrow> k \<in> fst ` set m"
  by (force simp: has_key_def map_of_eq_None_iff)

lemma enter_partitions_fresh:
  assumes "distinct (map fst xs)" and "\<forall>n \<in> fst ` set xs. \<not> has_key n (batteryMap (dir m))"
  shows "fst (enter_partitions pm xs m) \<and> sys (snd (enter_partitions pm xs m)) = sys m \<and>
    set (batteryMap (dir (snd (enter_partitions pm xs m)))) \<subseteq> set (batteryMap (dir m)) \<union> set xs"
  using assms
proof (induction xs arbitrary: m)
  case (Cons x xs)
  obtain n a where x: "x = (n, a)" by (cases x)
  obtain d where add: "addBattery n a (dir m) = (True, d)"
    using Cons.prems(2) by (simp add: x addBattery_def)
  let ?m = "m\<lparr>dir := snd (addEdge pm n d)\<rparr>"
  have sub: "set (batteryMap (dir ?m)) \<subseteq> insert (n, a) (set (batteryMap (dir m)))"
    using set_batteryMap_add [of n a "dir m"] by (simp add: add)
  have "fst ` set (batteryMap (dir ?m)) \<subseteq> insert n (fst ` set (batteryMap (dir m)))"
    using image_mono [OF sub, of fst] by simp
  moreover have "n \<notin> fst ` set xs" using Cons.prems(1) by (simp add: x)
  moreover have "\<forall>k \<in> fst ` set xs. k \<notin> fst ` set (batteryMap (dir m))"
    using Cons.prems(2) by (simp add: has_key_set)
  ultimately have "\<forall>n \<in> fst ` set xs. \<not> has_key n (batteryMap (dir ?m))"
    unfolding has_key_set by blast
  from Cons.IH [OF _ this] Cons.prems(1)
  have IH: "fst (enter_partitions pm xs ?m) \<and> sys (snd (enter_partitions pm xs ?m)) = sys ?m \<and>
    set (batteryMap (dir (snd (enter_partitions pm xs ?m)))) \<subseteq> set (batteryMap (dir ?m)) \<union> set xs"
    by simp
  obtain ok m2 where r: "enter_partitions pm xs ?m = (ok, m2)" by fastforce
  have "enter_partitions pm (x # xs) m = (ok, m2)" by (simp add: x add r)
  moreover have "set (batteryMap (dir m2)) \<subseteq> set (batteryMap (dir m)) \<union> set (x # xs)"
  proof -
    have "set (batteryMap (dir m2)) \<subseteq> set (batteryMap (dir ?m)) \<union> set xs"
      using IH unfolding r by simp
    also have "\<dots> \<subseteq> insert x (set (batteryMap (dir m))) \<union> set xs"
      using sub unfolding x by (rule Un_mono [OF _ subset_refl])
    finally show ?thesis by simp
  qed
  ultimately show ?case using IH unfolding r by simp
qed simp

lemma server_ok_extended:
  assumes "server_ok m" and "sys_ok (sys m')" and "extends (sys m) (sys m')"
    and "set (batteryMap (dir m')) \<subseteq> E \<union> set (batteryMap (dir m))"
    and "\<forall>a \<in> snd ` E. skel_at (sys m') a \<noteq> None"
  shows "server_ok m'"
proof -
  have "skel_at (sys m') a \<noteq> None" if "(n, a) \<in> set (batteryMap (dir m'))" for n a
  proof (cases "(n, a) \<in> E")
    case True
    then have "a \<in> snd ` E" by force
    then show ?thesis using assms(5) by blast
  next
    case False
    then have "(n, a) \<in> set (batteryMap (dir m))" using assms(4) that by blast
    then have "skel_at (sys m) a \<noteq> None" using assms(1) by (auto simp: server_ok_def)
    then show ?thesis using assms(3) by (simp add: extends_def)
  qed
  with assms(2) show ?thesis by (auto simp: server_ok_def)
qed

text \<open>The names a request gives to its partitions are new.\<close>

definition fresh_children :: "string list \<Rightarrow> 'd manager \<Rightarrow> bool" where
  "fresh_children names m \<longleftrightarrow>
     distinct names \<and>
     (\<forall>n \<in> set names. \<not> nameExists n (dir m) \<and> n \<noteq> fst (createPartitionManagerName m))"

lemma createPartitionBattery_ok:
  assumes m: "server_ok m" and fresh: "fresh_children names m"
    and run: "createPartitionBattery k env sn policy names props ts modes m = Inr (as, m')"
  shows "server_ok m'"
proof -
  obtain as' s1 where al: "alloc_partitions (zip names (zip ts modes)) (sys m) = (as', s1)" by fastforce
  have s: "sys_ok (sys m)" using m by (simp add: server_ok_def)
  have freed: "server_ok (m\<lparr>sys := fold free as' s1\<rparr>)"
    using partitions_freed [OF s al] m by (auto simp: server_ok_def)
  show ?thesis
  proof (cases "m' = m \<or> m' = m\<lparr>sys := fold free as' s1\<rparr>")
    case True
    with m freed show ?thesis by blast
  next
    case False
    note def = createPartitionBattery_def Let_def al
    have lens: "length names = length props" "length props = length ts" "length ts = length modes"
      using run False by (auto simp: def split: if_splits)
    obtain src where src: "getBattery sn (dir m) = Some src"
      using run False by (cases "getBattery sn (dir m)") (auto simp: def split: if_splits)
    obtain pm m1 where nm: "createPartitionManagerName (m\<lparr>sys := s1\<rparr>) = (pm, m1)" by fastforce
    then have m1: "sys m1 = s1" "dir m1 = dir m" and pm: "pm = fst (createPartitionManagerName m)"
      by (auto simp: createPartitionManagerName_def)
    obtain ma s2 s3 ok d1 where new: "new_PartitionManager k env pm props policy src as' s1 = Inr (ma, s2)"
      and loop: "ofold (setSourceBattery (getTimeNow env) ma) as' s2 = Inr s3"
      and add: "addBattery pm ma (dir m) = (True, d1)"
      and m': "m' = snd (enter_partitions pm (zip names as')
        (m1\<lparr>dir := snd (addEdge sn pm d1), sys := s3\<rparr>))"
      using run False by (auto simp: def src nm m1 split: if_splits prod.splits)
    have len: "length as' = length names"
      using alloc_partitions_spec(1) [OF al] lens by simp
    obtain st t where gs: "getStatus k env src s1 = Inr (st, t)"
      and al2: "(ma, s2) = alloc ((new_Battery pm 60000 ACTIVE BatteryType.PartitionManager
        (kind.PartitionManager policy src props as'))\<lparr>bat_status := st,
        eventSet := [mk_event pm REFRESH 0 (getTimeNow env + 60000) (SEQUENCE_NUMBER t)]\<rparr>)
        (t\<lparr>SEQUENCE_NUMBER := SEQUENCE_NUMBER t + 1\<rparr>)" (is "_ = alloc ?b _")
      using new by (auto simp: new_PartitionManager_def getSequenceNumber_def)
    have "sys_ok s3 \<and> extends (sys m) s3 \<and> (\<forall>a \<in> insert ma (set as'). skel_at s3 a \<noteq> None)"
    proof (rule partitions_linked [OF s al server_ok_entry [OF m src] getStatus_frames [OF gs], of ?b policy props])
      show "queue_inv ?b" by (simp add: queue_inv_def new_Battery_def recorded_def)
      show "ma = nextAddr t" using al2 by (simp add: alloc_def)
      show "ofold (setSourceBattery (getTimeNow env) ma) as'
          (snd (alloc ?b (t\<lparr>SEQUENCE_NUMBER := SEQUENCE_NUMBER t + 1\<rparr>))) = Inr s3"
        using loop al2 by (metis snd_conv)
    qed (simp_all add: len lens)
    moreover have "sys m' = s3" and sub': "set (batteryMap (dir m')) \<subseteq>
        insert (pm, ma) (set (zip names as')) \<union> set (batteryMap (dir m))"
    proof -
      let ?m = "m1\<lparr>dir := snd (addEdge sn pm d1), sys := s3\<rparr>"
      have sub: "set (batteryMap d1) \<subseteq> insert (pm, ma) (set (batteryMap (dir m)))"
        using set_batteryMap_add [of pm ma "dir m"] add by simp
      have names: "map fst (zip names as') = names" using len by simp
      then have "fst ` set (zip names as') = set names" by (metis set_map)
      moreover have "fst ` set (batteryMap (dir ?m)) \<subseteq> insert pm (fst ` set (batteryMap (dir m)))"
        using image_mono [OF sub, of fst] by simp
      ultimately have "\<forall>n \<in> fst ` set (zip names as'). \<not> has_key n (batteryMap (dir ?m))"
        using fresh unfolding pm fresh_children_def nameExists_def has_key_set by auto
      moreover have "distinct names" using fresh by (simp add: fresh_children_def)
      ultimately have res: "sys m' = sys ?m \<and> set (batteryMap (dir m')) \<subseteq>
          set (batteryMap (dir ?m)) \<union> set (zip names as')"
        unfolding m' using enter_partitions_fresh [of "zip names as'" ?m pm] names by metis
      then show "sys m' = s3" by simp
      have "set (batteryMap (dir ?m)) = set (batteryMap d1)" by simp
      with res sub show "set (batteryMap (dir m')) \<subseteq>
        insert (pm, ma) (set (zip names as')) \<union> set (batteryMap (dir m))" by blast
    qed
    moreover have "snd ` insert (pm, ma) (set (zip names as')) \<subseteq> insert ma (set as')"
      by (auto dest: set_zip_rightD)
    ultimately show ?thesis by (intro server_ok_extended [OF m _ _ sub']) auto
  qed
qed

section \<open>Creations do not fault\<close>

text \<open>
  A status call stays among the sources of the battery: it returns although other batteries, the
  partitions just allocated, are not linked yet.
\<close>

definition closed_links :: "addr set \<Rightarrow> 'd system \<Rightarrow> bool" where
  "closed_links A s \<longleftrightarrow>
     (\<forall>a \<in> A. \<exists>k. skel_at s a = Some k \<and> links_ok s a k \<and> status_sources k \<subseteq> A)"

lemma links_ok_cong: "skel_at s = skel_at t \<Longrightarrow> links_ok s a k = links_ok t a k"
  using skel_rank [of s t] by (simp add: links_ok_def cong: kind.case_cong option.case_cong)

lemma closed_links_cong: "skel_at s = skel_at t \<Longrightarrow> closed_links A s = closed_links A t"
  using links_ok_cong [of s t] by (simp add: closed_links_def)

lemma getStatus_total_on:
  fixes s :: "'d system"
  assumes "closed_links A s" and "a \<in> A" and "rank s a < n"
  shows "\<exists>st s'. getStatus n env a s = Inr (st, s') \<and> frames s' = frames s"
  using assms
proof (induction n arbitrary: a s)
  case (Suc n)
  obtain k where k: "skel_at s a = Some k" and links: "links_ok s a k" and sub: "status_sources k \<subseteq> A"
    using Suc.prems(1,2) by (auto simp: closed_links_def)
  obtain b where b: "deref a s = Inr b" using deref_skel [OF k] by blast
  have "status_ok (getStatus n env) s (status_sources k)"
    unfolding status_ok_def
  proof (intro ballI allI impI)
    fix p and s' :: "'d system"
    assume p: "p \<in> status_sources k" and fr: "frames s' = frames s"
    have "closed_links A s'" "p \<in> A" "rank s' p < n"
      using Suc.prems(1,3) sub p status_sources_rank [OF links p] closed_links_cong [OF skel_at_cong [OF fr]]
        rank_cong [OF fr] by auto
    from Suc.IH [OF this] fr show "\<exists>st t. getStatus n env p s' = Inr (st, t) \<and> frames t = frames s"
      by auto
  qed
  from refresh_with_total [OF k links this, of env] b show ?case
    by (auto simp: checkAndRefresh_with_def)
qed simp

lemma child_index_found:
  assumes "a \<in> set cs" and "\<forall>c \<in> set cs. heap s c \<noteq> None" and "heap s a = Some b"
  shows "\<exists>i < length cs. child_index (batteryName b) cs s = Inr i"
  using assms
proof (induction cs)
  case (Cons c cs)
  obtain d where d: "heap s c = Some d" using Cons.prems(2) by auto
  show ?case
  proof (cases "batteryName d = batteryName b")
    case False
    then have "a \<in> set cs" using Cons.prems(1,3) d by auto
    with Cons.IH Cons.prems(2,3) obtain i where "i < length cs" "child_index (batteryName b) cs s = Inr i"
      by auto
    with d False show ?thesis by (auto simp: deref_def)
  qed (use d in \<open>auto simp: deref_def\<close>)
qed simp

lemma setSourceBattery_returns:
  assumes ma: "heap s ma = Some mb" "kind mb = kind.PartitionManager policy src props cs" "length cs \<le> length props"
    and at: "\<forall>c \<in> set cs. \<exists>src. partition_at s c src" and a: "a \<in> set cs" "ma \<notin> set cs"
  shows "\<exists>s'. setSourceBattery now ma a s = Inr s'"
proof -
  obtain b src' r q where b: "heap s a = Some b" "kind b = PartitionBattery src' r q"
    using at a(1) by (auto simp: partition_at_def)
  let ?s1 = "upd a (\<lambda>b. b\<lparr>kind := PartitionBattery (Some ma) r q\<rparr>) s"
  have alive: "\<forall>c \<in> set cs. heap ?s1 c \<noteq> None"
  proof
    fix c assume "c \<in> set cs"
    then obtain d where "heap s c = Some d" using at by (auto simp: partition_at_def)
    then show "heap ?s1 c \<noteq> None" using b by (simp add: upd_def)
  qed
  have "heap ?s1 a = Some (b\<lparr>kind := PartitionBattery (Some ma) r q\<rparr>)" using b by (simp add: upd_def)
  from child_index_found [OF a(1) alive this] obtain i where
    i: "i < length cs" "child_index (batteryName b) cs ?s1 = Inr i" by auto
  have "ma \<noteq> a" using a by auto
  then have "heap ?s1 ma = Some mb" using ma(1) by (simp add: upd_def)
  with i ma b show ?thesis
    by (simp add: setSourceBattery_def initBatteryStatus_def deref_def Let_def)
qed

lemma setSourceBattery_loop_returns:
  assumes ma: "heap s ma = Some mb" "kind mb = kind.PartitionManager policy src props cs" "length cs \<le> length props"
    and at: "\<forall>c \<in> set cs. \<exists>src. partition_at s c src" and "ma \<notin> set cs"
  shows "\<exists>s'. ofold (setSourceBattery now ma) cs s = Inr s'"
proof -
  let ?P = "\<lambda>xs u. set xs \<subseteq> set cs \<and> heap u ma = Some mb \<and> (\<forall>c \<in> set cs. \<exists>src. partition_at u c src)"
  have "\<exists>t. ofold (setSourceBattery now ma) cs s = Inr t \<and> ?P [] t"
  proof (rule ofold_total [where P = ?P])
    fix y ys u assume P: "?P (y # ys) u"
    then have y: "y \<in> set cs" and u: "heap u ma = Some mb" "\<forall>c \<in> set cs. \<exists>src. partition_at u c src"
      by simp_all
    obtain v where run: "setSourceBattery now ma y u = Inr v"
      using setSourceBattery_returns [OF u(1) ma(2,3) u(2) y assms(5)] by blast
    obtain src' where "partition_at u y src'" using u(2) y by blast
    note spec = setSourceBattery_spec [OF run this]
    have "\<exists>src. partition_at v c src" if "c \<in> set cs" for c
      using P spec(1) spec(2) [of c] that by (cases "c = y") (auto simp: partition_at_def)
    moreover have "heap v ma = Some mb" using P spec(2) [of ma] y assms(5) by auto
    ultimately show "\<exists>v. setSourceBattery now ma y u = Inr v \<and> ?P ys v" using run P by auto
  qed (use ma at in auto)
  then show ?thesis by blast
qed

lemma wf_closed_links:
  assumes "wf_links s" and "extends s t"
  shows "closed_links {a. skel_at s a \<noteq> None} t"
  unfolding closed_links_def
proof
  fix a assume "a \<in> {a. skel_at s a \<noteq> None}"
  then obtain k where k: "skel_at s a = Some k" by auto
  then have links: "links_ok s a k" using assms(1) by (simp add: wf_links_def)
  have "status_sources k \<subseteq> {a. skel_at s a \<noteq> None}" using status_sources_rank [OF links] by blast
  moreover have "skel_at t a = Some k" using assms(2) k by (simp add: extends_def)
  ultimately show "\<exists>k. skel_at t a = Some k \<and> links_ok t a k \<and> status_sources k \<subseteq> {a. skel_at s a \<noteq> None}"
    using extends_links [OF assms(2) k links] by blast
qed

lemma new_PartitionManager_returns:
  assumes s: "sys_ok s" and al: "alloc_partitions xs s = (as, s1)" and src: "skel_at s src \<noteq> None"
    and k: "2 * nextAddr s \<le> k" and len: "length as \<le> length props"
  shows "\<exists>ma s2 s3. new_PartitionManager k env pm props policy src as s1 = Inr (ma, s2) \<and>
    ofold (setSourceBattery now ma) as s2 = Inr s3"
proof -
  have wf: "wf_links s" and bd: "bounded s" and q: "queues_ok s"
    using s by (simp_all add: sys_ok_def wf_system_def)
  note spec = alloc_partitions_spec [OF al]
  have ext: "extends s s1"
    using bd spec(3) by (auto simp: extends_def bounded_def skel_at_def)
  have "rank s1 src < k" using rank_bound [OF wf bd src] extends_rank [OF ext src] k by simp
  then obtain st t where gs: "getStatus k env src s1 = Inr (st, t)" and fr: "frames t = frames s1"
    using getStatus_total_on [OF wf_closed_links [OF wf ext], of src k env] src by auto
  let ?b = "(new_Battery pm 60000 ACTIVE BatteryType.PartitionManager
      (kind.PartitionManager policy src props as))\<lparr>bat_status := st,
      eventSet := [mk_event pm REFRESH 0 (getTimeNow env + 60000) (SEQUENCE_NUMBER t)]\<rparr>"
  let ?s2 = "snd (alloc ?b (t\<lparr>SEQUENCE_NUMBER := SEQUENCE_NUMBER t + 1\<rparr>))" and ?ma = "nextAddr t"
  have new: "new_PartitionManager k env pm props policy src as s1 = Inr (?ma, ?s2)"
    by (simp add: new_PartitionManager_def gs getSequenceNumber_def alloc_def)
  have notin: "?ma \<notin> set as" using spec(1,2) frames_nextAddr [OF fr] by simp
  have heap2: "heap ?s2 = (heap t)(?ma \<mapsto> ?b)" by (simp add: alloc_def)
  have "\<exists>src. partition_at ?s2 a src" if a: "a \<in> set as" for a
  proof -
    have "skel_at t a = Some (PartitionBattery None False 0)"
      using alloc_partitions_queues(2) [OF q al] skel_at_cong [OF fr] a by simp
    then obtain b where b: "heap t a = Some b" "skel (kind b) = PartitionBattery None False 0"
      by (auto simp: skel_at_def)
    moreover have "queues_ok t" using alloc_partitions_queues(1) [OF q al] fr by (metis queues_ok_frames)
    moreover have "a \<noteq> ?ma" using a notin by auto
    ultimately show ?thesis by (cases "kind b") (auto simp: partition_at_def heap2 queues_ok_def)
  qed
  then obtain s3 where "ofold (setSourceBattery now ?ma) as ?s2 = Inr s3"
    using setSourceBattery_loop_returns [of ?s2 ?ma ?b policy src props as now] len notin heap2 by auto
  with new show ?thesis by blast
qed

lemma createPartitionBattery_returns:
  assumes m: "server_ok m" and k: "2 * nextAddr (sys m) \<le> k"
  shows "(\<exists>as m'. createPartitionBattery k env sn policy names props ts modes m = Inr (as, m')) \<or>
    (nameExists (fst (createPartitionManagerName m)) (dir m) \<and>
     createPartitionBattery k env sn policy names props ts modes m = Inl Process_exit)"
proof -
  let ?run = "createPartitionBattery k env sn policy names props ts modes m"
  let ?ok = "\<exists>as m'. ?run = Inr (as, m')"
  obtain as s1 where al: "alloc_partitions (zip names (zip ts modes)) (sys m) = (as, s1)" by fastforce
  have s: "sys_ok (sys m)" using m by (simp add: server_ok_def)
  note def = createPartitionBattery_def Let_def al
  show ?thesis
  proof (cases ?ok)
    case False
    have lens: "length names = length props" "length props = length ts" "length ts = length modes"
      using False by (auto simp: def split: if_splits)
    obtain src where src: "getBattery sn (dir m) = Some src"
      using False by (cases "getBattery sn (dir m)") (auto simp: def split: if_splits)
    have alive: "skel_at (sys m) src \<noteq> None" by (rule server_ok_entry [OF m src])
    then have "src < nextAddr (sys m)" using s by (auto simp: sys_ok_def bounded_def)
    then have "heap s1 src = heap (sys m) src" using alloc_partitions_spec(3) [OF al] by simp
    then obtain sb where sb: "deref src s1 = Inr sb" using alive by (auto simp: deref_def skel_at_def)
    obtain pm m1 where nm: "createPartitionManagerName (m\<lparr>sys := s1\<rparr>) = (pm, m1)" by fastforce
    then have m1: "sys m1 = s1" "dir m1 = dir m" and pm: "pm = fst (createPartitionManagerName m)"
      by (auto simp: createPartitionManagerName_def)
    have "length as \<le> length props" using alloc_partitions_spec(1) [OF al] lens by simp
    then obtain ma s2 s3 where
      new: "new_PartitionManager k env pm props policy src as s1 = Inr (ma, s2)"
      and loop: "ofold (setSourceBattery (getTimeNow env) ma) as s2 = Inr s3"
      using new_PartitionManager_returns [OF s al alive k, of props env pm policy] by blast
    show ?thesis
    proof (cases "has_key pm (batteryMap (dir m))")
      case True
      then have "?run = Inl Process_exit"
        using False lens by (auto simp: def src sb nm m1 new loop addBattery_def split: if_splits)
      with True show ?thesis by (simp add: pm nameExists_def)
    next
      case False': False
      then have ?ok
        by (simp add: def src sb nm m1 new loop addBattery_def split: prod.splits)
      with False show ?thesis by blast
    qed
  qed blast
qed

end
