(* ===== verification/V3_Answers.thy ===== *)
theory V3_Answers
  imports V3_Creation
begin

text \<open>
  The servers that requests reach (\<open>served\<close>). A server of V3 answers each status request, each request
  for a current and each creation, in every state its clients can bring it into. Requests are served
  one after the other; the threads of the batteries do not run in between. A creation of partitions is
  taken to name its children freshly: \<open>refused_partition_dangles\<close> shows what happens otherwise.
\<close>

section \<open>Requests keep the invariant\<close>

lemma checkMerge_at_nextAddr:
  "checkMerge_at name c st en n a s = Inr s' \<Longrightarrow> nextAddr s' = nextAddr s"
  by (auto simp: checkMerge_at_def upd_def)

lemma nextAddr_set_status [simp]: "nextAddr (set_status a st s) = nextAddr s"
  by (simp add: set_status_def upd_def)

lemma checkAndRefresh_frames:
  "checkAndRefresh k env a s = Inr (st, s') \<Longrightarrow> frames s' = frames s"
  by (auto simp: checkAndRefresh_def checkAndRefresh_with_def split: if_splits
      elim!: refresh_with_frames [rotated] dest: getStatus_frames)

lemma schedule_parents_nextAddr:
  assumes "schedule_parents G S c r ps s = Inr (ok, s')"
    and "\<And>p u st v. G p u = Inr (st, v) \<Longrightarrow> nextAddr v = nextAddr u"
    and "\<And>p c u b v. S c p u = Inr (b, v) \<Longrightarrow> nextAddr v = nextAddr u"
  shows "nextAddr s' = nextAddr s"
  using assms(1)
proof (induction ps arbitrary: s)
  case (Cons p ps)
  then obtain st s1 b s2 where 1: "G p s = Inr (st, s1)" "S (parent_target c r st) p s1 = Inr (b, s2)"
    and 2: "(if b then schedule_parents G S c r ps s2 else Inr (False, s2)) = Inr (ok, s')"
    by auto
  have "nextAddr s' = nextAddr s2" using Cons.IH [of s2] 2 by (auto split: if_splits)
  with assms(2) [OF 1(1)] assms(3) [OF 1(2)] show ?case by simp
qed simp

lemma schedule_nextAddr:
  "schedule_set_current k env st en name n c a s = Inr (ok, s') \<Longrightarrow> nextAddr s' = nextAddr s"
proof (induction k arbitrary: a c s ok s')
  case (Suc k)
  then obtain b where b: "deref a s = Inr b" by auto
  show ?case
  proof (cases "kind b")
    case (AggregateBattery ps e d)
    then obtain st' s1 where 1: "checkAndRefresh k env a s = Inr (st', s1)"
      using Suc.prems b by auto
    have rest: "set_status a st' s1 = s' \<or> (\<exists>r. schedule_parents (getStatus k env)
        (schedule_set_current k env st en name n) c r ps (set_status a st' s1) = Inr (ok, s'))"
      using Suc.prems b AggregateBattery 1 by (auto simp: Let_def split: if_splits)
    have "nextAddr s' = nextAddr (set_status a st' s1)"
      using rest
    proof
      assume "\<exists>r. schedule_parents (getStatus k env) (schedule_set_current k env st en name n) c r ps
        (set_status a st' s1) = Inr (ok, s')"
      then show ?thesis
        using schedule_parents_nextAddr Suc.IH frames_nextAddr [OF getStatus_frames] by blast
    qed simp
    with frames_nextAddr [OF checkAndRefresh_frames [OF 1]] show ?thesis by simp
  qed (use Suc.prems b in \<open>auto split: if_splits option.splits
      dest!: checkMerge_at_nextAddr Suc.IH\<close>)
qed simp

lemma sys_ok_same:
  assumes "sys_ok s" and "skel_at t = skel_at s" and "nextAddr t = nextAddr s" and "queues_ok t"
  shows "sys_ok t"
  using assms skel_wf_links [OF assms(2)] bounded_cong [OF assms(2,3)] by (simp add: sys_ok_def wf_system_def)

lemma server_ok_same:
  assumes "server_ok m" and "sys_ok t" and "skel_at t = skel_at (sys m)"
  shows "server_ok (m\<lparr>sys := t\<rparr>)"
  using assms by (simp add: server_ok_def)

lemma getStatus_answers:
  assumes "sys_ok s" and "skel_at s a \<noteq> None" and "2 * nextAddr s \<le> k"
  shows "\<exists>st s'. getStatus k env a s = Inr (st, s')"
  using getStatus_total [of s a k env] rank_bound [of s a] assms by (auto simp: sys_ok_def wf_system_def)

lemma schedule_ms_answers:
  assumes s: "sys_ok s" and a: "skel_at s a \<noteq> None" and k: "2 * nextAddr s \<le> k"
  shows "\<exists>ok s'. schedule_ms k env c st en a s = Inr (ok, s') \<and> sys_ok s' \<and> skel_at s' = skel_at s"
proof -
  let ?s1 = "s\<lparr>SEQUENCE_NUMBER := SEQUENCE_NUMBER s + 1\<rparr>"
  obtain b where b: "deref a s = Inr b" using a unfolding deref_alive by blast
  have skel: "skel_at ?s1 = skel_at s" by (simp add: fun_eq_iff skel_at_def)
  have s1: "sys_ok ?s1" using s by (intro sys_ok_same [OF s skel]) (simp_all add: sys_ok_def wf_system_def queues_ok_def)
  then have wf: "wf_system ?s1" and rk: "rank ?s1 a < k"
    using rank_bound [of ?s1 a] k a skel by (auto simp: sys_ok_def wf_system_def)
  obtain ok s' where run: "schedule_set_current k env (convertToTimestamp st) (convertToTimestamp en)
      (batteryName b) (SEQUENCE_NUMBER s) c a ?s1 = Inr (ok, s')" and steady: "steady ?s1 s'"
    using schedule_total [OF wf _ rk] a skel by metis
  have "sys_ok s'"
    using s1 steady schedule_nextAddr [OF run] by (intro sys_ok_same [OF s1]) (auto simp: steady_def wf_system_def)
  with run b steady skel show ?thesis
    by (auto simp: schedule_ms_def schedule_own_def getSequenceNumber_def steady_def)
qed

lemma handleBatteryCommand_ok:
  assumes m: "server_ok (directoryManager s)" and k: "2 * nextAddr (sys (directoryManager s)) \<le> k"
    and run: "handleBatteryCommand k env name msg s = Inr (s', rs)"
  shows "server_ok (directoryManager s')"
proof -
  let ?m = "directoryManager s"
  have ok: "sys_ok (sys ?m)" using m by (simp add: server_ok_def)
  have status: "server_ok (?m\<lparr>sys := t\<rparr>)" if "frames t = frames (sys ?m)" for t
    by (rule server_ok_same [OF m sys_ok_frames [OF that ok] skel_at_cong [OF that]])
  show ?thesis
  proof (cases msg)
    case (Some c)
    consider "command c = 1" | "command c = 3" | "command c = 0" | "command c \<notin> {0, 1, 3}" by blast
    then show ?thesis
    proof cases
      case 1
      then show ?thesis
        using run Some getStatus_frames
        by (auto simp: handleBatteryCommand_def bos_getStatus_def intro!: status split: option.splits)
    next
      case 2
      then show ?thesis
        using run Some m
        by (auto simp: handleBatteryCommand_def bos_setStatus_def intro!: status
            split: option.splits Schedule_Params.splits)
    next
      case 3
      have sched: "server_ok (?m\<lparr>sys := t\<rparr>)"
        if "getBattery name (dir ?m) = Some a" "schedule_ms k env c b e a (sys ?m) = Inr (v, t)" for a c b e v t
        using schedule_ms_answers [OF ok server_ok_entry [OF m that(1)] k, of env c b e] that(2)
        by (auto intro: server_ok_same [OF m])
      from 3 show ?thesis
        using run Some m
        by (auto simp: handleBatteryCommand_def bos_scheduleSetCurrent_def intro: sched
            split: option.splits Schedule_Params.splits)
    next
      case 4
      then show ?thesis
        using run Some m by (auto simp: handleBatteryCommand_def split: option.splits if_splits)
    qed
  qed (use run m in \<open>simp add: handleBatteryCommand_def\<close>)
qed

lemma queue_inv_quit [simp]: "queue_inv (quit b) = queue_inv b"
  by (simp add: queue_inv_def quit_def)

lemma manager_destroyDirectory_ok:
  assumes "server_ok m"
  shows "server_ok (manager_destroyDirectory m)"
proof -
  have quit: "skel_at (fold (\<lambda>(_, a). upd a quit) xs s) = skel_at s \<and>
      nextAddr (fold (\<lambda>(_, a). upd a quit) xs s) = nextAddr s \<and>
      (queues_ok s \<longrightarrow> queues_ok (fold (\<lambda>(_, a). upd a quit) xs s))"
    for xs :: "(string \<times> nat) list" and s :: "'a system"
  proof (induction xs arbitrary: s)
    case (Cons x xs)
    have "skel_at (upd (snd x) quit s) = skel_at s" "nextAddr (upd (snd x) quit s) = nextAddr s"
      by (simp_all add: skel_at_def upd_def quit_def fun_eq_iff option.map_comp comp_def)
    moreover have "queues_ok s \<Longrightarrow> queues_ok (upd (snd x) quit s)"
      by (auto simp: upd_def queues_ok_def split: if_splits)
    ultimately show ?case using Cons [of "upd (snd x) quit s"] by (simp add: case_prod_beta)
  qed simp
  have m: "sys_ok (sys m)" "queues_ok (sys m)" using assms by (simp_all add: server_ok_def sys_ok_def wf_system_def)
  have "sys_ok (fold (\<lambda>(_, a). upd a quit) xs (sys m))" for xs :: "(string \<times> nat) list"
    using quit [of xs "sys m"] m(2) by (blast intro: sys_ok_same [OF m(1)])
  then show ?thesis using m(1) by (simp add: manager_destroyDirectory_def destroyDirectory_def server_ok_def)
qed

section \<open>The states requests reach\<close>

definition fresh_request :: "Admin_Command option \<Rightarrow> 'd manager \<Rightarrow> bool" where
  "fresh_request msg m \<longleftrightarrow>
     (\<forall>c p. msg = Some c \<and> command_options c = 2 \<and> command_parameters c = Partition_params p \<longrightarrow>
        fresh_children (t_names p) m)"

lemma directoryManager_createBatteryFifos [simp]:
  "directoryManager (createBatteryFifos n s) = directoryManager s"
  by (simp add: createBatteryFifos_def split: BOSMode.split)

lemma directoryManager_createBatteryFifos_fold [simp]:
  "directoryManager (fold createBatteryFifos ns s) = directoryManager s"
  by (induction ns arbitrary: s) auto

lemma created_ok:
  "created name failure r s = Inr (s', rs) \<Longrightarrow> server_ok (snd r) \<Longrightarrow> server_ok (directoryManager s')"
  by (auto simp: created_def split: prod.splits option.splits)

lemma bos_createPartitionBattery_ok:
  assumes m: "server_ok (directoryManager s)" and fresh: "fresh_children (t_names p) (directoryManager s)"
    and run: "bos_createPartitionBattery k env (Partition_params p) s = Inr (s', rs)"
  shows "server_ok (directoryManager s')"
proof -
  have names: "pt_child_names (parsePartitionBattery p) = t_names p" by (simp add: parsePartitionBattery_def)
  note ok = createPartitionBattery_ok [OF m fresh]
  show ?thesis
    using run m
    by (auto simp: bos_createPartitionBattery_def admin_fail_def Let_def names
        createPartitionBattery_default_def split: if_splits prod.splits) (erule ok)+
qed

lemma handleAdminCommand_ok:
  assumes m: "server_ok (directoryManager s)" and fresh: "fresh_request msg (directoryManager s)"
    and run: "handleAdminCommand k env lib msg s = Inr (s', rs)"
  shows "server_ok (directoryManager s')"
proof (cases msg)
  case (Some c)
  note fail = admin_fail_def
  consider "command_options c = 0" | "command_options c = 1" | "command_options c = 2"
    | "command_options c = 3" | "command_options c = 4" | "command_options c = 5"
    | "command_options c \<notin> {0, 1, 2, 3, 4, 5}" by blast
  then show ?thesis
  proof cases
    case 1
    then show ?thesis using run Some m
      by (auto simp: handleAdminCommand_def bos_createPhysicalBattery_def fail Let_def
          split: Admin_Params.splits intro!: createPhysicalBattery_ok elim!: created_ok)
  next
    case 2
    then show ?thesis using run Some m
      by (auto simp: handleAdminCommand_def bos_createAggregateBattery_def fail Let_def
          split: Admin_Params.splits intro!: createAggregateBattery_ok elim!: created_ok)
  next
    case 3
    then have run: "bos_createPartitionBattery k env (command_parameters c) s = Inr (s', rs)"
      using run Some by (simp add: handleAdminCommand_def)
    show ?thesis
    proof (cases "\<exists>p. command_parameters c = Partition_params p")
      case True
      then show ?thesis
        using bos_createPartitionBattery_ok [OF m] run fresh Some 3 by (auto simp: fresh_request_def)
    qed (use run m in \<open>auto simp: bos_createPartitionBattery_def fail split: Admin_Params.splits\<close>)
  next
    case 4
    then show ?thesis using run Some m
      by (auto simp: handleAdminCommand_def bos_createDynamicBattery_def fail Let_def
          split: Admin_Params.splits if_splits intro!: createDynamicBattery_ok elim!: created_ok)
  next
    case 5
    then show ?thesis using run Some manager_destroyDirectory_ok [OF m]
      by (auto simp: handleAdminCommand_def bos_shutdown_def)
  next
    case 6
    then show ?thesis using run Some m
      by (auto simp: handleAdminCommand_def bos_createSecureBattery_def fail Let_def
          split: Admin_Params.splits prod.splits intro!: createSecureBattery_ok elim!: created_ok)
  next
    case 7
    then show ?thesis using run Some m by (auto simp: handleAdminCommand_def fail Let_def)
  qed
qed (use run m in \<open>simp add: handleAdminCommand_def\<close>)

text \<open>
  A server that has answered any number of requests, each with fuel for the batteries it holds.
\<close>

inductive served :: "'d library \<Rightarrow> 'd bos \<Rightarrow> bool" for lib where
  Start: "directoryManager s = init_manager \<Longrightarrow> served lib s"
| Admin: "served lib s \<Longrightarrow> fresh_request msg (directoryManager s) \<Longrightarrow>
    handleAdminCommand k env lib msg s = Inr (s', rs) \<Longrightarrow> served lib s'"
| Battery: "served lib s \<Longrightarrow> 2 * nextAddr (sys (directoryManager s)) \<le> k \<Longrightarrow>
    handleBatteryCommand k env name cmd s = Inr (s', rs) \<Longrightarrow> served lib s'"
| Connect: "served lib s \<Longrightarrow> bos_connect name s = (s', rs) \<Longrightarrow> served lib s'"

text \<open>The connections change only when one is accepted.\<close>

lemma connections_createBatteryFifos [simp]: "connections (createBatteryFifos n s) = connections s"
  by (simp add: createBatteryFifos_def split: BOSMode.split)

lemma connections_createBatteryFifos_fold [simp]:
  "connections (fold createBatteryFifos ns s) = connections s"
  by (induction ns arbitrary: s) auto

lemma created_connections: "created name f r s = Inr (s', rs) \<Longrightarrow> connections s' = connections s"
  by (auto simp: created_def split: prod.splits option.splits)

lemma bos_createPartitionBattery_connections:
  "bos_createPartitionBattery k env p s = Inr (s', rs) \<Longrightarrow> connections s' = connections s"
  by (auto simp: bos_createPartitionBattery_def admin_fail_def Let_def split: Admin_Params.splits if_splits)

lemma handleAdminCommand_connections:
  "handleAdminCommand k env lib msg s = Inr (s', rs) \<Longrightarrow> connections s' = connections s"
  by (auto simp: handleAdminCommand_def Let_def bos_createPhysicalBattery_def bos_createAggregateBattery_def
      bos_createDynamicBattery_def bos_createSecureBattery_def admin_fail_def bos_shutdown_def
      split: option.splits if_splits Admin_Params.splits prod.splits
      dest!: created_connections bos_createPartitionBattery_connections)

lemma handleBatteryCommand_connections:
  "handleBatteryCommand k env name msg s = Inr (s', rs) \<Longrightarrow> connections s' = connections s"
  by (auto simp: handleBatteryCommand_def bos_getStatus_def bos_setStatus_def bos_scheduleSetCurrent_def
      split: option.splits if_splits Schedule_Params.splits)

lemma init_manager_ok: "server_ok init_manager"
  by (auto simp: server_ok_def init_manager_def sys_ok_def wf_system_def wf_links_def queues_ok_def
      bounded_def skel_at_def empty_directory_def)

lemma served_ok: "served lib s \<Longrightarrow> server_ok (directoryManager s)"
proof (induction rule: served.induct)
  case (Start s)
  then show ?case by (simp add: init_manager_ok)
next
  case (Connect s name s' rs)
  then have "directoryManager s' = directoryManager s"
    by (auto simp: bos_connect_def Let_def split: option.splits if_splits)
  with Connect.IH show ?case by simp
qed (blast intro: handleAdminCommand_ok handleBatteryCommand_ok)+

section \<open>Answers\<close>

lemma served_query:
  assumes s: "served lib s" and a: "getBattery name (dir (directoryManager s)) = Some a"
    and k: "2 * nextAddr (sys (directoryManager s)) \<le> k"
  shows "\<exists>p s'. handleBatteryCommand k env name (Some \<lparr>command = 1, schedule_parameters = q\<rparr>) s =
    Inr (s', [BatteryStatusResponse 0 p]) \<and> served lib s'"
proof -
  let ?m = "directoryManager s"
  have ok: "sys_ok (sys ?m)" using served_ok [OF s] by (simp add: server_ok_def)
  have alive: "skel_at (sys ?m) a \<noteq> None" by (rule server_ok_entry [OF served_ok [OF s] a])
  obtain st t where "getStatus k env a (sys ?m) = Inr (st, t)"
    using getStatus_answers [OF ok alive k, of env] by blast
  then have 1: "handleBatteryCommand k env name (Some \<lparr>command = 1, schedule_parameters = q\<rparr>) s =
      Inr (s\<lparr>directoryManager := ?m\<lparr>sys := t\<rparr>\<rparr>, [BatteryStatusResponse 0 (toProto st)])"
    using a by (simp add: handleBatteryCommand_def bos_getStatus_def)
  from 1 served.Battery [OF s k 1] show ?thesis by blast
qed


definition empty_bos :: "unit bos" where
  "empty_bos = \<lparr>directoryManager = init_manager, hasQuit = False, quitPoll = False, bos_mode = Network,
     fifos = [], connections = []\<rparr>"

definition sample_library :: "unit library" where
  "sample_library = \<lparr>dlsym = (\<lambda>_. True), dlconstruct = (\<lambda>_ _ _ _ _. ()), junk_type = Physical\<rparr>"

text \<open>A server with a battery and an aggregate of it.\<close>

definition create_physical :: "string \<Rightarrow> Admin_Command option" where
  "create_physical name = Some \<lparr>command_options = 0, command_parameters = Physical_params
     \<lparr>p_batteryname = name, p_max_staleness = None, p_refresh_mode = None\<rparr>\<rparr>"

definition create_aggregate :: "string \<Rightarrow> string list \<Rightarrow> Admin_Command option" where
  "create_aggregate name ns = Some \<lparr>command_options = 1, command_parameters = Aggregate_params
     \<lparr>a_batteryname = name, a_parentnames = ns, a_max_staleness = None, a_refresh_mode = None\<rparr>\<rparr>"

lemma served_aggregate:
  "\<exists>s. served sample_library s \<and> getBattery ''agg'' (dir (directoryManager s)) = Some 1 \<and>
     nextAddr (sys (directoryManager s)) = 2 \<and> connections s = []"
proof -
  obtain s1 rs where 1: "handleAdminCommand 0 sample_env sample_library (create_physical ''b'') empty_bos = Inr (s1, rs)"
    and m1: "directoryManager s1 = snd (createPhysicalBattery Physical ''b'' 1000 LAZY init_manager)"
    by (simp add: handleAdminCommand_def create_physical_def bos_createPhysicalBattery_def
        parsePhysicalBattery_def parse_refresh_def parse_staleness_def sample_library_def created_def
        createPhysicalBattery_def enter_def alloc_def addBattery_def has_key_def init_manager_def
        empty_directory_def empty_bos_def)
  obtain s2 rs where 2: "handleAdminCommand 0 sample_env sample_library (create_aggregate ''agg'' [''b'']) s1 = Inr (s2, rs)"
    and m2: "directoryManager s2 =
      snd (createAggregateBattery (getTimeNow sample_env) ''agg'' [''b''] 1000 LAZY (directoryManager s1))"
    "getBattery ''agg'' (dir (directoryManager s2)) = Some 1" "nextAddr (sys (directoryManager s2)) = 2"
    by (simp add: handleAdminCommand_def create_aggregate_def bos_createAggregateBattery_def m1
        parseAggregateBattery_def parse_refresh_def parse_staleness_def created_def
        createPhysicalBattery_def createAggregateBattery_def aggregate_parent_def getBattery_def canBeSource_def
        new_Battery_def default_status_def getSequenceNumber_def
        enter_def alloc_def addBattery_def has_key_def init_manager_def map_insert_def pair_less_def
        less_list_code add_edges_def addEdge_def empty_directory_def Let_def)
  have "served sample_library empty_bos" by (rule served.Start) (simp add: empty_bos_def)
  from served.Admin [OF this _ 1] have "served sample_library s1"
    by (simp add: fresh_request_def create_physical_def)
  from served.Admin [OF this _ 2] have "served sample_library s2"
    by (simp add: fresh_request_def create_aggregate_def)
  moreover have "connections s2 = []"
    using handleAdminCommand_connections [OF 1] handleAdminCommand_connections [OF 2] by (simp add: empty_bos_def)
  ultimately show ?thesis using m2 by blast
qed


section \<open>Creations are answered\<close>

definition admin_answer :: "'d handled \<Rightarrow> bool" where
  "admin_answer r \<longleftrightarrow> (\<exists>code text s'. r = Inr (s', [AdminResponse code text]) \<and> code \<in> {0, - 1})"

lemma admin_answers [simp]:
  "admin_answer (created name failure r s)" "admin_answer (admin_fail msg s)"
  by (cases r; auto simp: admin_answer_def created_def admin_fail_def split: option.splits)+

lemma bos_createPartitionBattery_answers:
  assumes m: "server_ok (directoryManager s)" and k: "2 * nextAddr (sys (directoryManager s)) \<le> k"
  shows "admin_answer (bos_createPartitionBattery k env params s) \<or>
    (nameExists (fst (createPartitionManagerName (directoryManager s))) (dir (directoryManager s)) \<and>
     bos_createPartitionBattery k env params s = Inl Process_exit)"
proof (cases "\<exists>p. params = Partition_params p")
  case True
  then obtain p where p: "params = Partition_params p" by blast
  let ?b = "parsePartitionBattery p"
  have finish: "admin_answer (obind r (\<lambda>(batteries, m').
      if batteries = [] then Inr (s\<lparr>directoryManager := m'\<rparr>,
        [AdminResponse (- 1) ''error creating partition batteries!''])
      else Inr (fold createBatteryFifos (pt_child_names ?b) (s\<lparr>directoryManager := m'\<rparr>),
        [AdminResponse 0 ''successfully created batteries!''])))" if "r = Inr (as, m')" for r as m'
    using that by (cases "as = []") (auto simp: admin_answer_def)
  have run: "bos_createPartitionBattery k env params s =
    (if pt_refreshModes ?b = [] \<longleftrightarrow> pt_stalenesses ?b = [] then
       obind (createPartitionBattery k env (pt_source ?b) (pt_policy ?b) (pt_child_names ?b) (pt_proportions ?b)
         (if pt_refreshModes ?b = [] then map (\<lambda>_. 1000) (pt_child_names ?b) else pt_stalenesses ?b)
         (if pt_refreshModes ?b = [] then map (\<lambda>_. LAZY) (pt_child_names ?b) else pt_refreshModes ?b)
         (directoryManager s)) (\<lambda>(batteries, m').
      if batteries = [] then Inr (s\<lparr>directoryManager := m'\<rparr>,
        [AdminResponse (- 1) ''error creating partition batteries!''])
      else Inr (fold createBatteryFifos (pt_child_names ?b) (s\<lparr>directoryManager := m'\<rparr>),
        [AdminResponse 0 ''successfully created batteries!'']))
     else admin_fail
       ''refresh modes and stalenesses both need to be included or excluded: cannot choose one'' s)"
    by (simp add: p bos_createPartitionBattery_def createPartitionBattery_default_def Let_def)
  show ?thesis
  proof (cases "pt_refreshModes ?b = [] \<longleftrightarrow> pt_stalenesses ?b = []")
    case True
    let ?run = "createPartitionBattery k env (pt_source ?b) (pt_policy ?b) (pt_child_names ?b) (pt_proportions ?b)
         (if pt_refreshModes ?b = [] then map (\<lambda>_. 1000) (pt_child_names ?b) else pt_stalenesses ?b)
         (if pt_refreshModes ?b = [] then map (\<lambda>_. LAZY) (pt_child_names ?b) else pt_refreshModes ?b)
         (directoryManager s)"
    from createPartitionBattery_returns [OF m k] consider as m' where "?run = Inr (as, m')"
      | "nameExists (fst (createPartitionManagerName (directoryManager s))) (dir (directoryManager s))"
        "?run = Inl Process_exit" by blast
    then show ?thesis
    proof cases
      case 1
      from finish [OF this] True show ?thesis unfolding run by simp
    next
      case 2
      then show ?thesis unfolding run using True by simp
    qed
  next
    case False
    then show ?thesis unfolding run by simp
  qed
next
  case False
  then have "bos_createPartitionBattery k env params s = admin_fail ''Partition_Battery parameters not set!'' s"
    by (cases params) (simp_all add: bos_createPartitionBattery_def)
  then show ?thesis by simp
qed



end
