(* ===== verification/V3_Streams.thy ===== *)
theory V3_Streams
  imports V3_Connection
begin

text \<open>
  The other streams of V3: the sockets over TLS (\<open>TLSSocket.cpp\<close> and the TLS loops of \<open>util.cpp\<close>) and the
  serial line (\<open>Connections.cpp\<close>). As in \<open>V3_Connection\<close> the outcomes of the system calls to come are
  a list, and what OpenSSL answers is an argument.
\<close>

section \<open>TLS\<close>

text \<open>Where the plain loops retry or give up, the loops over TLS end the process.\<close>

primrec SSL_read_exact :: "int list \<Rightarrow> nat \<Rightarrow> byte list \<Rightarrow> byte list \<Rightarrow>
    (int \<times> byte list \<times> byte list \<times> int list) outcome" where
  "SSL_read_exact [] num_bytes buffer pending =
    (if length buffer < num_bytes then Inl No_fuel
     else Inr (int (length buffer), buffer, pending, []))"
| "SSL_read_exact (res # calls) num_bytes buffer pending =
    (if length buffer < num_bytes then
       (if res < 0 then Inl Process_exit
        else
          (let k = min (nat res) (min (num_bytes - length buffer) (length pending)) in
           SSL_read_exact calls num_bytes (buffer @ take k pending) (drop k pending)))
     else Inr (int (length buffer), buffer, pending, res # calls))"

text \<open>\<open>SSL_write\<close> fails with \<open>-1\<close>, the number the loop tests for.\<close>

primrec SSL_write_exact :: "int list \<Rightarrow> byte list \<Rightarrow> nat \<Rightarrow> byte list \<Rightarrow> (int \<times> byte list \<times> int list) outcome" where
  "SSL_write_exact [] buffer bytes_written out =
    (if bytes_written < length buffer then Inl No_fuel else Inr (int bytes_written, out, []))"
| "SSL_write_exact (res # calls) buffer bytes_written out =
    (if bytes_written < length buffer then
       (if res = - 1 then Inl Process_exit
        else
          (let k = min (nat res) (length buffer - bytes_written) in
           SSL_write_exact calls buffer (bytes_written + k)
             (out @ take k (drop bytes_written buffer))))
     else Inr (int bytes_written, out, res # calls))"

text \<open>As long as OpenSSL reports no failure, a stream over TLS is the plain stream.\<close>

theorem SSL_read_exact_plain:
  "\<forall>c \<in> set calls. 0 \<le> c \<Longrightarrow>
     SSL_read_exact calls num_bytes buffer pending = read_exact calls num_bytes buffer pending"
  by (induction calls arbitrary: buffer pending) (simp_all add: read_exact.simps Let_def)

theorem SSL_write_exact_plain:
  "\<forall>c \<in> set calls. 0 \<le> c \<Longrightarrow>
     SSL_write_exact calls buffer n out = write_exact calls buffer n out"
  by (induction calls arbitrary: n out) (auto simp: write_exact.simps Let_def)

text \<open>The handshakes: what \<open>SSL_accept\<close> and \<open>SSL_connect\<close> return, and whether the peer is verified.\<close>

definition TLSSocket_accept :: "int \<Rightarrow> bool \<Rightarrow> int \<Rightarrow> int outcome" where
  "TLSSocket_accept err verified fd =
    (if err < 1 then Inl Process_exit else if \<not> verified then Inl Process_exit else Inr fd)"

definition TLSSocket_connect :: "int \<Rightarrow> int \<Rightarrow> int \<Rightarrow> int outcome" where
  "TLSSocket_connect status err fd =
    (if status = - 1 then Inl Process_exit else if err < 1 then Inl Process_exit else Inr fd)"

definition Socket_connect :: "int \<Rightarrow> int \<Rightarrow> int outcome" where
  "Socket_connect status fd = (if status = - 1 then Inl Process_exit else Inr fd)"

section \<open>The serial line\<close>

record uart =
  serial_fd :: int
  uart_connected :: bool

definition new_UARTConnection :: uart where
  "new_UARTConnection = \<lparr>serial_fd = 0, uart_connected = False\<rparr>"

definition uart_connect :: "int \<Rightarrow> uart \<Rightarrow> bool \<times> uart" where
  "uart_connect opened u =
    (if opened < 0 then (False, u\<lparr>serial_fd := 0\<rparr>)
     else (True, u\<lparr>serial_fd := opened, uart_connected := True\<rparr>))"

definition uart_close :: "uart \<Rightarrow> uart" where
  "uart_close u = u\<lparr>uart_connected := False, serial_fd := 0\<rparr>"

text \<open>The loop of \<open>read\<close> over a vector of zeros; a failure returns what is there, zeros included.\<close>

primrec uart_fill :: "int list \<Rightarrow> nat \<Rightarrow> byte list \<Rightarrow> byte list \<Rightarrow> (byte list \<times> byte list) outcome" where
  "uart_fill [] num_bytes got pending =
    (if length got < num_bytes then Inl No_fuel else Inr (got, pending))"
| "uart_fill (res # calls) num_bytes got pending =
    (if length got < num_bytes then
       (if res < 0 then Inr (got @ replicate (num_bytes - length got) 0, pending)
        else
          (let k = min (nat res) (min (num_bytes - length got) (length pending)) in
           uart_fill calls num_bytes (got @ take k pending) (drop k pending)))
     else Inr (got, pending))"

definition uart_read :: "int \<Rightarrow> int list \<Rightarrow> nat \<Rightarrow> byte list \<Rightarrow> (byte list \<times> byte list) outcome" where
  "uart_read available calls num_bytes pending =
    (if available < 0 then Inr ([], pending) else uart_fill calls num_bytes [] pending)"

definition uart_write :: "int \<Rightarrow> byte list \<Rightarrow> byte list \<Rightarrow> int \<times> byte list" where
  "uart_write nbytes bytes line = (nbytes, line @ take (nat nbytes) bytes)"

lemma uart_fill_length:
  "uart_fill calls n got pending = Inr (bs, rest) \<Longrightarrow> length got \<le> n \<Longrightarrow> length bs = n"
proof (induction calls arbitrary: got pending)
  case Nil
  then show ?case by (simp split: if_splits)
next
  case (Cons c cs)
  let ?k = "min (nat c) (min (n - length got) (length pending))"
  consider "length got < n" "c < 0" | "length got < n" "0 \<le> c" | "length got = n"
    using Cons.prems(2) by fastforce
  then show ?case
  proof cases
    case 2
    then have "uart_fill cs n (got @ take ?k pending) (drop ?k pending) = Inr (bs, rest)"
      using Cons.prems(1) by (simp add: Let_def)
    from Cons.IH [OF this] show ?thesis using 2 by simp
  qed (use Cons.prems in auto)
qed

text \<open>
  A read of the serial line that returns delivers all the bytes asked for or none, whatever the
  line does; the drivers index the bytes they asked for.
\<close>

theorem uart_read_all_or_none:
  assumes "uart_read available calls n pending = Inr (bs, rest)"
  shows "length bs = n \<or> bs = []"
  using assms uart_fill_length [of calls n "[]" pending bs rest] by (auto simp: uart_read_def split: if_splits)

theorem uart_read_all_or_none_witness:
  "\<exists>bs rest. uart_read 3 [2, -1] 4 [7, 8, 9] = Inr (bs, rest) \<and> (length bs = 4 \<or> bs = [])"
proof -
  have run: "uart_read 3 [2, -1] 4 [7, 8, 9] = Inr ([7, 8, 0, 0], [9])"
    by (simp add: uart_read_def Let_def numeral_2_eq_2)
  from run uart_read_all_or_none [OF run] show ?thesis by blast
qed

end
