(* ===== verification/V3_Net.thy ===== *)
theory V3_Net
  imports V3_Answers V3_Streams
begin

text \<open>
  The poll loop of the V3 server (\<open>NetService.cpp\<close>, \<open>Fifo.cpp\<close>, \<open>Acceptor.cpp\<close> and the listeners of
  \<open>BOS.cpp\<close>): which objects are polled, who owns them, and how a ready descriptor becomes a call of the
  handlers of \<open>V3_BOS\<close>. An object is a number; a \<open>weak_ptr\<close> is a number whose object may be gone. What
  the system calls answer in a turn of the loop is a record of functions.
\<close>

section \<open>The service\<close>

record 's service =
  pollables :: "'s \<Rightarrow> nat list"
  lock_weak :: "'s \<Rightarrow> nat \<Rightarrow> bool"
  pollInfo :: "'s \<Rightarrow> nat \<Rightarrow> int"
  pollHandler :: "nat \<Rightarrow> 's \<Rightarrow> 's outcome"

text \<open>
  The array of descriptors is not initialised: the entry of an object that is gone keeps what the
  stack happens to hold.
\<close>

definition poll_fds :: "(nat \<Rightarrow> int) \<Rightarrow> 's service \<Rightarrow> 's \<Rightarrow> int list" where
  "poll_fds junk V s =
     map (\<lambda>i. let p = pollables V s ! i in if lock_weak V s p then pollInfo V s p else junk i)
       [0..<length (pollables V s)]"

definition serve_entry :: "'s service \<Rightarrow> bool list \<Rightarrow> nat \<Rightarrow> 's \<Rightarrow> 's outcome" where
  "serve_entry V revents i s =
    (if revents ! i then
       (let p = pollables V s ! i in if lock_weak V s p then pollHandler V p s else Inr s)
     else Inr s)"

definition NetService_poll ::
  "(int list \<Rightarrow> bool list) \<Rightarrow> (nat \<Rightarrow> int) \<Rightarrow> 's service \<Rightarrow> 's \<Rightarrow> 's outcome" where
  "NetService_poll poll_answer junk V s =
     ofold (serve_entry V (poll_answer (poll_fds junk V s))) [0..<length (pollables V s)] s"

section \<open>The objects of the server\<close>

datatype endpoint =
    Socket_stream int
  | Fifo_pipe int int nat

fun in_fd :: "endpoint \<Rightarrow> int" where
  "in_fd (Socket_stream fd) = fd"
| "in_fd (Fifo_pipe i _ _) = i"

fun out_fd :: "endpoint \<Rightarrow> int" where
  "out_fd (Socket_stream fd) = fd"
| "out_fd (Fifo_pipe _ out _) = out"

datatype pollable =
    Admin_acceptor int
  | Battery_acceptor int
  | Fifo_acceptor (for_admin: bool) (fifo_path: string) (fifo_name: string) (fifo_fd: "int option")
  | Admin_connection endpoint
  | Battery_connection string endpoint

fun pollable_fd :: "pollable \<Rightarrow> int" where
  "pollable_fd (Admin_acceptor fd) = fd"
| "pollable_fd (Battery_acceptor fd) = fd"
| "pollable_fd (Fifo_acceptor _ _ _ fd) = (case fd of None \<Rightarrow> - 1 | Some i \<Rightarrow> i)"
| "pollable_fd (Admin_connection ep) = in_fd ep"
| "pollable_fd (Battery_connection _ ep) = in_fd ep"

record 'd net =
  net_bos :: "'d bos"
  registered :: "nat list"
  objects :: "nat \<Rightarrow> pollable option"
  nextObject :: nat
  adminConnection :: "nat option"
  directoryPath :: string
  replies :: "(int \<times> response) list"

text \<open>
  What a read of a message finds: the message, bytes that do not parse, or a peer that is gone. In
  the last case \<open>read_exact\<close> never returns (\<open>read_spins_at_eof\<close>).
\<close>

datatype 'm input = Arrived 'm | Garbled | Closed

definition receive :: "'m input \<Rightarrow> 'm option outcome" where
  "receive x = (case x of Arrived m \<Rightarrow> Inr (Some m) | Garbled \<Rightarrow> Inr None | Closed \<Rightarrow> Inl No_fuel)"

record 'd turn_input =
  battery_env :: "'d env"
  poll_answer :: "int list \<Rightarrow> bool list"
  stack_junk :: "nat \<Rightarrow> int"
  mkfifo :: "string \<Rightarrow> bool"
  open_input :: "string \<Rightarrow> int"
  open_output :: "string \<Rightarrow> int"
  accept_fd :: "int \<Rightarrow> int"
  ssl_accept :: "int \<Rightarrow> int"
  ssl_verified :: "int \<Rightarrow> bool"
  admin_arrives :: "int \<Rightarrow> Admin_Command input"
  command_arrives :: "int \<Rightarrow> BatteryCommand input"
  name_arrives :: "int \<Rightarrow> string input"

definition register :: "pollable \<Rightarrow> 'd net \<Rightarrow> 'd net" where
  "register x s =
     s\<lparr>objects := (objects s)(nextObject s \<mapsto> x), registered := registered s @ [nextObject s],
       nextObject := Suc (nextObject s)\<rparr>"

definition write_to :: "int \<Rightarrow> response list \<Rightarrow> 'd net \<Rightarrow> 'd net" where
  "write_to fd rs s = s\<lparr>replies := replies s @ map (Pair fd) rs\<rparr>"

text \<open>The one connection of the administrator: a new one destroys the one before.\<close>

definition acceptAdminConnection :: "endpoint \<Rightarrow> 'd net \<Rightarrow> 'd net" where
  "acceptAdminConnection ep s =
    (let s1 = register (Admin_connection ep) s in
     s1\<lparr>objects := (case adminConnection s of None \<Rightarrow> objects s1 | Some old \<Rightarrow> (objects s1)(old := None)),
        adminConnection := Some (nextObject s)\<rparr>)"

definition acceptBatteryConnection :: "string \<Rightarrow> endpoint \<Rightarrow> 'd net \<Rightarrow> 'd net" where
  "acceptBatteryConnection name ep s =
     register (Battery_connection name ep)
       (s\<lparr>net_bos := (net_bos s)\<lparr>connections := connections (net_bos s) @ [name]\<rparr>\<rparr>)"

definition new_FifoAcceptor ::
  "'d turn_input \<Rightarrow> bool \<Rightarrow> string \<Rightarrow> string \<Rightarrow> bool \<Rightarrow> pollable outcome" where
  "new_FifoAcceptor e admin path name create =
    (if create \<and> \<not> mkfifo e (path @ ''_input'') then Inl Runtime_error
     else if create \<and> \<not> mkfifo e (path @ ''_output'') then Inl Runtime_error
     else if open_input e (path @ ''_input'') = - 1 then Inl Runtime_error
     else Inr (Fifo_acceptor admin path name (Some (open_input e (path @ ''_input'')))))"

definition add_fifo :: "'d turn_input \<Rightarrow> string \<Rightarrow> 'd net \<Rightarrow> 'd net outcome" where
  "add_fifo e name s =
     obind (new_FifoAcceptor e False (directoryPath s @ name) name True) (\<lambda>x. Inr (register x s))"

section \<open>The handlers\<close>

text \<open>The fuel for the batteries the server holds, as in \<open>served\<close>.\<close>

definition bos_fuel :: "'d bos \<Rightarrow> nat" where
  "bos_fuel b = 2 * nextAddr (sys (directoryManager b))"

definition tls_connection :: "'d turn_input \<Rightarrow> int \<Rightarrow> int outcome" where
  "tls_connection e fd =
    (let c = accept_fd e fd in TLSSocket_accept (ssl_accept e c) (ssl_verified e c) c)"

definition admin_accepted :: "'d turn_input \<Rightarrow> int \<Rightarrow> 'd net \<Rightarrow> 'd net outcome" where
  "admin_accepted e fd s =
     obind (tls_connection e fd) (\<lambda>c. Inr (acceptAdminConnection (Socket_stream c) s))"

text \<open>
  A battery connection over a socket: \<open>bos_connect\<close> answers the name, and only an accepted
  connection is kept.
\<close>

definition battery_accepted :: "'d turn_input \<Rightarrow> int \<Rightarrow> 'd net \<Rightarrow> 'd net outcome" where
  "battery_accepted e fd s =
     obind (tls_connection e fd) (\<lambda>c.
     obind (receive (name_arrives e c)) (\<lambda>msg.
       let (b, rs) = bos_connect msg (net_bos s);
           s1 = s\<lparr>net_bos := b\<rparr>;
           name = (case msg of None \<Rightarrow> [] | Some n \<Rightarrow> n)
       in Inr (write_to c rs
            (if rs = [ConnectResponse 0] then register (Battery_connection name (Socket_stream c)) s1
             else s1))))"

definition fifo_accepted :: "'d turn_input \<Rightarrow> nat \<Rightarrow> pollable \<Rightarrow> 'd net \<Rightarrow> 'd net outcome" where
  "fifo_accepted e p x s =
    (let output = open_output e (fifo_path x @ ''_output'') in
     if output = - 1 then Inl Runtime_error
     else
       (case fifo_fd x of
          None \<Rightarrow> Inl Null_deref
        | Some input \<Rightarrow>
            (let s1 = s\<lparr>objects := (objects s)(p \<mapsto> Fifo_acceptor (for_admin x) (fifo_path x) (fifo_name x) None)\<rparr>;
                 ep = Fifo_pipe input output p
             in Inr (if for_admin x then acceptAdminConnection ep s1
                     else acceptBatteryConnection (fifo_name x) ep s1))))"

text \<open>
  A command of the administrator; the batteries it creates in FIFO mode are recorded in \<open>fifos\<close> and
  get their acceptors.
\<close>

definition admin_message :: "'d library \<Rightarrow> 'd turn_input \<Rightarrow> endpoint \<Rightarrow> 'd net \<Rightarrow> 'd net outcome" where
  "admin_message lib e ep s =
     obind (receive (admin_arrives e (in_fd ep))) (\<lambda>msg.
     obind (handleAdminCommand (bos_fuel (net_bos s)) (battery_env e) lib msg (net_bos s)) (\<lambda>(b, rs).
     obind (ofold (add_fifo e) (drop (length (fifos (net_bos s))) (fifos b)) (s\<lparr>net_bos := b\<rparr>)) (\<lambda>s1.
       Inr (write_to (out_fd ep) rs s1))))"

definition battery_message :: "'d turn_input \<Rightarrow> string \<Rightarrow> endpoint \<Rightarrow> 'd net \<Rightarrow> 'd net outcome" where
  "battery_message e name ep s =
     obind (receive (command_arrives e (in_fd ep))) (\<lambda>msg.
     obind (handleBatteryCommand (bos_fuel (net_bos s)) (battery_env e) name msg (net_bos s)) (\<lambda>(b, rs).
       Inr (write_to (out_fd ep) rs (s\<lparr>net_bos := b\<rparr>))))"

definition object_handler :: "'d library \<Rightarrow> 'd turn_input \<Rightarrow> nat \<Rightarrow> 'd net \<Rightarrow> 'd net outcome" where
  "object_handler lib e p s =
    (case objects s p of
       None \<Rightarrow> Inr s
     | Some (Admin_acceptor fd) \<Rightarrow> admin_accepted e fd s
     | Some (Battery_acceptor fd) \<Rightarrow> battery_accepted e fd s
     | Some (Fifo_acceptor a path name fd) \<Rightarrow> fifo_accepted e p (Fifo_acceptor a path name fd) s
     | Some (Admin_connection ep) \<Rightarrow> admin_message lib e ep s
     | Some (Battery_connection name ep) \<Rightarrow> battery_message e name ep s)"

definition bos_service :: "'d library \<Rightarrow> 'd turn_input \<Rightarrow> 'd net service" where
  "bos_service lib e =
     \<lparr>pollables = registered, lock_weak = (\<lambda>s p. objects s p \<noteq> None),
      pollInfo = (\<lambda>s p. case objects s p of None \<Rightarrow> - 1 | Some x \<Rightarrow> pollable_fd x),
      pollHandler = object_handler lib e\<rparr>"

section \<open>The loop\<close>

definition net_turn :: "'d library \<Rightarrow> 'd turn_input \<Rightarrow> 'd net \<Rightarrow> 'd net outcome" where
  "net_turn lib e s = NetService_poll (poll_answer e) (stack_junk e) (bos_service lib e) s"

fun pollFDs :: "'d library \<Rightarrow> 'd turn_input list \<Rightarrow> 'd net \<Rightarrow> 'd net outcome" where
  "pollFDs lib [] s = (if quitPoll (net_bos s) then Inr s else Inl No_fuel)"
| "pollFDs lib (e # es) s =
     (if quitPoll (net_bos s) then Inr s else obind (net_turn lib e s) (pollFDs lib es))"

definition new_BOS :: "string \<Rightarrow> 'd net" where
  "new_BOS path =
     \<lparr>net_bos = \<lparr>directoryManager = init_manager, hasQuit = True, quitPoll = False, bos_mode = Network,
        fifos = [], connections = []\<rparr>,
      registered = [], objects = Map.empty, nextObject = 0, adminConnection = None,
      directoryPath = path @ ''/'', replies = []\<rparr>"

definition startFifos :: "'d library \<Rightarrow> 'd turn_input \<Rightarrow> 'd turn_input list \<Rightarrow> 'd net \<Rightarrow> 'd net outcome" where
  "startFifos lib e es s =
     obind (new_FifoAcceptor e True (directoryPath s @ ''admin'') ''admin'' True) (\<lambda>x.
       pollFDs lib es (register x (s\<lparr>net_bos := (net_bos s)\<lparr>hasQuit := False, bos_mode := Fifo\<rparr>\<rparr>)))"

text \<open>
  The certificates are loaded first, and each listener is a bound socket or the end of the
  process.
\<close>

definition startSockets ::
  "'d library \<Rightarrow> bool \<Rightarrow> int option \<Rightarrow> int option \<Rightarrow> 'd turn_input list \<Rightarrow> 'd net \<Rightarrow> 'd net outcome" where
  "startSockets lib certificates admin_fd battery_fd es s =
    (if \<not> certificates then Inl Process_exit
     else
       (case (admin_fd, battery_fd) of
          (Some a, Some b) \<Rightarrow>
            pollFDs lib es (register (Battery_acceptor b) (register (Admin_acceptor a)
              (s\<lparr>net_bos := (net_bos s)\<lparr>hasQuit := False, bos_mode := Network\<rparr>\<rparr>)))
        | _ \<Rightarrow> Inl Process_exit))"

section \<open>One turn of the service\<close>

text \<open>What a turn is meant to be: a visit to the objects that are alive and have input.\<close>

definition visit :: "'s service \<Rightarrow> nat \<Rightarrow> 's \<Rightarrow> 's outcome" where
  "visit V p s = (if lock_weak V s p then pollHandler V p s else Inr s)"

definition ready_objects :: "(int \<Rightarrow> bool) \<Rightarrow> 's service \<Rightarrow> 's \<Rightarrow> nat list" where
  "ready_objects ready V s = filter (\<lambda>p. lock_weak V s p \<and> ready (pollInfo V s p)) (pollables V s)"

text \<open>
  The contract of the handlers: they keep an invariant, register at the end, and bring no object back
  to life.
\<close>

locale poll_service =
  fixes V :: "'s service" and ok :: "'s \<Rightarrow> bool"
  assumes keeps: "ok s \<Longrightarrow> p \<in> set (pollables V s) \<Longrightarrow> pollHandler V p s = Inr s' \<Longrightarrow> lock_weak V s p \<Longrightarrow> ok s'"
    and appends: "ok s \<Longrightarrow> p \<in> set (pollables V s) \<Longrightarrow> pollHandler V p s = Inr s' \<Longrightarrow> lock_weak V s p \<Longrightarrow>
      \<exists>new. pollables V s' = pollables V s @ new"
    and stays_dead: "ok s \<Longrightarrow> p \<in> set (pollables V s) \<Longrightarrow> pollHandler V p s = Inr s' \<Longrightarrow> lock_weak V s p \<Longrightarrow>
      q \<in> set (pollables V s) \<Longrightarrow> \<not> lock_weak V s q \<Longrightarrow> \<not> lock_weak V s' q"
begin

definition grown :: "'s \<Rightarrow> 's \<Rightarrow> bool" where
  "grown s0 s \<longleftrightarrow> ok s \<and> (\<exists>new. pollables V s = pollables V s0 @ new) \<and>
     (\<forall>q \<in> set (pollables V s0). \<not> lock_weak V s0 q \<longrightarrow> \<not> lock_weak V s q)"

lemma grown_refl: "ok s \<Longrightarrow> grown s s"
  by (simp add: grown_def)

lemma visit_grown:
  assumes s: "grown s0 s" and p: "p \<in> set (pollables V s0)" and run: "visit V p s = Inr t"
  shows "grown s0 t"
proof (cases "lock_weak V s p")
  case True
  then have run: "pollHandler V p s = Inr t" using run by (simp add: visit_def)
  obtain new where new: "pollables V s = pollables V s0 @ new" using s by (auto simp: grown_def)
  then have p: "p \<in> set (pollables V s)" using p by simp
  have ok: "ok s" using s by (simp add: grown_def)
  have "\<not> lock_weak V t q" if "q \<in> set (pollables V s0)" "\<not> lock_weak V s0 q" for q
    using stays_dead [OF ok p run True, of q] s new that by (auto simp: grown_def)
  then show ?thesis
    using keeps [OF ok p run True] appends [OF ok p run True] new by (auto simp: grown_def)
qed (use assms in \<open>simp add: visit_def\<close>)

lemma serve_entry_visit:
  assumes "grown s0 s" and "i < length (pollables V s0)"
  shows "serve_entry V revents i s = (if revents ! i then visit V (pollables V s0 ! i) s else Inr s)"
  using assms by (auto simp: serve_entry_def visit_def grown_def nth_append)

lemma turn_visits:
  assumes "grown s0 s" and "j \<le> length (pollables V s0)"
  shows "ofold (serve_entry V (map ready (poll_fds junk V s0))) [j..<length (pollables V s0)] s =
    ofold (visit V) (filter (\<lambda>p. lock_weak V s0 p \<and> ready (pollInfo V s0 p)) (drop j (pollables V s0))) s"
  using assms
proof (induction "length (pollables V s0) - j" arbitrary: j s)
  case 0
  then show ?case by simp
next
  case (Suc n)
  let ?ps = "pollables V s0"
  have j: "j < length ?ps" using Suc.hyps(2) by simp
  let ?p = "?ps ! j" and ?r = "map ready (poll_fds junk V s0)"
  have mem: "?p \<in> set ?ps" using j by simp
  have IH: "ofold (serve_entry V ?r) [Suc j..<length ?ps] t =
      ofold (visit V) (filter (\<lambda>p. lock_weak V s0 p \<and> ready (pollInfo V s0 p)) (drop (Suc j) ?ps)) t"
    if "grown s0 t" for t
    using Suc.hyps(1) [of "Suc j" t] Suc.hyps(2) that j by simp
  have r: "?r ! j = ready (if lock_weak V s0 ?p then pollInfo V s0 ?p else junk j)"
    using j by (simp add: poll_fds_def Let_def)
  have dead: "visit V ?p s = Inr s" if "\<not> lock_weak V s0 ?p"
    using that Suc.prems(1) mem by (auto simp: visit_def grown_def)
  have step: "serve_entry V ?r j s =
      (if lock_weak V s0 ?p \<and> ready (pollInfo V s0 ?p) then visit V ?p s else Inr s)"
    using serve_entry_visit [OF Suc.prems(1) j, of ?r] r dead by auto
  have "ofold (serve_entry V ?r) [j..<length ?ps] s =
      obind (serve_entry V ?r j s) (ofold (serve_entry V ?r) [Suc j..<length ?ps])"
    using j by (simp add: upt_conv_Cons)
  also have "\<dots> = obind (serve_entry V ?r j s)
      (ofold (visit V) (filter (\<lambda>p. lock_weak V s0 p \<and> ready (pollInfo V s0 p)) (drop (Suc j) ?ps)))"
    using IH visit_grown [OF Suc.prems(1) mem] Suc.prems(1) by (intro obind_cong) (auto simp: step split: if_splits)
  also have "\<dots> = ofold (visit V) (filter (\<lambda>p. lock_weak V s0 p \<and> ready (pollInfo V s0 p)) (drop j ?ps)) s"
    using j by (simp add: step Cons_nth_drop_Suc [symmetric])
  finally show ?case .
qed

lemma poll_visits_ready:
  assumes "ok s"
  shows "NetService_poll (map ready) junk V s = ofold (visit V) (ready_objects ready V s) s"
  using turn_visits [OF grown_refl [OF assms], of 0] by (simp add: NetService_poll_def ready_objects_def)

lemma poll_grown:
  assumes "ok s" and "NetService_poll kern junk V s = Inr t"
  shows "grown s t"
proof -
  let ?P = "\<lambda>is u. set is \<subseteq> {..<length (pollables V s)} \<and> grown s u"
  have "?P [] t"
    using assms(2) unfolding NetService_poll_def
  proof (rule ofold_invariant [of _ _ _ _ ?P])
    fix i "is" u v
    assume P: "?P (i # is) u" and run: "serve_entry V (kern (poll_fds junk V s)) i u = Inr v"
    then have i: "i < length (pollables V s)" by simp
    show "?P is v"
      using P run serve_entry_visit [OF _ i, of u] visit_grown [of s u "pollables V s ! i" v] i
      by (auto split: if_splits)
  qed (use grown_refl assms(1) in auto)
  then show ?thesis by simp
qed

end

section \<open>Who owns what\<close>

fun names_of :: "pollable option \<Rightarrow> string list" where
  "names_of (Some (Battery_connection n _)) = [n]"
| "names_of _ = []"

fun creator_of :: "pollable option \<Rightarrow> nat option" where
  "creator_of (Some (Admin_connection (Fifo_pipe _ _ c))) = Some c"
| "creator_of (Some (Battery_connection _ (Fifo_pipe _ _ c))) = Some c"
| "creator_of _ = None"

fun is_admin :: "pollable option \<Rightarrow> bool" where
  "is_admin (Some (Admin_connection _)) = True"
| "is_admin _ = False"

fun lent :: "pollable option \<Rightarrow> bool" where
  "lent (Some (Fifo_acceptor _ _ _ None)) = True"
| "lent _ = False"

definition battery_names :: "'d net \<Rightarrow> string list" where
  "battery_names s = concat (map (\<lambda>p. names_of (objects s p)) (registered s))"

text \<open>
  The objects are registered in the order of their creation and only once; the administrator has at
  most one connection; a pipe has taken the descriptor of the acceptor that made it, and each acceptor
  has made at most one pipe that is still there.
\<close>

definition net_shape :: "'d net \<Rightarrow> bool" where
  "net_shape s \<longleftrightarrow>
     registered s = [0..<nextObject s] \<and>
     (\<forall>p. objects s p \<noteq> None \<longrightarrow> p < nextObject s) \<and>
     (\<forall>p. is_admin (objects s p) \<longleftrightarrow> adminConnection s = Some p) \<and>
     (\<forall>p c. creator_of (objects s p) = Some c \<longrightarrow> lent (objects s c)) \<and>
     (\<forall>p q c. creator_of (objects s p) = Some c \<longrightarrow> creator_of (objects s q) = Some c \<longrightarrow> p = q)"

definition net_wf :: "'d net \<Rightarrow> bool" where
  "net_wf s \<longleftrightarrow> net_shape s \<and> battery_names s = connections (net_bos s)"

lemma net_shape_bos [simp]: "net_shape (s\<lparr>net_bos := b\<rparr>) = net_shape s"
  by (simp add: net_shape_def)

lemma battery_names_bos [simp]: "battery_names (s\<lparr>net_bos := b\<rparr>) = battery_names s"
  by (simp add: battery_names_def)

lemma write_to_simps [simp]:
  "net_shape (write_to fd rs s) = net_shape s" "battery_names (write_to fd rs s) = battery_names s"
  "net_bos (write_to fd rs s) = net_bos s" "registered (write_to fd rs s) = registered s"
  "objects (write_to fd rs s) = objects s"
  by (simp_all add: write_to_def net_shape_def battery_names_def)

lemma net_shape_new: "net_shape s \<Longrightarrow> objects s (nextObject s) = None"
  by (auto simp: net_shape_def)

lemma register_shape:
  assumes s: "net_shape s" and x: "\<not> is_admin (Some x)"
    and c: "\<And>c. creator_of (Some x) = Some c \<Longrightarrow> lent (objects s c) \<and> (\<forall>p. creator_of (objects s p) \<noteq> Some c)"
  shows "net_shape (register x s)"
proof -
  let ?n = "nextObject s"
  have new: "objects s ?n = None" using net_shape_new [OF s] .
  have old: "p \<noteq> ?n" if "creator_of (objects s q) = Some p" for p q
    using s that new by (force simp: net_shape_def)
  have own: "p \<noteq> ?n" if "creator_of (Some x) = Some p" for p using c [OF that] new by auto
  have "adminConnection s \<noteq> Some ?n"
    using s new by (metis is_admin.simps(2) net_shape_def)
  then show ?thesis
    using s x c new old own unfolding net_shape_def register_def
    by (auto simp: less_Suc_eq split: if_splits)
qed

lemma battery_names_register:
  "net_shape s \<Longrightarrow> battery_names (register x s) = battery_names s @ names_of (Some x)"
  by (auto simp: battery_names_def register_def net_shape_def intro!: arg_cong [where f = concat])

lemma acceptAdmin_shape:
  assumes s: "net_shape s"
    and c: "\<And>c. creator_of (Some (Admin_connection ep)) = Some c \<Longrightarrow>
      lent (objects s c) \<and> (\<forall>p. creator_of (objects s p) \<noteq> Some c)"
  shows "net_shape (acceptAdminConnection ep s)"
    and "battery_names (acceptAdminConnection ep s) = battery_names s"
proof -
  let ?n = "nextObject s" and ?x = "Admin_connection ep"
  have new: "objects s ?n = None" using net_shape_new [OF s] .
  have adm: "is_admin (objects s p) \<longleftrightarrow> adminConnection s = Some p" for p
    using s by (simp add: net_shape_def)
  have old: "p \<noteq> ?n" if "creator_of (objects s q) = Some p" for p q
    using s that new by (force simp: net_shape_def)
  have own: "p \<noteq> ?n" if "creator_of (Some ?x) = Some p" for p using c [OF that] new by auto
  let ?o = "\<lambda>p. if p = ?n then Some ?x else if adminConnection s = Some p then None else objects s p"
  have obj: "objects (acceptAdminConnection ep s) = ?o"
    using adm [of ?n] new
    by (cases "adminConnection s") (auto simp: acceptAdminConnection_def register_def fun_eq_iff Let_def)
  have lent: "\<not> lent (objects s p)" if "adminConnection s = Some p" for p
    using adm [of p] that by (cases "objects s p" rule: is_admin.cases) auto
  show "net_shape (acceptAdminConnection ep s)"
    unfolding net_shape_def obj
    using s c new old own adm lent
    by (auto simp: net_shape_def acceptAdminConnection_def register_def less_Suc_eq Let_def split: if_splits)
  have none: "names_of (objects s p) = []" if "adminConnection s = Some p" for p
    using adm [of p] that by (cases "objects s p" rule: is_admin.cases) auto
  have "registered (acceptAdminConnection ep s) = registered s @ [?n]" "\<forall>p \<in> set (registered s). p \<noteq> ?n"
    using s by (auto simp: acceptAdminConnection_def register_def net_shape_def Let_def)
  then show "battery_names (acceptAdminConnection ep s) = battery_names s"
    unfolding battery_names_def obj by (auto simp: none intro!: arg_cong [where f = concat])
qed

section \<open>The handlers keep the ownership\<close>

definition follows :: "'d net \<Rightarrow> 'd net \<Rightarrow> bool" where
  "follows s t \<longleftrightarrow> net_wf t \<and> (\<exists>new. registered t = registered s @ new) \<and>
     (\<forall>q \<in> set (registered s). objects s q = None \<longrightarrow> objects t q = None)"

lemma follows_trans: "follows s t \<Longrightarrow> follows t u \<Longrightarrow> follows s u"
  by (auto simp: follows_def)

lemma follows_refl: "net_wf s \<Longrightarrow> follows s s"
  by (simp add: follows_def)

lemma follows_bos: "net_wf s \<Longrightarrow> connections b = connections (net_bos s) \<Longrightarrow> follows s (s\<lparr>net_bos := b\<rparr>)"
  by (simp add: follows_def net_wf_def)

lemma follows_write: "follows s t \<Longrightarrow> follows s (write_to fd rs t)"
  by (simp add: follows_def net_wf_def)

lemma register_old:
  "net_shape s \<Longrightarrow> q \<in> set (registered s) \<Longrightarrow> objects (register x s) q = objects s q"
  by (auto simp: register_def net_shape_def)

lemma follows_register:
  assumes s: "net_shape s" and x: "\<not> is_admin (Some x)"
    and c: "\<And>c. creator_of (Some x) = Some c \<Longrightarrow> lent (objects s c) \<and> (\<forall>p. creator_of (objects s p) \<noteq> Some c)"
    and names: "battery_names s @ names_of (Some x) = connections (net_bos s)"
  shows "follows s (register x s)"
  using register_shape [OF s x c] battery_names_register [OF s, of x] names register_old [OF s]
  by (auto simp: follows_def net_wf_def) (simp_all add: register_def)

lemma follows_acceptAdmin:
  assumes s: "net_wf s"
    and c: "\<And>c. creator_of (Some (Admin_connection ep)) = Some c \<Longrightarrow>
      lent (objects s c) \<and> (\<forall>p. creator_of (objects s p) \<noteq> Some c)"
  shows "follows s (acceptAdminConnection ep s)"
proof -
  have sh: "net_shape s" using s by (simp add: net_wf_def)
  have "objects (acceptAdminConnection ep s) q = None" if "q \<in> set (registered s)" "objects s q = None" for q
    using that register_old [OF sh that(1), of "Admin_connection ep"]
    by (cases "adminConnection s") (auto simp: acceptAdminConnection_def Let_def)
  moreover have "net_bos (acceptAdminConnection ep s) = net_bos s"
    "registered (acceptAdminConnection ep s) = registered s @ [nextObject s]"
    by (simp_all add: acceptAdminConnection_def register_def Let_def)
  ultimately show ?thesis
    using s acceptAdmin_shape [OF sh c] by (auto simp: follows_def net_wf_def)
qed

lemma follows_add_fifo:
  assumes "net_wf s" and "add_fifo e name s = Inr t"
  shows "follows s t"
proof -
  obtain path fd where "t = register (Fifo_acceptor False path name (Some fd)) s"
    using assms(2) by (auto simp: add_fifo_def new_FifoAcceptor_def split: if_splits)
  with assms(1) show ?thesis by (auto simp: net_wf_def intro!: follows_register)
qed

lemma follows_add_fifos:
  assumes "net_wf s" and "ofold (add_fifo e) names s = Inr t"
  shows "follows s t"
proof (rule ofold_invariant [OF assms(2), where P = "\<lambda>_ u. follows s u"])
  fix y ys u v assume "follows s u" "add_fifo e y u = Inr v"
  moreover from this(1) have "net_wf u" by (simp add: follows_def)
  ultimately show "follows s v" using follows_add_fifo follows_trans by blast
qed (rule follows_refl [OF assms(1)])

lemma admin_message_follows:
  assumes s: "net_wf s" and run: "admin_message lib e ep s = Inr t"
  shows "follows s t"
proof -
  obtain msg b rs s1 where
    "handleAdminCommand (bos_fuel (net_bos s)) (battery_env e) lib msg (net_bos s) = Inr (b, rs)"
    and fifos: "ofold (add_fifo e) (drop (length (fifos (net_bos s))) (fifos b)) (s\<lparr>net_bos := b\<rparr>) = Inr s1"
    and t: "t = write_to (out_fd ep) rs s1"
    using run by (auto simp: admin_message_def)
  then have 1: "follows s (s\<lparr>net_bos := b\<rparr>)"
    using handleAdminCommand_connections s by (blast intro: follows_bos)
  then have "net_wf (s\<lparr>net_bos := b\<rparr>)" by (simp add: follows_def)
  from follows_trans [OF 1 follows_add_fifos [OF this fifos]] show ?thesis
    unfolding t by (rule follows_write)
qed

lemma battery_message_follows:
  assumes "net_wf s" and "battery_message e name ep s = Inr t"
  shows "follows s t"
  using assms handleBatteryCommand_connections
  by (auto simp: battery_message_def intro!: follows_write follows_bos) blast

lemma battery_accepted_follows:
  assumes s: "net_wf s" and run: "battery_accepted e fd s = Inr t"
  shows "follows s t"
proof -
  have sh: "net_shape s" and names: "battery_names s = connections (net_bos s)"
    using s by (simp_all add: net_wf_def)
  obtain c msg b rs where con: "bos_connect msg (net_bos s) = (b, rs)"
    and t: "t = write_to c rs
      (if rs = [ConnectResponse 0] then register (Battery_connection (case msg of None \<Rightarrow> [] | Some n \<Rightarrow> n)
         (Socket_stream c)) (s\<lparr>net_bos := b\<rparr>) else s\<lparr>net_bos := b\<rparr>)"
    using run by (auto simp: battery_accepted_def Let_def split: if_splits prod.splits)
  show ?thesis
  proof (cases "rs = [ConnectResponse 0]")
    case True
    then have b: "connections b = connections (net_bos s) @ [case msg of None \<Rightarrow> [] | Some n \<Rightarrow> n]"
      using con by (auto simp: bos_connect_def Let_def split: option.splits if_splits)
    let ?x = "Battery_connection (case msg of None \<Rightarrow> [] | Some n \<Rightarrow> n) (Socket_stream c)"
    have "follows (s\<lparr>net_bos := b\<rparr>) (register ?x (s\<lparr>net_bos := b\<rparr>))"
      using sh names b by (intro follows_register) simp_all
    then have "follows s (register ?x (s\<lparr>net_bos := b\<rparr>))" by (simp add: follows_def)
    then show ?thesis unfolding t using True by (simp add: follows_write)
  next
    case False
    then have "connections b = connections (net_bos s)"
      using con by (auto simp: bos_connect_def Let_def split: option.splits if_splits)
    then show ?thesis unfolding t using False s by (simp add: follows_write follows_bos)
  qed
qed

lemma fifo_accepted_follows:
  assumes s: "net_wf s" and p: "objects s p = Some (Fifo_acceptor a path name fd)"
    and run: "fifo_accepted e p (Fifo_acceptor a path name fd) s = Inr t"
  shows "follows s t"
proof -
  have sh: "net_shape s" and names: "battery_names s = connections (net_bos s)"
    using s by (simp_all add: net_wf_def)
  obtain i where fd: "fd = Some i" using run by (auto simp: fifo_accepted_def Let_def split: if_splits option.splits)
  let ?s1 = "s\<lparr>objects := (objects s)(p \<mapsto> Fifo_acceptor a path name None)\<rparr>"
  let ?ep = "Fifo_pipe i (open_output e (path @ ''_output'')) p"
  have t: "t = (if a then acceptAdminConnection ?ep ?s1 else acceptBatteryConnection name ?ep ?s1)"
    using run fd by (auto simp: fifo_accepted_def Let_def split: if_splits)
  have free: "creator_of (objects s q) \<noteq> Some p" for q
  proof
    assume "creator_of (objects s q) = Some p"
    then have "lent (objects s p)" using sh by (auto simp: net_shape_def)
    then show False by (simp add: p fd)
  qed
  have obj: "is_admin (objects ?s1 q) = is_admin (objects s q)"
    "creator_of (objects ?s1 q) = creator_of (objects s q)" "names_of (objects ?s1 q) = names_of (objects s q)"
    "lent (objects ?s1 q) \<longleftrightarrow> lent (objects s q) \<or> q = p" "objects ?s1 q = None \<longleftrightarrow> objects s q = None" for q
    using p by simp_all
  have sh1: "net_shape ?s1"
    using sh obj unfolding net_shape_def by simp
  have names1: "battery_names ?s1 = battery_names s" by (simp only: battery_names_def obj) simp
  have s1: "net_wf ?s1" using sh1 names1 names by (simp add: net_wf_def)
  have 1: "follows s ?s1" using s1 obj by (simp add: follows_def)
  have c: "lent (objects ?s1 c) \<and> (\<forall>q. creator_of (objects ?s1 q) \<noteq> Some c)" if "c = p" for c
    using that free obj by simp
  show ?thesis
  proof (cases a)
    case True
    have "follows ?s1 (acceptAdminConnection ?ep ?s1)"
      by (rule follows_acceptAdmin [OF s1]) (use c in auto)
    with 1 True show ?thesis unfolding t using follows_trans by auto
  next
    case False
    let ?s2 = "?s1\<lparr>net_bos := (net_bos s)\<lparr>connections := connections (net_bos s) @ [name]\<rparr>\<rparr>"
    have "follows ?s2 (register (Battery_connection name ?ep) ?s2)"
    proof (rule follows_register)
      show "net_shape ?s2" using sh1 unfolding net_shape_bos .
      show "battery_names ?s2 @ names_of (Some (Battery_connection name ?ep)) = connections (net_bos ?s2)"
        using names1 names unfolding battery_names_bos by simp
    qed (use c in auto)
    then have "follows ?s1 (register (Battery_connection name ?ep) ?s2)" by (simp add: follows_def)
    with 1 False show ?thesis unfolding t acceptBatteryConnection_def using follows_trans by auto
  qed
qed

lemma object_handler_follows:
  assumes "net_wf s" and "object_handler lib e p s = Inr t"
  shows "follows s t"
proof (cases "objects s p")
  case (Some x)
  then show ?thesis
  proof (cases x)
    case (Admin_acceptor fd)
    with assms Some show ?thesis
      by (auto simp: object_handler_def admin_accepted_def Let_def intro!: follows_acceptAdmin split: if_splits)
  qed (use assms Some in \<open>auto simp: object_handler_def
        dest: battery_accepted_follows fifo_accepted_follows admin_message_follows battery_message_follows\<close>)
qed (use assms in \<open>simp add: object_handler_def follows_refl\<close>)

interpretation bos_poll: poll_service "bos_service lib e" net_wf for lib :: "'d library" and e :: "'d turn_input"
  by unfold_locales (auto simp: bos_service_def follows_def dest!: object_handler_follows)

section \<open>Properties of the loop\<close>

definition sockets_started :: "int \<Rightarrow> int \<Rightarrow> string \<Rightarrow> 'd net" where
  "sockets_started a b path =
     register (Battery_acceptor b) (register (Admin_acceptor a)
       ((new_BOS path)\<lparr>net_bos := (net_bos (new_BOS path))\<lparr>hasQuit := False, bos_mode := Network\<rparr>\<rparr>))"

definition fifos_started :: "int \<Rightarrow> string \<Rightarrow> 'd net" where
  "fifos_started fd path =
     register (Fifo_acceptor True (path @ ''/admin'') ''admin'' (Some fd))
       ((new_BOS path)\<lparr>net_bos := (net_bos (new_BOS path))\<lparr>hasQuit := False, bos_mode := Fifo\<rparr>\<rparr>)"

lemma starts_run:
  "startSockets lib True (Some a) (Some b) es (new_BOS path) = pollFDs lib es (sockets_started a b path)"
  "new_FifoAcceptor e True (path @ ''/admin'') ''admin'' True =
     Inr (Fifo_acceptor True (path @ ''/admin'') ''admin'' (Some fd)) \<Longrightarrow>
   startFifos lib e es (new_BOS path) = pollFDs lib es (fifos_started fd path)"
  by (simp_all add: startSockets_def startFifos_def sockets_started_def fifos_started_def new_BOS_def)

lemma started_wf: "net_wf (sockets_started a b path)" "net_wf (fifos_started fd path)"
  by (auto simp: net_wf_def net_shape_def sockets_started_def fifos_started_def register_def new_BOS_def
      battery_names_def split: if_splits)

lemma net_turn_wf:
  assumes "net_wf s" and "net_turn lib e s = Inr t"
  shows "net_wf t"
  using bos_poll.poll_grown [OF assms(1) assms(2) [unfolded net_turn_def]] by (simp add: bos_poll.grown_def)

text \<open>
  C15: in every state the poll loop reaches, started on sockets or on FIFOs, the objects are
  registered once each and in the order they were made, the administrator has at most one connection,
  a pipe holds the descriptor its acceptor has lent and no two pipes hold the same one, and the live
  battery connections are those the server has recorded, name by name.
\<close>

theorem loop_keeps_ownership:
  assumes "ofold (net_turn lib) es s = Inr t"
    and "s = sockets_started a b path \<or> s = fifos_started fd path"
  shows "net_wf t"
proof (rule ofold_invariant [OF assms(1), where P = "\<lambda>_. net_wf"])
  show "net_wf s" using assms(2) started_wf by auto
qed (rule net_turn_wf)

lemma bos_service_simps [simp]:
  "pollables (bos_service lib e) = registered" "pollHandler (bos_service lib e) = object_handler lib e"
  "lock_weak (bos_service lib e) s p \<longleftrightarrow> objects s p \<noteq> None"
  by (simp_all add: bos_service_def)

text \<open>The objects with input.\<close>

definition with_input :: "(int \<Rightarrow> bool) \<Rightarrow> 'd net \<Rightarrow> nat list" where
  "with_input ready s =
     filter (\<lambda>p. objects s p \<noteq> None \<and> ready (pollable_fd (the (objects s p)))) (registered s)"

lemma ready_with_input: "ready_objects ready (bos_service lib e) s = with_input ready s"
  unfolding ready_objects_def with_input_def by (intro filter_cong) (auto simp: bos_service_def)

lemma visit_bos_service:
  "visit (bos_service lib e) p u = (if objects u p = None then Inr u else object_handler lib e p u)"
  by (simp add: visit_def)

lemma turn_visits_input:
  assumes "net_wf s" and "poll_answer e = map ready"
  shows "net_turn lib e s = ofold (visit (bos_service lib e)) (with_input ready s) s"
  using bos_poll.poll_visits_ready [OF assms(1), of ready "stack_junk e"] assms(2)
  by (simp add: net_turn_def ready_with_input)

text \<open>
  C16: a turn of the loop calls the handlers of exactly the objects that are alive and have input,
  in the order of their registration, leaving out those that are gone by then. What the descriptors
  of dead objects happen to be, which the code leaves uninitialised, has no effect.
\<close>

theorem turn_serves_ready:
  assumes "net_wf s" and "poll_answer e = map ready"
  shows "net_turn lib e s =
    ofold (\<lambda>p u. if objects u p = None then Inr u else object_handler lib e p u) (with_input ready s) s"
  unfolding turn_visits_input [OF assms] by (simp add: visit_bos_service [abs_def])

text \<open>A server with two objects: the connection of the administrator and one to an aggregate.\<close>

definition silent :: "unit turn_input" where
  "silent =
     \<lparr>battery_env = sample_env, poll_answer = map (\<lambda>_. False), stack_junk = (\<lambda>_. 0), mkfifo = (\<lambda>_. True),
      open_input = (\<lambda>_. 9), open_output = (\<lambda>_. 10), accept_fd = (\<lambda>fd. fd + 100), ssl_accept = (\<lambda>_. 1), ssl_verified = (\<lambda>_. True),
      admin_arrives = (\<lambda>_. Closed), command_arrives = (\<lambda>_. Closed), name_arrives = (\<lambda>_. Closed)\<rparr>"

definition sample_net :: "unit bos \<Rightarrow> unit net" where
  "sample_net b =
     \<lparr>net_bos = b, registered = [0, 1],
      objects = [0 \<mapsto> Admin_connection (Socket_stream 5), 1 \<mapsto> Battery_connection ''agg'' (Socket_stream 6)],
      nextObject = 2, adminConnection = Some 0, directoryPath = ''d/'', replies = []\<rparr>"

lemma sample_net_wf: "connections b = [''agg''] \<Longrightarrow> net_wf (sample_net b)"
  by (auto simp: net_wf_def net_shape_def sample_net_def battery_names_def upt_rec split: if_splits)

lemma served_connected:
  "\<exists>b. served sample_library b \<and> getBattery ''agg'' (dir (directoryManager b)) = Some 1 \<and>
     nextAddr (sys (directoryManager b)) = 2 \<and> connections b = [''agg'']"
proof -
  obtain b where b: "served sample_library b" "getBattery ''agg'' (dir (directoryManager b)) = Some 1"
    "nextAddr (sys (directoryManager b)) = 2" "connections b = []"
    using served_aggregate by blast
  have "bos_connect (Some ''agg'') b = (b\<lparr>connections := [''agg'']\<rparr>, [ConnectResponse 0])"
    using b by (simp add: bos_connect_def)
  from served.Connect [OF b(1) this] b show ?thesis
    by (intro exI [of _ "b\<lparr>connections := [''agg'']\<rparr>"] conjI) simp_all
qed

lemma sample_net_input:
  "with_input (\<lambda>fd. fd = 5) (sample_net b) = [0]" "with_input (\<lambda>fd. fd = 6) (sample_net b) = [1]"
  "with_input (\<lambda>_. True) (sample_net b) = [0, 1]"
  by (simp_all add: with_input_def sample_net_def)

theorem loop_keeps_ownership_witness:
  "\<exists>t. ofold (net_turn sample_library) [silent\<lparr>poll_answer := map (\<lambda>fd. fd = 3)\<rparr>, silent]
      (sockets_started 3 4 ''d'') = Inr t \<and> net_wf t"
proof -
  have "\<exists>t. ofold (net_turn sample_library) [silent\<lparr>poll_answer := map (\<lambda>fd. fd = 3)\<rparr>, silent]
      (sockets_started 3 4 ''d'') = Inr t"
    by (simp add: net_turn_def NetService_poll_def sockets_started_def register_def new_BOS_def poll_fds_def
        bos_service_def serve_entry_def silent_def object_handler_def admin_accepted_def tls_connection_def TLSSocket_accept_def
        acceptAdminConnection_def Let_def upt_rec [of 0] upt_rec [of 1] upt_rec [of 2])
  then obtain t where run: "ofold (net_turn sample_library) [silent\<lparr>poll_answer := map (\<lambda>fd. fd = 3)\<rparr>, silent]
      (sockets_started 3 4 ''d'') = Inr t" by blast
  from run loop_keeps_ownership [OF run, of 3 4 "''d''" 0] show ?thesis by blast
qed

theorem turn_serves_ready_witness:
  "\<exists>b. net_turn sample_library (silent\<lparr>poll_answer := map (\<lambda>fd. fd = 6)\<rparr>) (sample_net b) =
    ofold (\<lambda>p u. if objects u p = None then Inr u else object_handler sample_library
        (silent\<lparr>poll_answer := map (\<lambda>fd. fd = 6)\<rparr>) p u) (with_input (\<lambda>fd. fd = 6) (sample_net b)) (sample_net b)"
proof -
  obtain b :: "unit bos" where "connections b = [''agg'']" using served_connected by blast
  from turn_serves_ready [OF sample_net_wf [OF this], of "silent\<lparr>poll_answer := map (\<lambda>fd. fd = 6)\<rparr>"]
  show ?thesis by fastforce
qed





text \<open>
  One client can stop the server. A peer that closes its connection leaves the reader in its loop
  for ever; a client that connects without the handshake of TLS ends the process; and a query read in
  the turn that shuts the server down finds the directory empty and dereferences a null pointer.
\<close>

theorem one_client_stops_server:
  assumes wf: "net_wf s" and ready: "poll_answer e = map ready"
  shows "with_input ready s = p # ps \<Longrightarrow> objects s p = Some (Battery_connection name ep) \<Longrightarrow>
      command_arrives e (in_fd ep) = Closed \<Longrightarrow> net_turn lib e s = Inl No_fuel"
    and "with_input ready s = p # ps \<Longrightarrow> objects s p = Some (Battery_acceptor fd) \<Longrightarrow>
      ssl_accept e (accept_fd e fd) < 1 \<Longrightarrow> net_turn lib e s = Inl Process_exit"
    and "with_input ready s = p # q # ps \<Longrightarrow> objects s p = Some (Admin_connection ep) \<Longrightarrow>
      admin_arrives e (in_fd ep) = Arrived \<lparr>command_options = 4, command_parameters = v\<rparr> \<Longrightarrow>
      objects s q = Some (Battery_connection name ep') \<Longrightarrow>
      command_arrives e (in_fd ep') = Arrived \<lparr>command = 1, schedule_parameters = w\<rparr> \<Longrightarrow>
      net_turn lib e s = Inl Null_deref"
  by (simp_all add: turn_visits_input [OF wf ready] visit_bos_service object_handler_def battery_message_def
      battery_accepted_def tls_connection_def TLSSocket_accept_def admin_message_def receive_def
      handleAdminCommand_def bos_shutdown_def manager_destroyDirectory_def destroyDirectory_def handleBatteryCommand_def bos_getStatus_def
      getBattery_def write_to_def Let_def)

end
