(* ===== verification/V3_Secure.thy ===== *)
theory V3_Secure
  imports V3_Client
begin

text \<open>
  The secure battery (\<open>SecureBattery.cpp\<close>), the aggregator process (\<open>Aggregator.cpp\<close>) and the
  connection of their client (\<open>SecureClientBattery.cpp\<close>). A client hands one share of its schedule to
  the server of the battery and one to the aggregator; the two then exchange messages on a stream of
  their own. The secret sharing library is outside the sources and a parameter, a record of its
  functions; what a function passes to its callback is a list in the order of the calls.

  Each process is single threaded: a handler that waits in \<open>read\<close> does nothing else. The point where
  it waits is part of its state, and a read from an empty stream is no step.
\<close>

section \<open>Messages and the library\<close>

definition share_command :: "string \<Rightarrow> BatteryCommand" where
  "share_command share = \<lparr>command = 4, schedule_parameters = Set_schedule_params share\<rparr>"

text \<open>
  \<open>command.set_schedule().my_schedule()\<close> after a read whose result is not looked at: a message
  that does not parse, or carries something else, has the empty default.
\<close>

definition share_of :: "BatteryCommand option \<Rightarrow> string" where
  "share_of msg =
    (case msg of
       None \<Rightarrow> []
     | Some c \<Rightarrow> (case schedule_parameters c of Set_schedule_params share \<Rightarrow> share | _ \<Rightarrow> []))"

type_synonym stream = "BatteryCommand option list"

definition share_messages :: "string list \<Rightarrow> stream" where
  "share_messages shares = map (\<lambda>share. Some (share_command share)) shares"

record ('g, 'k) sharing =
  new_collector :: "32 word \<Rightarrow> 32 word \<Rightarrow> string \<Rightarrow> 32 word \<Rightarrow> 32 word \<Rightarrow> 32 word \<Rightarrow> 'k"
  aggregate_coll :: "'k \<Rightarrow> string \<Rightarrow> 32 word \<Rightarrow> 'k"
  add_prep :: "'k \<Rightarrow> string \<Rightarrow> 'k"
  perform_round :: "'k \<Rightarrow> 'k \<times> string list"
  aggregate_finish_coll :: "'k \<Rightarrow> string \<Rightarrow> 'k"
  collect :: "'k \<Rightarrow> string \<Rightarrow> 'k"
  new_aggregator :: "32 word \<Rightarrow> 32 word \<Rightarrow> string \<Rightarrow> 32 word \<Rightarrow> 32 word \<Rightarrow> 32 word \<Rightarrow> 'g"
  aggregate :: "'g \<Rightarrow> string \<Rightarrow> 32 word \<Rightarrow> 'g \<times> string list"
  agg_finish_round :: "'g \<Rightarrow> string \<Rightarrow> 'g \<times> string list"
  send_agg_share :: "'g \<Rightarrow> 'g \<times> string list"

section \<open>The battery\<close>

datatype battery_point = Serving | Await_prep | Await_share | Await_final

record 'k secure_battery =
  rust_coll :: 'k
  coll_client_num :: "32 word"
  at_battery :: battery_point

text \<open>
  The constructor connects to the aggregator, and \<open>Socket::connect\<close> ends the process when nobody
  listens. The number of clients it is given is not used: the library is told two.
\<close>

definition new_SecureBattery ::
  "('g, 'k) sharing \<Rightarrow> bool \<Rightarrow> 32 word \<Rightarrow> string \<Rightarrow> 'k secure_battery outcome" where
  "new_SecureBattery lib listening num_clients verify_key =
    (if \<not> listening then Inl Process_exit
     else Inr \<lparr>rust_coll = new_collector lib 0 1440 verify_key 2 2000 2000, coll_client_num = 0,
               at_battery = Serving\<rparr>)"

text \<open>\<open>set_schedule\<close> up to its first read, and from each read on to the next.\<close>

definition set_schedule :: "('g, 'k) sharing \<Rightarrow> string \<Rightarrow> 'k secure_battery \<Rightarrow> 'k secure_battery" where
  "set_schedule lib buffer b =
     b\<lparr>rust_coll := aggregate_coll lib (rust_coll b) buffer (coll_client_num b),
       coll_client_num := coll_client_num b + 1, at_battery := Await_prep\<rparr>"

definition resume_set_schedule ::
  "('g, 'k) sharing \<Rightarrow> BatteryCommand option \<Rightarrow> 'k secure_battery \<Rightarrow> 'k secure_battery \<times> stream" where
  "resume_set_schedule lib msg b =
    (case at_battery b of
       Serving \<Rightarrow> (b, [])
     | Await_prep \<Rightarrow>
         (let (coll, out) = perform_round lib (add_prep lib (rust_coll b) (share_of msg))
          in (b\<lparr>rust_coll := coll, at_battery := Await_share\<rparr>, share_messages out))
     | Await_share \<Rightarrow>
         (b\<lparr>rust_coll := aggregate_finish_coll lib (rust_coll b) (share_of msg),
            at_battery := Await_final\<rparr>, [])
     | Await_final \<Rightarrow>
         (b\<lparr>rust_coll := collect lib (rust_coll b) (share_of msg), at_battery := Serving\<rparr>, []))"

text \<open>
  The dispatch of \<open>BOS::handleBatteryCommand\<close> on the connections of the battery: a share starts
  \<open>set_schedule\<close>; the other commands are those of \<open>V3_BOS\<close> and leave the collector alone.
\<close>

definition serve_secure ::
  "('g, 'k) sharing \<Rightarrow> BatteryCommand option \<Rightarrow> 'k secure_battery \<Rightarrow> 'k secure_battery" where
  "serve_secure lib msg b =
    (case msg of
       None \<Rightarrow> b
     | Some c \<Rightarrow> if command c = 4 then set_schedule lib (share_of msg) b else b)"

section \<open>The client\<close>

text \<open>
  The constructor of the client asks the server for the battery and starts from an empty schedule;
  its status calls repeat those of \<open>ClientBattery\<close> line by line.
\<close>

definition SecureClientBattery_connect :: "int option \<Rightarrow> secure_client outcome" where
  "SecureClientBattery_connect r = obind (ClientBattery_connect r) (\<lambda>_. Inr new_SecureClientBattery)"

definition SecureClientBattery_getStatus ::
  "(BatteryCommand, int \<times> ProtoStatus option, 's) peer \<Rightarrow> 's \<Rightarrow> (BatteryStatus \<times> 's) outcome" where
  "SecureClientBattery_getStatus = ClientBattery_getStatus"

definition SecureClientBattery_setBatteryStatus ::
  "(BatteryCommand, int, 's) peer \<Rightarrow> BatteryStatus \<Rightarrow> 's \<Rightarrow> (bool \<times> 's) outcome" where
  "SecureClientBattery_setBatteryStatus = ClientBattery_setBatteryStatus"

section \<open>The aggregator\<close>

datatype aggregator_point = Polling | Await_round

record 'g agg_process =
  rust_agg :: 'g
  agg_client_num :: "32 word"
  battery_connected :: bool
  client_connection :: "nat option"
  at_aggregator :: aggregator_point

definition new_Aggregator :: "('g, 'k) sharing \<Rightarrow> string \<Rightarrow> 'g agg_process" where
  "new_Aggregator lib verify_key =
     \<lparr>rust_agg = new_aggregator lib 1 1440 verify_key 2 2000 2000, agg_client_num = 0,
      battery_connected = False, client_connection = None, at_aggregator = Polling\<rparr>"

text \<open>
  A write to the battery goes through a pointer that is null until the battery has connected.
\<close>

definition write_battery :: "string list \<Rightarrow> 'g agg_process \<Rightarrow> ('g agg_process \<times> stream) outcome" where
  "write_battery out a =
    (if out \<noteq> [] \<and> \<not> battery_connected a then Inl Null_deref else Inr (a, share_messages out))"

text \<open>
  The handler of the client connection. Its parameter has the name of the member that holds the
  connection of the battery and hides it: the second read is from the client again.
\<close>

definition handle_share ::
  "('g, 'k) sharing \<Rightarrow> BatteryCommand option \<Rightarrow> 'g agg_process \<Rightarrow> ('g agg_process \<times> stream) outcome" where
  "handle_share lib msg a =
    (case msg of
       None \<Rightarrow> Inr (a, [])
     | Some c \<Rightarrow>
         if command c \<noteq> 4 then Inr (a, [])
         else
           (let (g, out) = aggregate lib (rust_agg a) (share_of msg) (agg_client_num a) in
            write_battery out
              (a\<lparr>rust_agg := g, agg_client_num := agg_client_num a + 1, at_aggregator := Await_round\<rparr>)))"

definition resume_share ::
  "('g, 'k) sharing \<Rightarrow> BatteryCommand option \<Rightarrow> 'g agg_process \<Rightarrow> ('g agg_process \<times> stream) outcome" where
  "resume_share lib msg a =
    (let (g, round_out) = agg_finish_round lib (rust_agg a) (share_of msg);
         (g', share_out) = send_agg_share lib g
     in write_battery (round_out @ share_out) (a\<lparr>rust_agg := g', at_aggregator := Polling\<rparr>))"

section \<open>The two processes and their clients\<close>

record ('g, 'k) exchange =
  sec_battery :: "'k secure_battery"
  sec_aggregator :: "'g agg_process"
  to_server :: "nat \<Rightarrow> stream"
  to_agg :: "nat \<Rightarrow> stream"
  agg_to_battery :: stream
  battery_to_agg :: stream

text \<open>One turn of the server: a command of client \<open>i\<close>, or the message \<open>set_schedule\<close> waits for.\<close>

definition server_turn :: "('g, 'k) sharing \<Rightarrow> nat \<Rightarrow> ('g, 'k) exchange \<Rightarrow> ('g, 'k) exchange option" where
  "server_turn lib i s =
    (if at_battery (sec_battery s) = Serving then
       (case to_server s i of
          [] \<Rightarrow> None
        | msg # msgs \<Rightarrow>
            Some (s\<lparr>sec_battery := serve_secure lib msg (sec_battery s),
                    to_server := (to_server s)(i := msgs)\<rparr>))
     else
       (case agg_to_battery s of
          [] \<Rightarrow> None
        | msg # msgs \<Rightarrow>
            (let (b, out) = resume_set_schedule lib msg (sec_battery s)
             in Some (s\<lparr>sec_battery := b, agg_to_battery := msgs,
                        battery_to_agg := battery_to_agg s @ out\<rparr>))))"

text \<open>
  One turn of the aggregator. What the battery writes makes the handler of its connection run,
  which prints a line and reads nothing.
\<close>

definition aggregator_turn ::
  "('g, 'k) sharing \<Rightarrow> ('g, 'k) exchange \<Rightarrow> ('g, 'k) exchange outcome option" where
  "aggregator_turn lib s =
    (let a = sec_aggregator s in
     case client_connection a of
       None \<Rightarrow> None
     | Some i \<Rightarrow>
         (case to_agg s i of
            [] \<Rightarrow> None
          | msg # msgs \<Rightarrow>
              Some (obind ((if at_aggregator a = Polling then handle_share else resume_share) lib msg a)
                (\<lambda>(a', out).
                  Inr (s\<lparr>sec_aggregator := a', to_agg := (to_agg s)(i := msgs),
                         agg_to_battery := agg_to_battery s @ out\<rparr>)))))"

text \<open>
  The listeners, served by the same loop: a new client connection takes the place of the one
  before, whose messages are no longer read.
\<close>

definition accept_client :: "nat \<Rightarrow> ('g, 'k) exchange \<Rightarrow> ('g, 'k) exchange option" where
  "accept_client i s =
    (if at_aggregator (sec_aggregator s) = Polling
     then Some (s\<lparr>sec_aggregator := (sec_aggregator s)\<lparr>client_connection := Some i\<rparr>\<rparr>) else None)"

definition accept_battery :: "('g, 'k) exchange \<Rightarrow> ('g, 'k) exchange option" where
  "accept_battery s =
    (if at_aggregator (sec_aggregator s) = Polling
     then Some (s\<lparr>sec_aggregator := (sec_aggregator s)\<lparr>battery_connected := True\<rparr>\<rparr>) else None)"

text \<open>A client writes to both of its connections; \<open>submit\<close> is \<open>SecureClientBattery::submit_schedule\<close>.\<close>

definition client_writes :: "nat \<Rightarrow> stream \<Rightarrow> stream \<Rightarrow> ('g, 'k) exchange \<Rightarrow> ('g, 'k) exchange" where
  "client_writes i bs as s =
     s\<lparr>to_server := (to_server s)(i := to_server s i @ bs), to_agg := (to_agg s)(i := to_agg s i @ as)\<rparr>"

definition submit ::
  "(32 word list \<Rightarrow> (string \<times> nat) list) \<Rightarrow> nat \<Rightarrow> secure_client \<Rightarrow> ('g, 'k) exchange \<Rightarrow> ('g, 'k) exchange" where
  "submit client_submit i c s =
    (let (_, c') = submit_schedule client_submit (c\<lparr>to_battery := [], to_aggregator := []\<rparr>)
     in client_writes i (share_messages (to_battery c')) (share_messages (to_aggregator c')) s)"

datatype label = Server nat | Aggregator | Accept_client nat | Accept_battery | Client nat

inductive exchange_step ::
  "('g, 'k) sharing \<Rightarrow> ('g, 'k) exchange \<Rightarrow> label \<Rightarrow> ('g, 'k) exchange \<Rightarrow> bool" for lib where
  Server: "server_turn lib i s = Some s' \<Longrightarrow> exchange_step lib s (Server i) s'"
| Aggregator: "aggregator_turn lib s = Some (Inr s') \<Longrightarrow> exchange_step lib s Aggregator s'"
| Accept_client: "accept_client i s = Some s' \<Longrightarrow> exchange_step lib s (Accept_client i) s'"
| Accept_battery: "accept_battery s = Some s' \<Longrightarrow> exchange_step lib s Accept_battery s'"
| Client: "exchange_step lib s (Client i) (client_writes i bs as s)"

inductive exchange_run ::
  "('g, 'k) sharing \<Rightarrow> ('g, 'k) exchange \<Rightarrow> label list \<Rightarrow> ('g, 'k) exchange \<Rightarrow> bool" for lib where
  Nil: "exchange_run lib s [] s"
| Snoc: "exchange_run lib s ls t \<Longrightarrow> exchange_step lib t l u \<Longrightarrow> exchange_run lib s (ls @ [l]) u"

inductive_cases exchange_stepE: "exchange_step lib s l t"
inductive_simps exchange_step_iff [simp]:
  "exchange_step lib s (Server i) t" "exchange_step lib s Aggregator t"
  "exchange_step lib s (Accept_client i) t" "exchange_step lib s Accept_battery t"
  "exchange_step lib s (Client i) t"

text \<open>Both processes just started, with what the clients have already written.\<close>

definition exchange_start ::
  "('g, 'k) sharing \<Rightarrow> string \<Rightarrow> (nat \<Rightarrow> stream) \<Rightarrow> (nat \<Rightarrow> stream) \<Rightarrow> ('g, 'k) exchange" where
  "exchange_start lib key bs as =
     \<lparr>sec_battery = \<lparr>rust_coll = new_collector lib 0 1440 key 2 2000 2000, coll_client_num = 0,
                     at_battery = Serving\<rparr>,
      sec_aggregator = new_Aggregator lib key, to_server = bs, to_agg = as,
      agg_to_battery = [], battery_to_agg = []\<rparr>"

section \<open>Runs\<close>

lemma exchange_run_invariant:
  assumes "exchange_run lib s ls t" and "I s" and "\<forall>l \<in> set ls. L l"
    and "\<And>u l v. I u \<Longrightarrow> L l \<Longrightarrow> exchange_step lib u l v \<Longrightarrow> I v"
  shows "I t"
  using assms(1-3) by (induction rule: exchange_run.induct) (auto intro: assms(4))

text \<open>A schedule of turns, run.\<close>

fun turn :: "('g, 'k) sharing \<Rightarrow> label \<Rightarrow> ('g, 'k) exchange \<Rightarrow> ('g, 'k) exchange option" where
  "turn lib (Server i) s = server_turn lib i s"
| "turn lib Aggregator s = (case aggregator_turn lib s of Some (Inr s') \<Rightarrow> Some s' | _ \<Rightarrow> None)"
| "turn lib (Accept_client i) s = accept_client i s"
| "turn lib Accept_battery s = accept_battery s"
| "turn lib (Client i) s = Some s"

fun turns :: "('g, 'k) sharing \<Rightarrow> label list \<Rightarrow> ('g, 'k) exchange \<Rightarrow> ('g, 'k) exchange option" where
  "turns lib [] s = Some s"
| "turns lib (l # ls) s = (case turn lib l s of None \<Rightarrow> None | Some s' \<Rightarrow> turns lib ls s')"

lemma turn_step: "turn lib l s = Some t \<Longrightarrow> exchange_step lib s l t"
proof (cases l)
  case (Client i)
  moreover assume "turn lib l s = Some t"
  moreover have "client_writes i [] [] s = s" by (simp add: client_writes_def)
  ultimately show ?thesis using exchange_step.Client [of lib s i "[]" "[]"] by simp
qed (auto split: option.splits sum.splits)

lemma exchange_run_Cons:
  "exchange_run lib t ls u \<Longrightarrow> exchange_step lib s l t \<Longrightarrow> exchange_run lib s (l # ls) u"
proof (induction rule: exchange_run.induct)
  case Nil
  then show ?case using exchange_run.Snoc [OF exchange_run.Nil] by fastforce
next
  case (Snoc s0 ls t' l' u)
  then show ?case using exchange_run.Snoc by (metis append_Cons)
qed

lemma turns_run: "turns lib ls s = Some t \<Longrightarrow> exchange_run lib s ls t"
  by (induction ls arbitrary: s)
    (auto intro: exchange_run.Nil exchange_run_Cons turn_step split: option.splits)

lemmas turn_defs = server_turn_def aggregator_turn_def accept_client_def accept_battery_def
  serve_secure_def resume_set_schedule_def handle_share_def resume_share_def write_battery_def

section \<open>Properties of the exchange\<close>

text \<open>
  The aggregator never reads what the battery writes to it. Whatever the clients, the listeners
  and the two processes do, the stream from the battery to the aggregator only grows.
\<close>

theorem round_messages_unread:
  assumes "exchange_run lib s ls t"
  shows "\<exists>out. battery_to_agg t = battery_to_agg s @ out"
  using assms
proof (induction rule: exchange_run.induct)
  case (Snoc s ls t l u)
  have "\<exists>out. battery_to_agg u = battery_to_agg t @ out"
    using Snoc.hyps(2)
    by (cases rule: exchange_step.cases)
      (auto simp: turn_defs client_writes_def Let_def split: if_splits list.splits option.splits prod.splits)
  with Snoc.IH show ?case by (metis append.assoc)
qed simp

text \<open>
  The state of an exchange in which no client sends the aggregator more than one message, from
  the library states \<open>g0\<close> and \<open>k0\<close>: before a share is read nothing has been written to the battery;
  after it the aggregator waits on a connection that stays empty, and the messages the battery has
  read or can read are those of the one share.
\<close>

fun reads_done :: "battery_point \<Rightarrow> nat" where
  "reads_done Serving = 0"
| "reads_done Await_prep = 0"
| "reads_done Await_share = 1"
| "reads_done Await_final = 2"

definition single_share :: "('g, 'k) sharing \<Rightarrow> 'g \<Rightarrow> 'k \<Rightarrow> ('g, 'k) exchange \<Rightarrow> bool" where
  "single_share lib g0 k0 s \<longleftrightarrow>
     (let a = sec_aggregator s; b = sec_battery s in
      (\<forall>i. length (to_agg s i) \<le> 1) \<and>
      (at_battery b = Serving \<longrightarrow> coll_client_num b = 0 \<and> rust_coll b = k0) \<and>
      (if at_aggregator a = Polling
       then rust_agg a = g0 \<and> agg_client_num a = 0 \<and> agg_to_battery s = [] \<and> reads_done (at_battery b) = 0
       else (\<exists>i. client_connection a = Some i \<and> to_agg s i = []) \<and>
         (\<exists>share. rust_agg a = fst (aggregate lib g0 share 0)) \<and>
         reads_done (at_battery b) + length (agg_to_battery s) \<le> 2))"

lemma single_share_server:
  assumes "single_share lib g0 k0 s" and "server_turn lib i s = Some t"
  shows "single_share lib g0 k0 t"
proof (cases "at_battery (sec_battery s)")
  case Serving
  with assms show ?thesis
    by (auto simp: single_share_def server_turn_def serve_secure_def set_schedule_def Let_def
        split: list.splits option.splits if_splits)
qed (use assms in \<open>auto simp: single_share_def server_turn_def resume_set_schedule_def Let_def
        split: list.splits prod.splits if_splits\<close>)

lemma single_share_aggregator:
  assumes inv: "single_share lib g0 k0 s" and step: "aggregator_turn lib s = Some (Inr t)"
    and few: "\<forall>share. length (snd (aggregate lib g0 share 0)) \<le> 2"
  shows "single_share lib g0 k0 t"
proof -
  let ?a = "sec_aggregator s"
  obtain i msg msgs where i: "client_connection ?a = Some i" and msg: "to_agg s i = msg # msgs"
    using step by (auto simp: aggregator_turn_def Let_def split: option.splits list.splits)
  have one: "msgs = []" and poll: "at_aggregator ?a = Polling"
    using inv i msg by (auto simp: single_share_def Let_def split: if_splits dest: spec [of _ i])
  obtain a' out where run: "handle_share lib msg ?a = Inr (a', out)"
    and t: "t = s\<lparr>sec_aggregator := a', to_agg := (to_agg s)(i := []),
      agg_to_battery := agg_to_battery s @ out\<rparr>"
    using step i msg one poll by (auto simp: aggregator_turn_def Let_def)
  show ?thesis
  proof (cases "\<exists>c. msg = Some c \<and> command c = 4")
    case True
    obtain g out' where agg: "aggregate lib (rust_agg ?a) (share_of msg) (agg_client_num ?a) = (g, out')"
      by fastforce
    have a: "rust_agg ?a = g0" "agg_client_num ?a = 0"
      using inv poll by (simp_all add: single_share_def Let_def)
    with agg have g: "g = fst (aggregate lib g0 (share_of msg) 0)" "length out' \<le> 2"
      using few by (metis fst_conv, metis snd_conv)
    have "a' = ?a\<lparr>rust_agg := g, agg_client_num := 1, at_aggregator := Await_round\<rparr>"
      and "length out = length out'"
      using True run agg a
      by (auto simp: handle_share_def write_battery_def share_messages_def split: if_splits)
    with g inv poll i show ?thesis
      by (simp add: t single_share_def Let_def) blast
  qed (use run inv poll in \<open>auto simp: t single_share_def handle_share_def Let_def split: option.splits if_splits\<close>)
qed

lemma single_share_step:
  assumes "single_share lib g0 k0 s" and "exchange_step lib s l t" and "\<forall>i. l \<noteq> Client i"
    and "\<forall>share. length (snd (aggregate lib g0 share 0)) \<le> 2"
  shows "single_share lib g0 k0 t"
  using assms(2)
proof (cases rule: exchange_step.cases)
  case (Server i)
  from single_share_server [OF assms(1) Server(2)] show ?thesis .
next
  case Aggregator
  from single_share_aggregator [OF assms(1) Aggregator(2) assms(4)] show ?thesis .
next
  case (Accept_client i)
  with assms(1) show ?thesis
    by (auto simp: single_share_def accept_client_def Let_def split: if_splits)
next
  case Accept_battery
  with assms(1) show ?thesis
    by (auto simp: single_share_def accept_battery_def Let_def split: if_splits)
next
  case (Client i bs as)
  with assms(3) show ?thesis by blast
qed

text \<open>
  C19: two clients that submit one schedule each, as the library is told, never get their sum. Let
  every client have at most one message on its way to the aggregator, and let the library write at
  most two messages for one share. Whatever order the connections are accepted and served in, the
  aggregator reads at most one share and the round is never finished; from then on it does nothing,
  not even accept a connection; and a battery that has begun a schedule does not come back from it.
\<close>

theorem submitted_schedules_block:
  assumes run: "exchange_run lib (exchange_start lib key bs as) ls t"
    and once: "\<forall>i. length (as i) \<le> 1" and quiet: "\<forall>i. Client i \<notin> set ls"
    and few: "\<forall>share. length (snd (aggregate lib (new_aggregator lib 1 1440 key 2 2000 2000) share 0)) \<le> 2"
  shows "(rust_agg (sec_aggregator t) = new_aggregator lib 1 1440 key 2 2000 2000 \<or>
      (\<exists>share. rust_agg (sec_aggregator t) =
        fst (aggregate lib (new_aggregator lib 1 1440 key 2 2000 2000) share 0))) \<and>
    (at_aggregator (sec_aggregator t) \<noteq> Polling \<longrightarrow>
      (\<forall>l u. exchange_step lib t l u \<longrightarrow> (\<exists>i. l = Server i \<or> l = Client i))) \<and>
    (at_battery (sec_battery t) = Serving \<longrightarrow>
      rust_coll (sec_battery t) = new_collector lib 0 1440 key 2 2000 2000)"
proof -
  let ?I = "single_share lib (new_aggregator lib 1 1440 key 2 2000 2000)
    (new_collector lib 0 1440 key 2 2000 2000)"
  have "?I (exchange_start lib key bs as)"
    using once by (simp add: single_share_def exchange_start_def new_Aggregator_def)
  moreover have "\<forall>l \<in> set ls. \<forall>i. l \<noteq> Client i" using quiet by blast
  ultimately have inv: "?I t"
    by (rule exchange_run_invariant [OF run, where L = "\<lambda>l. \<forall>i. l \<noteq> Client i"])
      (rule single_share_step [OF _ _ _ few])
  have "\<exists>i. l = Server i \<or> l = Client i"
    if "at_aggregator (sec_aggregator t) \<noteq> Polling" "exchange_step lib t l u" for l u
    using that(2)
    by (cases rule: exchange_step.cases)
      (use inv that(1) in \<open>auto simp: single_share_def aggregator_turn_def accept_client_def
        accept_battery_def Let_def\<close>)
  with inv show ?thesis by (auto simp: single_share_def Let_def split: if_splits)
qed

text \<open>A library that records what it is given, and answers every share with one message.\<close>

definition recording :: "(string list, string list) sharing" where
  "recording =
     \<lparr>new_collector = (\<lambda>_ _ _ _ _ _. []), aggregate_coll = (\<lambda>k p _. k @ [p]), add_prep = (\<lambda>k p. k @ [p]),
      perform_round = (\<lambda>k. (k, [''round''])), aggregate_finish_coll = (\<lambda>k p. k @ [p]),
      collect = (\<lambda>k p. k @ [p]), new_aggregator = (\<lambda>_ _ _ _ _ _. []),
      aggregate = (\<lambda>g p _. (g @ [p], [''prep''])), agg_finish_round = (\<lambda>g p. (g @ [p], [''share''])),
      send_agg_share = (\<lambda>g. (g, [''total'']))\<rparr>"

definition two_clients :: "nat \<Rightarrow> stream" where
  "two_clients i = (if i < 2 then [Some (share_command [char_of i])] else [])"

lemma blocked_run:
  "\<exists>t. exchange_run recording (exchange_start recording ''key'' two_clients two_clients)
     [Server 0, Accept_battery, Accept_client 1, Aggregator, Server 0] t"
  by (rule exI, rule turns_run)
    (simp add: turn_defs exchange_start_def new_Aggregator_def recording_def two_clients_def
      share_command_def share_of_def share_messages_def set_schedule_def Let_def)

theorem round_messages_unread_witness:
  "\<exists>ls t out. exchange_run recording (exchange_start recording ''key'' two_clients two_clients) ls t \<and>
     battery_to_agg t = battery_to_agg (exchange_start recording ''key'' two_clients two_clients) @ out"
proof -
  obtain t where run: "exchange_run recording (exchange_start recording ''key'' two_clients two_clients)
     [Server 0, Accept_battery, Accept_client 1, Aggregator, Server 0] t"
    using blocked_run by blast
  from run round_messages_unread [OF run] show ?thesis by blast
qed

theorem submitted_schedules_block_witness:
  "\<exists>t. (rust_agg (sec_aggregator t) = new_aggregator recording 1 1440 ''key'' 2 2000 2000 \<or>
      (\<exists>share. rust_agg (sec_aggregator t) =
        fst (aggregate recording (new_aggregator recording 1 1440 ''key'' 2 2000 2000) share 0))) \<and>
    (at_aggregator (sec_aggregator t) \<noteq> Polling \<longrightarrow>
      (\<forall>l u. exchange_step recording t l u \<longrightarrow> (\<exists>i. l = Server i \<or> l = Client i))) \<and>
    (at_battery (sec_battery t) = Serving \<longrightarrow>
      rust_coll (sec_battery t) = new_collector recording 0 1440 ''key'' 2 2000 2000)"
proof -
  obtain t where "exchange_run recording (exchange_start recording ''key'' two_clients two_clients)
     [Server 0, Accept_battery, Accept_client 1, Aggregator, Server 0] t"
    using blocked_run by blast
  from submitted_schedules_block [OF this] show ?thesis
    by (intro exI [of _ t]) (simp add: two_clients_def recording_def)
qed

text \<open>
  C20: what the aggregator takes for the answer of the battery is the next message of the client. A
  client that submits a second time completes the exchange: the round is finished with its second
  share, the battery collects the result, and the message of the battery stays unread.
\<close>

theorem second_submission_finishes_round:
  assumes bat: "at_battery (sec_battery s) = Serving" "to_server s i = Some (share_command b) # bs"
    and agg: "at_aggregator (sec_aggregator s) = Polling" "client_connection (sec_aggregator s) = Some i"
      "battery_connected (sec_aggregator s)"
      "to_agg s i = Some (share_command p) # Some (share_command q) # as"
    and empty: "agg_to_battery s = []"
    and lib: "aggregate lib (rust_agg (sec_aggregator s)) p (agg_client_num (sec_aggregator s)) = (g1, [prep])"
      "agg_finish_round lib g1 q = (g2, [share])" "send_agg_share lib g2 = (g3, [final])"
      "perform_round lib (add_prep lib (aggregate_coll lib (rust_coll (sec_battery s)) b
         (coll_client_num (sec_battery s))) prep) = (k2, rounds)"
  shows "\<exists>ls t. exchange_run lib s ls t \<and> at_battery (sec_battery t) = Serving \<and>
    rust_coll (sec_battery t) = collect lib (aggregate_finish_coll lib k2 share) final \<and>
    at_aggregator (sec_aggregator t) = Polling \<and> rust_agg (sec_aggregator t) = g3 \<and>
    to_agg t i = as \<and> battery_to_agg t = battery_to_agg s @ share_messages rounds"
proof -
  let ?ls = "[Server i, Aggregator, Aggregator, Server i, Server i, Server i]"
  obtain t where t: "turns lib ?ls s = Some t" and
    "at_battery (sec_battery t) = Serving \<and>
     rust_coll (sec_battery t) = collect lib (aggregate_finish_coll lib k2 share) final \<and>
     at_aggregator (sec_aggregator t) = Polling \<and> rust_agg (sec_aggregator t) = g3 \<and>
     to_agg t i = as \<and> battery_to_agg t = battery_to_agg s @ share_messages rounds"
    using assms
    by (simp add: turn_defs set_schedule_def share_command_def share_of_def share_messages_def Let_def)
  with turns_run [OF t] show ?thesis by blast
qed

theorem second_submission_finishes_round_witness:
  "\<exists>s ls t. exchange_run recording s ls t \<and> at_battery (sec_battery t) = Serving \<and>
    rust_coll (sec_battery t) = collect recording (aggregate_finish_coll recording
      [''b'', ''prep''] ''share'') ''total'' \<and>
    at_aggregator (sec_aggregator t) = Polling \<and> rust_agg (sec_aggregator t) = [''p'', ''q''] \<and>
    to_agg t 0 = [] \<and> battery_to_agg t = battery_to_agg s @ share_messages [''round'']"
proof -
  let ?s = "\<lparr>sec_battery = \<lparr>rust_coll = [], coll_client_num = 0, at_battery = Serving\<rparr>,
    sec_aggregator = \<lparr>rust_agg = [], agg_client_num = 0, battery_connected = True,
      client_connection = Some 0, at_aggregator = Polling\<rparr>,
    to_server = (\<lambda>_. [Some (share_command ''b'')]),
    to_agg = (\<lambda>_. [Some (share_command ''p''), Some (share_command ''q'')]),
    agg_to_battery = [], battery_to_agg = []\<rparr> :: (string list, string list) exchange"
  show ?thesis
    by (rule exI [of _ ?s], rule second_submission_finishes_round
        [where b = "''b''" and p = "''p''" and q = "''q''" and ?g1.0 = "[''p'']" and
          ?g2.0 = "[''p'', ''q'']" and prep = "''prep''" and bs = "[]"])
      (simp_all add: recording_def)
qed

text \<open>
  A client whose connection has been replaced by a later one is not heard: its messages to the
  aggregator stay where they are until it connects again.
\<close>

theorem replaced_client_not_heard:
  assumes "exchange_run lib s ls t" and "Accept_client i \<notin> set ls"
    and "client_connection (sec_aggregator s) \<noteq> Some i"
  shows "\<exists>ms. to_agg t i = to_agg s i @ ms"
proof -
  let ?I = "\<lambda>u. client_connection (sec_aggregator u) \<noteq> Some i \<and> (\<exists>ms. to_agg u i = to_agg s i @ ms)"
  have "?I v" if I: "?I u" and l: "l \<noteq> Accept_client i" and step: "exchange_step lib u l v" for u l v
    using step
  proof (cases rule: exchange_step.cases)
    case (Server j)
    then show ?thesis using I
      by (auto simp: server_turn_def Let_def split: if_splits list.splits prod.splits)
  next
    case Aggregator
    then show ?thesis using I
      by (auto simp: aggregator_turn_def handle_share_def resume_share_def write_battery_def Let_def
          split: if_splits list.splits prod.splits option.splits)
  qed (use I l in \<open>auto simp: accept_client_def accept_battery_def client_writes_def split: if_splits\<close>)
  moreover have "?I s" using assms(3) by simp
  moreover have "\<forall>l \<in> set ls. l \<noteq> Accept_client i" using assms(2) by blast
  ultimately have "?I t"
    using exchange_run_invariant [OF assms(1), where I = ?I and L = "\<lambda>l. l \<noteq> Accept_client i"] by blast
  then show ?thesis by blast
qed

theorem replaced_client_not_heard_witness:
  "\<exists>ls t ms. exchange_run recording (exchange_start recording ''key'' two_clients two_clients) ls t \<and>
     to_agg t 0 = to_agg (exchange_start recording ''key'' two_clients two_clients) 0 @ ms"
proof -
  obtain t where run: "exchange_run recording (exchange_start recording ''key'' two_clients two_clients)
     [Server 0, Accept_battery, Accept_client 1, Aggregator, Server 0] t"
    using blocked_run by blast
  have "\<exists>ms. to_agg t 0 = to_agg (exchange_start recording ''key'' two_clients two_clients) 0 @ ms"
    by (rule replaced_client_not_heard [OF run]) (simp_all add: exchange_start_def new_Aggregator_def)
  with run show ?thesis by blast
qed

end
