(* ===== verification/V2_Status.thy ===== *)
theory V2_Status
  imports Prelude V3_Connection
begin

text \<open>
  The value types of BatteryOS-V2 and their byte format (\<open>util.hpp\<close>, \<open>BatteryStatus.cpp\<close>, \<open>RPC.cpp\<close>,
  \<open>util.cpp\<close>). An \<open>int64_t\<close> is an \<open>int\<close>; \<open>in_int64\<close> says that it fits. A \<open>timepoint_t\<close> is its count of
  nanoseconds. A buffer is a list of bytes together with an offset, as the pointer the code advances.
\<close>

section \<open>Integers\<close>

definition sizeof :: "'a::len itself \<Rightarrow> nat" where
  "sizeof T = LENGTH('a) div 8"

definition deserialize_int :: "byte list \<Rightarrow> nat \<Rightarrow> 'a::len word" where
  "deserialize_int buffer off =
     fold (\<lambda>i result. result OR push_bit (i * 8) (ucast (buffer ! (off + i)))) [0..<sizeof TYPE('a)] 0"

definition serialize_int :: "'a::len word \<Rightarrow> byte list \<Rightarrow> nat \<Rightarrow> nat \<Rightarrow> nat \<times> byte list" where
  "serialize_int number buffer off buffer_size =
    (if buffer_size < sizeof TYPE('a) then (0, buffer)
     else (sizeof TYPE('a),
       fold (\<lambda>i buf. buf[off + i := ucast (drop_bit (i * 8) number AND 0xFF)]) [0..<sizeof TYPE('a)] buffer))"

section \<open>Structs of 64-bit fields\<close>

text \<open>
  The templates see a struct as the sequence of its fields, each of the size of \<open>Int\<close>; the loops
  visit the fields in order, advancing the offset and the remaining size.
\<close>

primrec serialize_fields :: "64 word list \<Rightarrow> byte list \<Rightarrow> nat \<Rightarrow> nat \<Rightarrow> nat \<times> byte list" where
  "serialize_fields [] buffer off remaining = (remaining, buffer)"
| "serialize_fields (w # ws) buffer off remaining =
    (let (used, buffer') = serialize_int w buffer off remaining;
         used_bytes = (if used < 8 then 8 else used)
     in serialize_fields ws buffer' (off + used_bytes) (remaining - used_bytes))"

definition serialize_struct_as_int :: "64 word list \<Rightarrow> byte list \<Rightarrow> nat \<Rightarrow> nat \<times> byte list" where
  "serialize_struct_as_int obj buffer buffer_size =
    (if buffer_size < 8 * length obj \<or> (8 * length obj) mod 8 \<noteq> 0 then (0, buffer)
     else
       (let (remaining, buffer') = serialize_fields obj buffer 0 buffer_size
        in (buffer_size - remaining, buffer')))"

definition deserialize_struct_as_int :: "nat \<Rightarrow> byte list \<Rightarrow> nat \<Rightarrow> nat \<times> 64 word list option" where
  "deserialize_struct_as_int fields buffer buffer_size =
    (if buffer_size < 8 * fields \<or> (8 * fields) mod 8 \<noteq> 0 then (0, None)
     else (8 * fields, Some (map (\<lambda>i. deserialize_int buffer (8 * i)) [0..<fields])))"

section \<open>The structs\<close>

record CTimestamp =
  secs_since_epoch :: int
  msec :: int

record v2_status =
  v2_voltage_mV :: int
  v2_current_mA :: int
  v2_capacity_mAh :: int
  v2_max_capacity_mAh :: int
  v2_max_charging_current_mA :: int
  v2_max_discharging_current_mA :: int
  v2_timestamp :: CTimestamp

definition zero_status :: v2_status where
  "zero_status = \<lparr>v2_voltage_mV = 0, v2_current_mA = 0, v2_capacity_mAh = 0, v2_max_capacity_mAh = 0,
     v2_max_charging_current_mA = 0, v2_max_discharging_current_mA = 0,
     v2_timestamp = \<lparr>secs_since_epoch = 0, msec = 0\<rparr>\<rparr>"

definition status_fields :: "v2_status \<Rightarrow> 64 word list" where
  "status_fields st = map word_of_int
    [v2_voltage_mV st, v2_current_mA st, v2_capacity_mAh st, v2_max_capacity_mAh st,
     v2_max_charging_current_mA st, v2_max_discharging_current_mA st,
     secs_since_epoch (v2_timestamp st), msec (v2_timestamp st)]"

definition status_of_fields :: "64 word list \<Rightarrow> v2_status" where
  "status_of_fields ws =
    \<lparr>v2_voltage_mV = sint (ws ! 0), v2_current_mA = sint (ws ! 1), v2_capacity_mAh = sint (ws ! 2),
     v2_max_capacity_mAh = sint (ws ! 3), v2_max_charging_current_mA = sint (ws ! 4),
     v2_max_discharging_current_mA = sint (ws ! 5),
     v2_timestamp = \<lparr>secs_since_epoch = sint (ws ! 6), msec = sint (ws ! 7)\<rparr>\<rparr>"

definition BatteryStatus_serialize :: "v2_status \<Rightarrow> byte list \<Rightarrow> nat \<Rightarrow> nat \<times> byte list" where
  "BatteryStatus_serialize st buffer buffer_size =
     serialize_struct_as_int (status_fields st) buffer buffer_size"

definition BatteryStatus_deserialize :: "v2_status \<Rightarrow> byte list \<Rightarrow> nat \<Rightarrow> nat \<times> v2_status" where
  "BatteryStatus_deserialize st buffer buffer_size =
    (case deserialize_struct_as_int 8 buffer buffer_size of
       (used, None) \<Rightarrow> (used, st)
     | (used, Some ws) \<Rightarrow> (used, status_of_fields ws))"

text \<open>The comparison walks over the bytes of the two structs in memory.\<close>

definition memory_of :: "64 word list \<Rightarrow> byte list" where
  "memory_of ws = concat (map (\<lambda>w. map (\<lambda>i. ucast (drop_bit (i * 8) w)) [0..<8]) ws)"

definition BatteryStatus_compare :: "v2_status \<Rightarrow> v2_status \<Rightarrow> bool" where
  "BatteryStatus_compare a b =
     list_all (\<lambda>i. memory_of (status_fields a) ! i = memory_of (status_fields b) ! i) [0..<64]"

record RPCRequestHeader =
  rpc_func :: int
  remote_name_length :: int
  rpc_current_mA :: int
  rpc_is_greater_than :: int
  rpc_when_to_set :: CTimestamp
  rpc_until_when :: CTimestamp

datatype RPCFunctionID = RPC_REFRESH | RPC_GET_STATUS | RPC_SET_CURRENT

primrec rpc_id :: "RPCFunctionID \<Rightarrow> int" where
  "rpc_id RPC_REFRESH = 1"
| "rpc_id RPC_GET_STATUS = 2"
| "rpc_id RPC_SET_CURRENT = 3"

definition new_RPC_header :: "RPCFunctionID \<Rightarrow> string \<Rightarrow> RPCRequestHeader" where
  "new_RPC_header func remote_name =
    \<lparr>rpc_func = rpc_id func, remote_name_length = int (length remote_name), rpc_current_mA = 0,
     rpc_is_greater_than = 0, rpc_when_to_set = \<lparr>secs_since_epoch = 0, msec = 0\<rparr>,
     rpc_until_when = \<lparr>secs_since_epoch = 0, msec = 0\<rparr>\<rparr>"

definition header_fields :: "RPCRequestHeader \<Rightarrow> 64 word list" where
  "header_fields h = map word_of_int
    [rpc_func h, remote_name_length h, rpc_current_mA h, rpc_is_greater_than h,
     secs_since_epoch (rpc_when_to_set h), msec (rpc_when_to_set h),
     secs_since_epoch (rpc_until_when h), msec (rpc_until_when h)]"

definition header_of_fields :: "64 word list \<Rightarrow> RPCRequestHeader" where
  "header_of_fields ws =
    \<lparr>rpc_func = sint (ws ! 0), remote_name_length = sint (ws ! 1), rpc_current_mA = sint (ws ! 2),
     rpc_is_greater_than = sint (ws ! 3),
     rpc_when_to_set = \<lparr>secs_since_epoch = sint (ws ! 4), msec = sint (ws ! 5)\<rparr>,
     rpc_until_when = \<lparr>secs_since_epoch = sint (ws ! 6), msec = sint (ws ! 7)\<rparr>\<rparr>"

definition RPCRequestHeader_serialize :: "RPCRequestHeader \<Rightarrow> byte list \<Rightarrow> nat \<Rightarrow> nat \<times> byte list" where
  "RPCRequestHeader_serialize h buffer buffer_size =
     serialize_struct_as_int (header_fields h) buffer buffer_size"

definition RPCRequestHeader_deserialize ::
  "RPCRequestHeader \<Rightarrow> byte list \<Rightarrow> nat \<Rightarrow> nat \<times> RPCRequestHeader" where
  "RPCRequestHeader_deserialize h buffer buffer_size =
    (case deserialize_struct_as_int 8 buffer buffer_size of
       (used, None) \<Rightarrow> (used, h)
     | (used, Some ws) \<Rightarrow> (used, header_of_fields ws))"

section \<open>Time\<close>

type_synonym nanos = int

text \<open>Integer conversions of \<open>std::chrono\<close> truncate towards zero.\<close>

definition tdiv :: "int \<Rightarrow> int \<Rightarrow> int" where
  "tdiv a b = (if 0 \<le> a then a div b else - (- a div b))"

definition timepoint_to_c_time :: "nanos \<Rightarrow> CTimestamp" where
  "timepoint_to_c_time tp =
    (let secs = tdiv tp 1000000000; ms = tdiv (tp - secs * 1000000000) 1000000
     in \<lparr>secs_since_epoch = secs, msec = ms\<rparr>)"

definition c_time_to_timepoint :: "CTimestamp \<Rightarrow> nanos" where
  "c_time_to_timepoint ts = 0 + secs_since_epoch ts * 1000000000 + msec ts * 1000000"

text \<open>The clock in seconds and nanoseconds; the milliseconds are rounded, with a carry.\<close>

definition get_system_time_c :: "(int \<times> int) option \<Rightarrow> CTimestamp" where
  "get_system_time_c clock =
    (case clock of
       None \<Rightarrow> \<lparr>secs_since_epoch = 0, msec = 0\<rparr>
     | Some (tv_sec, tv_nsec) \<Rightarrow>
         (let ms = \<lfloor>of_int tv_nsec / 1000000 + (1 / 2 :: real)\<rfloor> in
          if ms > 999 then \<lparr>secs_since_epoch = tv_sec + 1, msec = 0\<rparr>
          else \<lparr>secs_since_epoch = tv_sec, msec = ms\<rparr>))"

section \<open>Facts\<close>

lemma sizeof_simps [simp]: "sizeof TYPE(64) = 8" "sizeof TYPE(32) = 4" "sizeof TYPE(16) = 2"
  by (simp_all add: sizeof_def)

text \<open>The bytes of a word, least significant first.\<close>

definition le_bytes :: "64 word \<Rightarrow> byte list" where
  "le_bytes w = map (\<lambda>i. ucast (drop_bit (i * 8) w)) [0..<8]"

lemma le_bytes_length [simp]: "length (le_bytes w) = 8"
  by (simp add: le_bytes_def)

lemma ucast_and_FF: "(ucast (w AND 0xFF) :: byte) = ucast (w :: 64 word)"
proof -
  have "(0xFF :: 64 word) = mask 8" by (simp add: mask_eq_exp_minus_1)
  then show ?thesis
    by (simp only: take_bit_eq_mask [symmetric]) (rule bit_word_eqI, simp add: bit_simps)
qed

lemma length_fold_list_update [simp]:
  "length (fold (\<lambda>j ys. ys[off + j := f j]) ns xs) = length xs"
  by (induction ns arbitrary: xs) simp_all

lemma fold_list_update:
  "i < length xs \<Longrightarrow> fold (\<lambda>j ys. ys[off + j := f j]) [0..<n] xs ! i =
     (if off \<le> i \<and> i < off + n then f (i - off) else xs ! i)"
  by (induction n) (auto simp: nth_list_update less_Suc_eq)

lemma serialize_int64:
  assumes "8 \<le> n" and "off + 8 \<le> length buffer"
  shows "serialize_int (w :: 64 word) buffer off n =
           (8, take off buffer @ le_bytes w @ drop (off + 8) buffer)"
proof -
  have "fold (\<lambda>i buf. buf[off + i := ucast (drop_bit (i * 8) w AND 0xFF)]) [0..<8] buffer =
        take off buffer @ le_bytes w @ drop (off + 8) buffer"
    using assms(2)
    by (intro nth_equalityI)
       (auto simp: fold_list_update ucast_and_FF nth_append le_bytes_def simp del: upt_rec_numeral)
  then show ?thesis using assms(1) by (simp add: serialize_int_def)
qed

lemma bit_fold_bytes:
  "n \<le> 8 \<Longrightarrow> m < 64 \<Longrightarrow>
   bit (fold (\<lambda>i r. r OR push_bit (i * 8) (ucast (b i :: byte))) [0..<n] (0 :: 64 word)) m \<longleftrightarrow>
     m < 8 * n \<and> bit (b (m div 8)) (m mod 8)"
proof (induction n)
  case (Suc n)
  have "8 * n \<le> m \<and> bit (b n) (m - 8 * n) \<longleftrightarrow> m div 8 = n \<and> bit (b n) (m mod 8)"
  proof (cases "m div 8 = n")
    case True
    then show ?thesis using minus_mult_div_eq_mod [of m 8] by auto
  next
    case False
    then have "8 * n \<le> m \<Longrightarrow> 8 \<le> m - 8 * n"
      by (metis Suc_leI add.commute div_le_mono dvd_div_eq_mult le_diff_conv2 le_neq_implies_less
          less_eq_div_iff_mult_less_eq linorder_not_le mult.commute mult_Suc nonzero_mult_div_cancel_right
          zero_less_numeral zero_neq_numeral)
    then show ?thesis using False by (auto dest: bit_imp_le_length)
  qed
  moreover have "m < 8 * Suc n \<longleftrightarrow> m < 8 * n \<or> m div 8 = n" by auto
  ultimately show ?case using Suc by (auto simp: bit_simps mult.commute)
qed simp

lemma deserialize_le_bytes:
  assumes "\<And>i. i < 8 \<Longrightarrow> buffer ! (off + i) = le_bytes w ! i"
  shows "deserialize_int buffer off = (w :: 64 word)"
proof (rule bit_word_eqI)
  fix m assume "m < LENGTH(64)"
  then have m: "m < 64" by simp
  then have "bit (deserialize_int buffer off :: 64 word) m \<longleftrightarrow> bit (buffer ! (off + m div 8)) (m mod 8)"
    by (simp add: deserialize_int_def bit_fold_bytes del: upt_rec_numeral)
  also have "\<dots> \<longleftrightarrow> bit w m"
    using assms [of "m div 8"] m by (simp add: le_bytes_def bit_simps mult.commute del: upt_rec_numeral)
  finally show "bit (deserialize_int buffer off :: 64 word) m = bit w m" .
qed

lemma le_bytes_inj: "le_bytes v = le_bytes w \<longleftrightarrow> v = w"
  using deserialize_le_bytes [of "le_bytes v" 0 v] deserialize_le_bytes [of "le_bytes v" 0 w] by auto

lemma memory_of_Cons [simp]: "memory_of [] = []" "memory_of (w # ws) = le_bytes w @ memory_of ws"
  by (simp_all add: memory_of_def le_bytes_def)

lemma length_memory_of [simp]: "length (memory_of ws) = 8 * length ws"
  by (induction ws) simp_all

lemma memory_of_inj: "length vs = length ws \<Longrightarrow> memory_of vs = memory_of ws \<longleftrightarrow> vs = ws"
  by (induction vs ws rule: list_induct2) (auto simp: le_bytes_inj)

lemma memory_of_nth:
  "i < length ws \<Longrightarrow> j < 8 \<Longrightarrow> memory_of ws ! (8 * i + j) = le_bytes (ws ! i) ! j"
proof (induction ws arbitrary: i)
  case (Cons w ws)
  then show ?case by (cases i) (auto simp: nth_append algebra_simps)
qed simp

lemma serialize_fields_memory:
  assumes "off + 8 * length ws \<le> length buffer" and "8 * length ws \<le> remaining"
  shows "serialize_fields ws buffer off remaining =
           (remaining - 8 * length ws,
            take off buffer @ memory_of ws @ drop (off + 8 * length ws) buffer)"
  using assms
proof (induction ws arbitrary: buffer off remaining)
  case (Cons w ws)
  let ?b = "take off buffer @ le_bytes w @ drop (off + 8) buffer"
  have len: "length ?b = length buffer" using Cons.prems(1) by simp
  have "take (off + 8) ?b = take off buffer @ le_bytes w"
    using Cons.prems(1) by simp
  moreover have "drop (off + 8 + 8 * length ws) ?b = drop (off + 8 * length (w # ws)) buffer"
    using Cons.prems(1) by (simp add: algebra_simps)
  ultimately show ?case
    using Cons.IH [of "off + 8" ?b "remaining - 8"] Cons.prems len serialize_int64 [of remaining off buffer w]
    by (simp add: Let_def algebra_simps)
qed simp

lemma serialize_struct_memory:
  assumes "8 * length ws \<le> n" and "n \<le> length buffer"
  shows "serialize_struct_as_int ws buffer n =
           (8 * length ws, memory_of ws @ drop (8 * length ws) buffer)"
  using assms serialize_fields_memory [of 0 ws buffer n] by (simp add: serialize_struct_as_int_def)

lemma deserialize_struct_memory:
  assumes "8 * length ws \<le> n"
  shows "deserialize_struct_as_int (length ws) (memory_of ws @ rest) n = (8 * length ws, Some ws)"
proof -
  have "map (\<lambda>i. deserialize_int (memory_of ws @ rest) (8 * i)) [0..<length ws] = ws"
  proof (rule nth_equalityI)
    fix i assume "i < length (map (\<lambda>i. deserialize_int (memory_of ws @ rest) (8 * i)) [0..<length ws])"
    then have i: "i < length ws" by simp
    then have "(memory_of ws @ rest) ! (8 * i + j) = le_bytes (ws ! i) ! j" if "j < 8" for j
      using that by (simp add: nth_append memory_of_nth)
    then show "map (\<lambda>i. deserialize_int (memory_of ws @ rest) (8 * i)) [0..<length ws] ! i = ws ! i"
      using i by (simp add: deserialize_le_bytes)
  qed simp
  then show ?thesis using assms by (simp add: deserialize_struct_as_int_def)
qed

text \<open>The values that fit their fields.\<close>

definition ctime_int64 :: "CTimestamp \<Rightarrow> bool" where
  "ctime_int64 ts \<longleftrightarrow> in_int64 (secs_since_epoch ts) \<and> in_int64 (msec ts)"

definition status_int64 :: "v2_status \<Rightarrow> bool" where
  "status_int64 st \<longleftrightarrow> in_int64 (v2_voltage_mV st) \<and> in_int64 (v2_current_mA st) \<and>
     in_int64 (v2_capacity_mAh st) \<and> in_int64 (v2_max_capacity_mAh st) \<and>
     in_int64 (v2_max_charging_current_mA st) \<and> in_int64 (v2_max_discharging_current_mA st) \<and>
     ctime_int64 (v2_timestamp st)"

definition header_int64 :: "RPCRequestHeader \<Rightarrow> bool" where
  "header_int64 h \<longleftrightarrow> in_int64 (rpc_func h) \<and> in_int64 (remote_name_length h) \<and>
     in_int64 (rpc_current_mA h) \<and> in_int64 (rpc_is_greater_than h) \<and>
     ctime_int64 (rpc_when_to_set h) \<and> ctime_int64 (rpc_until_when h)"

lemma sint_of_int64: "in_int64 k \<Longrightarrow> sint (word_of_int k :: 64 word) = k"
  by (simp add: in_int64_def signed_of_int signed_take_bit_int_eq_self)

lemma status_of_status_fields: "status_int64 st \<Longrightarrow> status_of_fields (status_fields st) = st"
  by (simp add: status_int64_def ctime_int64_def status_of_fields_def status_fields_def sint_of_int64)

lemma header_of_header_fields: "header_int64 h \<Longrightarrow> header_of_fields (header_fields h) = h"
  by (simp add: header_int64_def ctime_int64_def header_of_fields_def header_fields_def sint_of_int64)

lemma fields_length [simp]: "length (status_fields st) = 8" "length (header_fields h) = 8"
  by (simp_all add: status_fields_def header_fields_def)

section \<open>Properties of the byte format\<close>

text \<open>
  C22: a battery status and an RPC header survive their byte format: written to a buffer that is large
  enough, they take 64 bytes, leave the rest of the buffer alone, and reading the buffer gives them
  back; a buffer that is too small is refused and not touched.
\<close>

theorem v2_struct_round_trip:
  assumes "status_int64 st" and "header_int64 h" and "n \<le> length buffer"
  shows "if n < 64 then
           BatteryStatus_serialize st buffer n = (0, buffer) \<and>
           RPCRequestHeader_serialize h buffer n = (0, buffer)
         else
           (\<exists>sbytes hbytes. length sbytes = 64 \<and> length hbytes = 64 \<and>
              BatteryStatus_serialize st buffer n = (64, sbytes @ drop 64 buffer) \<and>
              BatteryStatus_deserialize st' (sbytes @ drop 64 buffer) n = (64, st) \<and>
              RPCRequestHeader_serialize h buffer n = (64, hbytes @ drop 64 buffer) \<and>
              RPCRequestHeader_deserialize h' (hbytes @ drop 64 buffer) n = (64, h))"
proof (cases "n < 64")
  case True
  then show ?thesis
    by (simp add: BatteryStatus_serialize_def RPCRequestHeader_serialize_def serialize_struct_as_int_def)
next
  case False
  then have n: "64 \<le> n" by simp
  note s = serialize_struct_memory [of "status_fields st" n buffer]
    and h = serialize_struct_memory [of "header_fields h" n buffer]
    and ds = deserialize_struct_memory [of "status_fields st" n "drop 64 buffer"]
    and dh = deserialize_struct_memory [of "header_fields h" n "drop 64 buffer"]
  show ?thesis
    using n assms s h ds dh
    by (intro if_not_P [THEN iffD2, OF False] exI [of _ "memory_of (status_fields st)"]
          exI [of _ "memory_of (header_fields h)"])
       (simp add: BatteryStatus_serialize_def BatteryStatus_deserialize_def
          RPCRequestHeader_serialize_def RPCRequestHeader_deserialize_def
          status_of_status_fields header_of_header_fields)
qed

definition sample_v2_status :: v2_status where
  "sample_v2_status = zero_status\<lparr>v2_voltage_mV := 12000, v2_current_mA := - 5, v2_capacity_mAh := 700,
     v2_max_capacity_mAh := 1000, v2_max_charging_current_mA := 40, v2_max_discharging_current_mA := 50\<rparr>"

theorem v2_struct_round_trip_witness:
  "\<exists>sbytes hbytes. length sbytes = 64 \<and> length hbytes = 64 \<and>
     BatteryStatus_serialize sample_v2_status (replicate 70 0) 70 = (64, sbytes @ drop 64 (replicate 70 0)) \<and>
     BatteryStatus_deserialize zero_status (sbytes @ drop 64 (replicate 70 0)) 70 = (64, sample_v2_status) \<and>
     RPCRequestHeader_serialize (new_RPC_header RPC_GET_STATUS ''b'') (replicate 70 0) 70 =
       (64, hbytes @ drop 64 (replicate 70 0)) \<and>
     RPCRequestHeader_deserialize (new_RPC_header RPC_REFRESH []) (hbytes @ drop 64 (replicate 70 0)) 70 =
       (64, new_RPC_header RPC_GET_STATUS ''b'')"
proof -
  have "status_int64 sample_v2_status" "header_int64 (new_RPC_header RPC_GET_STATUS ''b'')"
    by (simp_all add: status_int64_def header_int64_def ctime_int64_def in_int64_def
        sample_v2_status_def zero_status_def new_RPC_header_def)
  from v2_struct_round_trip [OF this, of 70 "replicate 70 0" zero_status "new_RPC_header RPC_REFRESH []"] show ?thesis by simp
qed

text \<open>
  The comparison of two statuses byte by byte in memory is equality of the statuses.
\<close>

theorem v2_compare_is_equality:
  assumes "status_int64 a" and "status_int64 b"
  shows "BatteryStatus_compare a b \<longleftrightarrow> a = b"
proof -
  have "BatteryStatus_compare a b \<longleftrightarrow> memory_of (status_fields a) = memory_of (status_fields b)"
    by (auto simp: BatteryStatus_compare_def list_all_iff list_eq_iff_nth_eq simp del: upt_rec_numeral)
  also have "\<dots> \<longleftrightarrow> status_fields a = status_fields b" by (simp add: memory_of_inj)
  also have "\<dots> \<longleftrightarrow> a = b" using assms by (metis status_of_status_fields)
  finally show ?thesis .
qed

theorem v2_compare_is_equality_witness:
  "\<not> BatteryStatus_compare sample_v2_status zero_status"
  using v2_compare_is_equality [of sample_v2_status zero_status]
  by (simp add: status_int64_def ctime_int64_def in_int64_def sample_v2_status_def zero_status_def)

text \<open>Timestamps with a proper number of milliseconds survive the conversion to a time point.\<close>

lemma c_time_round_trip:
  assumes "0 \<le> secs_since_epoch ts" and "0 \<le> msec ts" and "msec ts < 1000"
  shows "timepoint_to_c_time (c_time_to_timepoint ts) = ts"
proof -
  have "(secs_since_epoch ts * 1000000000 + msec ts * 1000000) div 1000000000 = secs_since_epoch ts"
    using assms by (simp add: div_add1_eq)
  then show ?thesis
    using assms by (simp add: timepoint_to_c_time_def c_time_to_timepoint_def tdiv_def Let_def)
qed

lemma get_system_time_c_proper:
  assumes "0 \<le> ns" and "ns < 1000000000"
  shows "0 \<le> msec (get_system_time_c (Some (s, ns)))" and "msec (get_system_time_c (Some (s, ns))) < 1000"
proof -
  have "0 \<le> \<lfloor>of_int ns / 1000000 + (1 / 2 :: real)\<rfloor>" using assms(1) by simp
  then show "0 \<le> msec (get_system_time_c (Some (s, ns)))" "msec (get_system_time_c (Some (s, ns))) < 1000"
    by (auto simp: get_system_time_c_def Let_def)
qed

end
