(* ===== verification/V2_Battery.thy ===== *)
theory V2_Battery
  imports V2_Status Std_Containers
begin

text \<open>
  The battery interface of BatteryOS-V2 (\<open>BatteryInterface.cpp\<close>, \<open>BatteryInterface.hpp\<close>): the ordered
  queue of timed events, the scheduling of a current over an interval and the background thread
  that executes what is due. The two functions a driver implements, and the delay it may declare,
  are a record of functions over the battery. The clock is a sequence of readings.
\<close>

section \<open>Events\<close>

datatype v2_function = V2_REFRESH | V2_SET_CURRENT_END | V2_SET_CURRENT | V2_CANCEL_EVENT

primrec v2_function_num :: "v2_function \<Rightarrow> nat" where
  "v2_function_num V2_REFRESH = 0"
| "v2_function_num V2_SET_CURRENT_END = 1"
| "v2_function_num V2_SET_CURRENT = 2"
| "v2_function_num V2_CANCEL_EVENT = 3"

record v2_event =
  ev_timepoint :: nanos
  ev_time_added :: nanos
  ev_sequence_number :: "64 word"
  ev_func :: v2_function
  ev_current_mA :: int
  ev_is_greater_than :: bool
  ev_other_data :: nat

definition v2_event_less :: "v2_event \<Rightarrow> v2_event \<Rightarrow> bool" where
  "v2_event_less l r =
    (if ev_timepoint l < ev_timepoint r then True
     else if ev_timepoint l > ev_timepoint r then False
     else if ev_time_added l < ev_time_added r then True
     else if ev_time_added l > ev_time_added r then False
     else if ev_sequence_number l < ev_sequence_number r then True
     else if ev_sequence_number l > ev_sequence_number r then False
     else if v2_function_num (ev_func l) < v2_function_num (ev_func r) then True
     else False)"

definition v2_event_greater :: "v2_event \<Rightarrow> v2_event \<Rightarrow> bool" where
  "v2_event_greater l r =
    (if ev_timepoint l > ev_timepoint r then True
     else if ev_timepoint l < ev_timepoint r then False
     else if ev_time_added l > ev_time_added r then True
     else if ev_time_added l < ev_time_added r then False
     else if ev_sequence_number l > ev_sequence_number r then True
     else if ev_sequence_number l < ev_sequence_number r then False
     else if v2_function_num (ev_func l) > v2_function_num (ev_func r) then True
     else False)"

type_synonym v2_queue = "v2_event list"

abbreviation q_insert :: "v2_event \<Rightarrow> v2_queue \<Rightarrow> v2_queue" where
  "q_insert \<equiv> set_insert v2_event_less"

abbreviation q_erase :: "v2_event \<Rightarrow> v2_queue \<Rightarrow> v2_queue" where
  "q_erase \<equiv> set_erase v2_event_less"

section \<open>Batteries\<close>

datatype v2_mode = V2_LAZY | V2_ACTIVE

datatype v2_type = V2_Physical | V2_Aggregate | V2_BALSplitter | V2_Splitted

record 'b v2_battery =
  v2_name :: string
  v2_btype :: v2_type
  v2_bstatus :: v2_status
  refresh_mode :: v2_mode
  max_staleness :: int
  should_quit :: bool
  event_queue :: v2_queue
  current_sequence_number :: "64 word"
  current_now :: int
  is_greater_than_current_now :: bool
  v2_device :: 'b

record 'b v2_driver =
  drv_refresh :: "nanos \<Rightarrow> 'b v2_battery \<Rightarrow> 'b v2_battery"
  drv_set_current :: "int \<Rightarrow> bool \<Rightarrow> nat \<Rightarrow> 'b v2_battery \<Rightarrow> bool \<times> 'b v2_battery"
  drv_get_delay :: "int \<Rightarrow> int \<Rightarrow> nanos"

definition new_v2_battery :: "string \<Rightarrow> v2_type \<Rightarrow> int \<Rightarrow> 'b \<Rightarrow> 'b v2_battery" where
  "new_v2_battery name ty staleness dev =
    \<lparr>v2_name = name, v2_btype = ty, v2_bstatus = zero_status, refresh_mode = V2_LAZY,
     max_staleness = staleness, should_quit = False, event_queue = [], current_sequence_number = 0,
     current_now = 0, is_greater_than_current_now = False, v2_device = dev\<rparr>"

definition check_staleness_and_refresh :: "'b v2_driver \<Rightarrow> nanos \<Rightarrow> 'b v2_battery \<Rightarrow> bool \<times> 'b v2_battery" where
  "check_staleness_and_refresh drv now b =
    (if refresh_mode b \<noteq> V2_LAZY then (False, b)
     else if now - c_time_to_timepoint (v2_timestamp (v2_bstatus b)) \<ge> max_staleness b * 1000000
     then (True, drv_refresh drv now b)
     else (False, b))"

definition v2_get_status :: "'b v2_driver \<Rightarrow> nanos \<Rightarrow> 'b v2_battery \<Rightarrow> v2_status \<times> 'b v2_battery" where
  "v2_get_status drv now b =
    (case refresh_mode b of
       V2_ACTIVE \<Rightarrow> (v2_bstatus b, b)
     | V2_LAZY \<Rightarrow> (let (_, b') = check_staleness_and_refresh drv now b in (v2_bstatus b', b')))"

definition manual_refresh :: "'b v2_driver \<Rightarrow> nanos \<Rightarrow> 'b v2_battery \<Rightarrow> v2_status \<times> 'b v2_battery" where
  "manual_refresh drv now b = (let b' = drv_refresh drv now b in (v2_bstatus b', b'))"

definition set_max_staleness :: "int \<Rightarrow> 'b v2_battery \<Rightarrow> 'b v2_battery" where
  "set_max_staleness ms b = b\<lparr>max_staleness := ms\<rparr>"

definition next_sequence_number :: "'b v2_battery \<Rightarrow> 64 word \<times> 'b v2_battery" where
  "next_sequence_number b =
     (current_sequence_number b, b\<lparr>current_sequence_number := current_sequence_number b + 1\<rparr>)"

definition v2_set_status :: "v2_status \<Rightarrow> 'b v2_battery \<Rightarrow> 'b v2_battery" where
  "v2_set_status st b = b\<lparr>v2_bstatus := st\<rparr>"

definition v2_quit :: "'b v2_battery \<Rightarrow> 'b v2_battery" where
  "v2_quit b = b\<lparr>should_quit := True\<rparr>"

text \<open>The refresh events carry a fixed sequence number.\<close>

definition refresh_event :: "nanos \<Rightarrow> nanos \<Rightarrow> v2_event" where
  "refresh_event tp added =
    \<lparr>ev_timepoint = tp, ev_time_added = added, ev_sequence_number = 2147483647, ev_func = V2_REFRESH,
     ev_current_mA = 0, ev_is_greater_than = False, ev_other_data = 0\<rparr>"

definition start_background_refresh :: "nanos \<Rightarrow> nanos \<Rightarrow> 'b v2_battery \<Rightarrow> bool \<times> 'b v2_battery" where
  "start_background_refresh now added b =
    (if max_staleness b < 100 then (False, b)
     else (True, b\<lparr>refresh_mode := V2_ACTIVE,
       event_queue := q_insert (refresh_event (now + max_staleness b * 1000000) added) (event_queue b)\<rparr>))"

definition stop_background_refresh :: "'b v2_battery \<Rightarrow> bool \<times> 'b v2_battery" where
  "stop_background_refresh b =
    (if refresh_mode b = V2_ACTIVE then (True, b\<lparr>refresh_mode := V2_LAZY\<rparr>) else (False, b))"

section \<open>Scheduling\<close>

text \<open>The first preview: the current right before the interval, and the one to resume.\<close>

primrec preview_until :: "nanos \<Rightarrow> nanos \<Rightarrow> v2_queue \<Rightarrow> int \<times> int \<times> bool \<Rightarrow> int \<times> int \<times> bool" where
  "preview_until w u [] acc = acc"
| "preview_until w u (e # es) acc =
    (case acc of (before, up_mA, gt) \<Rightarrow>
       let before' = (if ev_timepoint e \<le> w then ev_current_mA e else before) in
       if ev_timepoint e > u then (before', up_mA, gt)
       else if ev_func e = V2_REFRESH then preview_until w u es (before', up_mA, gt)
       else preview_until w u es (before', ev_current_mA e, ev_is_greater_than e))"

text \<open>The second: the events to remove, and again the current to resume.\<close>

primrec find_overlapping ::
  "nanos \<Rightarrow> nanos \<Rightarrow> v2_queue \<Rightarrow> v2_event list \<times> int \<times> bool \<Rightarrow> v2_event list \<times> int \<times> bool" where
  "find_overlapping w u [] acc = acc"
| "find_overlapping w u (e # es) acc =
    (case acc of (rm, up_mA, gt) \<Rightarrow>
       if ev_func e = V2_REFRESH then find_overlapping w u es acc
       else if w \<le> ev_timepoint e \<and> ev_timepoint e \<le> u
       then find_overlapping w u es (rm @ [e], ev_current_mA e, ev_is_greater_than e)
       else if ev_timepoint e > u then acc
       else find_overlapping w u es (rm, ev_current_mA e, ev_is_greater_than e))"

definition set_event :: "nanos \<Rightarrow> nanos \<Rightarrow> 64 word \<Rightarrow> v2_function \<Rightarrow> int \<Rightarrow> bool \<Rightarrow> nat \<Rightarrow> v2_event" where
  "set_event tp added n f c gt other =
    \<lparr>ev_timepoint = tp, ev_time_added = added, ev_sequence_number = n, ev_func = f,
     ev_current_mA = c, ev_is_greater_than = gt, ev_other_data = other\<rparr>"

definition v2_schedule_set_current ::
  "'b v2_driver \<Rightarrow> (nat \<Rightarrow> nanos) \<Rightarrow> int \<Rightarrow> bool \<Rightarrow> nanos \<Rightarrow> nanos \<Rightarrow> 'b v2_battery \<Rightarrow> bool \<times> 'b v2_battery" where
  "v2_schedule_set_current drv clock target gt when_to_set until_when b =
    (if when_to_set < clock 0 then (False, b)
     else
       (let (before, resume, _) =
              preview_until when_to_set until_when (event_queue b)
                (current_now b, current_now b, is_greater_than_current_now b);
            w = when_to_set - drv_get_delay drv before target;
            u = until_when - drv_get_delay drv target resume;
            (rm, up_mA, up_gt) =
              find_overlapping w u (event_queue b) ([], current_now b, is_greater_than_current_now b);
            q1 = fold q_erase rm (event_queue b);
            (n1, b1) = next_sequence_number (b\<lparr>event_queue := q1\<rparr>);
            b2 = b1\<lparr>event_queue := q_insert (set_event w (clock 1) n1 V2_SET_CURRENT target gt 0) (event_queue b1)\<rparr>;
            (n2, b3) = next_sequence_number b2;
            b4 = b3\<lparr>event_queue :=
              q_insert (set_event u (clock 2) n2 V2_SET_CURRENT_END up_mA up_gt 0) (event_queue b3)\<rparr>
        in (True, b4)))"

section \<open>The background thread\<close>

text \<open>Taking the due events off the queue; the clock is read again after each.\<close>

record v2_drained =
  has_refresh :: bool
  has_cancel_event :: bool
  set_current_events :: "v2_event list"

definition note_event :: "v2_event \<Rightarrow> v2_drained \<Rightarrow> v2_drained" where
  "note_event top_ev d =
    (case ev_func top_ev of
       V2_REFRESH \<Rightarrow> d\<lparr>has_refresh := True\<rparr>
     | V2_SET_CURRENT_END \<Rightarrow> d\<lparr>set_current_events := set_current_events d @ [top_ev]\<rparr>
     | V2_SET_CURRENT \<Rightarrow> d\<lparr>set_current_events := set_current_events d @ [top_ev]\<rparr>
     | V2_CANCEL_EVENT \<Rightarrow> d\<lparr>has_cancel_event := True\<rparr>)"

primrec drain :: "v2_queue \<Rightarrow> (nat \<Rightarrow> nanos) \<Rightarrow> nat \<Rightarrow> v2_drained \<Rightarrow> v2_drained \<times> v2_queue \<times> nat" where
  "drain [] clock i d = (d, [], i)"
| "drain (top_ev # q) clock i d =
    (if ev_timepoint top_ev > clock i then (d, top_ev # q, i)
     else drain q clock (Suc i) (note_event top_ev d))"

definition execute_events :: "'b v2_driver \<Rightarrow> v2_drained \<Rightarrow> 'b v2_battery \<Rightarrow> 'b v2_battery" where
  "execute_events drv d b =
    (if v2_btype b = V2_BALSplitter then
       fold (\<lambda>e b. snd (drv_set_current drv (ev_current_mA e) (ev_is_greater_than e) (ev_other_data e) b))
         (set_current_events d) b
     else if \<not> has_cancel_event d \<and> set_current_events d \<noteq> [] then
       (let e = last (set_current_events d);
            (ok, b') = drv_set_current drv (ev_current_mA e) (ev_is_greater_than e) (ev_other_data e) b
        in if ok then b'\<lparr>current_now := ev_current_mA e, is_greater_than_current_now := ev_is_greater_than e\<rparr>
           else b')
     else b)"

definition background_round :: "'b v2_driver \<Rightarrow> (nat \<Rightarrow> nanos) \<Rightarrow> 'b v2_battery \<Rightarrow> 'b v2_battery" where
  "background_round drv clock b =
    (let (d, q, i) = drain (event_queue b) clock 0
           \<lparr>has_refresh = False, has_cancel_event = False, set_current_events = []\<rparr>;
         b1 = execute_events drv d (b\<lparr>event_queue := q\<rparr>)
     in if has_refresh d \<and> refresh_mode b1 = V2_ACTIVE then
          (let b2 = drv_refresh drv (clock (Suc i)) b1 in
           b2\<lparr>event_queue := q_insert
             (refresh_event (clock (Suc (Suc i)) + max_staleness b2 * 1000000) (clock (Suc (Suc (Suc i)))))
             (event_queue b2)\<rparr>)
        else b1)"

datatype 'b v2_turn = V2_quits | V2_waits | V2_runs "'b v2_battery"

definition background_func :: "'b v2_driver \<Rightarrow> nanos \<Rightarrow> (nat \<Rightarrow> nanos) \<Rightarrow> 'b v2_battery \<Rightarrow> 'b v2_turn" where
  "background_func drv now clock b =
    (if should_quit b then V2_quits
     else (case event_queue b of
       [] \<Rightarrow> V2_waits
     | top_ev # _ \<Rightarrow>
         if now \<ge> ev_timepoint top_ev then V2_runs (background_round drv clock b) else V2_waits))"

section \<open>Test batteries\<close>

text \<open>The drivers of \<open>TestBattery.hpp\<close>; both keep the default delay of zero.\<close>

definition stamp_now :: "nanos \<Rightarrow> 'b v2_battery \<Rightarrow> 'b v2_battery" where
  "stamp_now now b = b\<lparr>v2_bstatus := (v2_bstatus b)\<lparr>v2_timestamp :=
     get_system_time_c (Some (now div 1000000000, now mod 1000000000))\<rparr>\<rparr>"

definition new_NullBattery :: "string \<Rightarrow> int \<Rightarrow> int \<Rightarrow> unit v2_battery" where
  "new_NullBattery name voltage staleness =
    (let b = new_v2_battery name V2_Physical staleness () in
     b\<lparr>v2_bstatus := (v2_bstatus b)\<lparr>v2_voltage_mV := voltage, v2_current_mA := 0, v2_capacity_mAh := 0,
       v2_max_capacity_mAh := 0, v2_max_charging_current_mA := 0, v2_max_discharging_current_mA := 0\<rparr>\<rparr>)"

definition NullBattery_driver :: "unit v2_driver" where
  "NullBattery_driver =
    \<lparr>drv_refresh = stamp_now, drv_set_current = (\<lambda>c g k b. (True, b)), drv_get_delay = (\<lambda>_ _. 0)\<rparr>"

definition new_PseudoBattery_v2 :: "string \<Rightarrow> v2_status \<Rightarrow> int \<Rightarrow> unit v2_battery" where
  "new_PseudoBattery_v2 name st staleness =
     (new_v2_battery name V2_Physical staleness ())\<lparr>v2_bstatus := st\<rparr>"

definition PseudoBattery_set_current :: "int \<Rightarrow> bool \<Rightarrow> nat \<Rightarrow> unit v2_battery \<Rightarrow> bool \<times> unit v2_battery" where
  "PseudoBattery_set_current c g k b =
    (if \<not> (c \<ge> 0 \<and> c \<le> v2_max_discharging_current_mA (v2_bstatus b) \<or>
           c < 0 \<and> - c \<le> v2_max_charging_current_mA (v2_bstatus b))
     then (False, b)
     else (True, b\<lparr>v2_bstatus := (v2_bstatus b)\<lparr>v2_current_mA := c\<rparr>\<rparr>))"

definition PseudoBattery_driver :: "unit v2_driver" where
  "PseudoBattery_driver =
    \<lparr>drv_refresh = stamp_now, drv_set_current = PseudoBattery_set_current, drv_get_delay = (\<lambda>_ _. 0)\<rparr>"

section \<open>The order of events\<close>

lemma v2_function_num_inj [simp]: "v2_function_num f = v2_function_num g \<longleftrightarrow> f = g"
  by (cases f; cases g) simp_all

interpretation v2ev: std_order v2_event_less
  by unfold_locales (auto simp: v2_event_less_def split: if_splits)

lemma v2_event_greater_less: "v2_event_greater l r \<longleftrightarrow> v2_event_less r l"
  by (auto simp: v2_event_greater_def v2_event_less_def)

lemma v2_less_timepoint: "ev_timepoint l < ev_timepoint r \<Longrightarrow> v2_event_less l r"
  by (simp add: v2_event_less_def)

lemma v2_less_imp: "v2_event_less l r \<Longrightarrow> ev_timepoint l \<le> ev_timepoint r"
  by (auto simp: v2_event_less_def split: if_splits)

lemma v2_same: "\<not> v2_event_less l r \<Longrightarrow> \<not> v2_event_less r l \<Longrightarrow>
    ev_sequence_number l = ev_sequence_number r \<and> ev_func l = ev_func r \<and> ev_timepoint l = ev_timepoint r"
  by (auto simp: v2_event_less_def split: if_splits)

section \<open>The schedule as a profile of currents\<close>

text \<open>
  What the queue promises: at a time, the current of the last event, refreshes apart, that is not
  later, or the current of now when there is none.
\<close>

definition active :: "nanos \<Rightarrow> v2_event \<Rightarrow> bool" where
  "active t e \<longleftrightarrow> ev_func e \<noteq> V2_REFRESH \<and> ev_timepoint e \<le> t"

definition ev_value :: "v2_event \<Rightarrow> int \<times> bool" where
  "ev_value e = (ev_current_mA e, ev_is_greater_than e)"

definition last_by :: "(v2_event \<Rightarrow> 'v) \<Rightarrow> v2_event list \<Rightarrow> 'v \<Rightarrow> 'v" where
  "last_by f es v = (if es = [] then v else f (last es))"

abbreviation last_value :: "v2_event list \<Rightarrow> int \<times> bool \<Rightarrow> int \<times> bool" where
  "last_value \<equiv> last_by ev_value"

definition now_value :: "'b v2_battery \<Rightarrow> int \<times> bool" where
  "now_value b = (current_now b, is_greater_than_current_now b)"

definition profile :: "'b v2_battery \<Rightarrow> nanos \<Rightarrow> int \<times> bool" where
  "profile b t = last_value (filter (active t) (event_queue b)) (now_value b)"

definition v2_inv :: "'b v2_battery \<Rightarrow> bool" where
  "v2_inv b \<longleftrightarrow> sorted_wrt v2_event_less (event_queue b) \<and>
     (\<forall>e \<in> set (event_queue b). ev_func e \<noteq> V2_REFRESH \<longrightarrow>
        ev_sequence_number e < current_sequence_number b)"

lemma sorted_same_set:
  "sorted_wrt v2_event_less xs \<Longrightarrow> sorted_wrt v2_event_less ys \<Longrightarrow> set xs = set ys \<Longrightarrow> xs = ys"
proof (induction xs arbitrary: ys)
  case (Cons x xs)
  then obtain y ys' where ys: "ys = y # ys'" by (cases ys) auto
  have "x = y"
  proof (rule ccontr)
    assume "x \<noteq> y"
    with Cons.prems ys have "x \<in> set ys'" "y \<in> set xs" by auto
    with Cons.prems ys have "v2_event_less y x" "v2_event_less x y" by auto
    then show False using v2ev.asym by blast
  qed
  moreover have "x \<notin> set xs" "y \<notin> set ys'"
    using Cons.prems(1,2) ys v2ev.irrefl by auto
  ultimately have "set xs = set ys'" using Cons.prems(3) ys by auto
  with Cons \<open>x = y\<close> ys show ?case by auto
qed simp

lemma filter_eqI:
  assumes "sorted_wrt v2_event_less q" and "sorted_wrt v2_event_less es"
    and "\<And>e. e \<in> set es \<longleftrightarrow> e \<in> set q \<and> P e"
  shows "filter P q = es"
  by (rule sorted_same_set) (use assms in \<open>auto simp: filter_sorted_wrt\<close>)

lemma find_overlapping_spec:
  assumes "sorted_wrt v2_event_less q"
  shows "find_overlapping w u q (rm, v) =
     (rm @ filter (\<lambda>e. active u e \<and> w \<le> ev_timepoint e) q, last_value (filter (active u) q) v)"
  using assms
proof (induction q arbitrary: rm v)
  case Nil
  then show ?case by (simp add: last_by_def)
next
  case (Cons e q)
  obtain c g where v: "v = (c, g)" by fastforce
  show ?case
  proof (cases "ev_func e \<noteq> V2_REFRESH \<and> ev_timepoint e > u")
    case True
    then have "\<forall>e' \<in> set (e # q). \<not> active u e'"
      using Cons.prems v2_less_imp by (fastforce simp: active_def)
    then have "filter (active u) (e # q) = []" "filter (\<lambda>e. active u e \<and> w \<le> ev_timepoint e) (e # q) = []"
      by (auto simp: filter_empty_conv)
    with True show ?thesis by (simp add: last_by_def v del: filter.simps)
  next
    case False
    have "last_value (filter (active u) q) (ev_value e) = last_value (filter (active u) (e # q)) v"
      if "active u e" using that by (simp add: last_by_def)
    with False Cons.IH Cons.prems show ?thesis
      by (auto simp: v active_def ev_value_def last_by_def)
  qed
qed

lemma fold_q_erase:
  "fold q_erase rm q = filter (\<lambda>e. \<forall>r \<in> set rm. v2_event_less r e \<or> v2_event_less e r) q"
  by (induction rm arbitrary: q) (auto simp: set_erase_def intro!: filter_cong)

lemma erase_members:
  assumes "sorted_wrt v2_event_less q" and "set rm \<subseteq> set q"
  shows "set (fold q_erase rm q) = set q - set rm" and "sorted_wrt v2_event_less (fold q_erase rm q)"
proof -
  have "v2_event_less r e \<or> v2_event_less e r" if "r \<in> set rm" "e \<in> set q" "e \<notin> set rm" for r e
    using v2ev.sorted_unique [OF assms(1), of r e] that assms(2) by auto
  then show "set (fold q_erase rm q) = set q - set rm"
    using v2ev.irrefl by (auto simp: fold_q_erase)
  show "sorted_wrt v2_event_less (fold q_erase rm q)"
    using assms(1) by (simp add: fold_q_erase filter_sorted_wrt)
qed

text \<open>Replacing the events of an interval by one that starts and one that ends it.\<close>

lemma interval_insert:
  fixes q rm :: v2_queue and w u a1 a2 :: nanos and n1 n2 :: "64 word" and target c :: int and gt g :: bool
    and k :: nat
  defines "bg \<equiv> set_event w a1 n1 V2_SET_CURRENT target gt k"
    and "en \<equiv> set_event u a2 n2 V2_SET_CURRENT_END c g k"
  defines "q' \<equiv> q_insert en (q_insert bg (fold q_erase rm q))"
  assumes q: "sorted_wrt v2_event_less q" and rm: "set rm \<subseteq> set q" and "w < u"
    and fresh: "\<forall>e \<in> set q. ev_func e \<noteq> V2_REFRESH \<longrightarrow>
                  ev_sequence_number e \<noteq> n1 \<and> ev_sequence_number e \<noteq> n2"
  shows "sorted_wrt v2_event_less q'" and "set q' = set q - set rm \<union> {bg, en}"
proof -
  let ?q1 = "fold q_erase rm q"
  note q1 = erase_members [OF q rm]
  have fresh_q1: "\<forall>e \<in> set ?q1. v2_event_less bg e \<or> v2_event_less e bg"
      "\<forall>e \<in> set ?q1. v2_event_less en e \<or> v2_event_less e en"
    using fresh v2_same [of bg] v2_same [of en] q1(1) by (fastforce simp: bg_def en_def set_event_def)+
  have "v2_event_less bg en" using \<open>w < u\<close> by (simp add: bg_def en_def set_event_def v2_less_timepoint)
  have q2: "sorted_wrt v2_event_less (q_insert bg ?q1)" "set (q_insert bg ?q1) = insert bg (set ?q1)"
    using v2ev.sorted_set_insert [OF q1(2)] v2ev.set_insert_fresh [OF q1(2)] fresh_q1(1) by auto
  show "sorted_wrt v2_event_less q'"
    using v2ev.sorted_set_insert [OF q2(1)] by (simp add: q'_def)
  have "set q' = insert en (insert bg (set ?q1))"
    unfolding q'_def using v2ev.set_insert_fresh [OF q2(1), of en] fresh_q1(2) q2(2) \<open>v2_event_less bg en\<close>
    by auto
  then show "set q' = set q - set rm \<union> {bg, en}" using q1(1) by auto
qed

lemma interval_profile:
  assumes q: "sorted_wrt v2_event_less q" and q': "sorted_wrt v2_event_less q'" and "w < u"
    and set_q': "set q' = set q - {e. active u e \<and> w \<le> ev_timepoint e} \<union> {bg, en}"
    and bg: "ev_func bg \<noteq> V2_REFRESH" "ev_timepoint bg = w" "f bg = target"
    and en: "ev_func en \<noteq> V2_REFRESH" "ev_timepoint en = u" "f en = last_by f (filter (active u) q) v"
  shows "last_by f (filter (active t) q') v =
           (if w \<le> t \<and> t < u then target else last_by f (filter (active t) q) v)"
proof -
  let ?F = "filter (\<lambda>e. active t e \<and> ev_timepoint e < w) q"
  let ?G = "filter (\<lambda>e. active t e \<and> u < ev_timepoint e) q"
  have sorted_append: "sorted_wrt v2_event_less (?F @ es @ ?G)"
    if "sorted_wrt v2_event_less es" "\<forall>e \<in> set es. w \<le> ev_timepoint e \<and> ev_timepoint e \<le> u" for es
    using that q \<open>w < u\<close> by (fastforce simp: sorted_wrt_append filter_sorted_wrt intro: v2_less_timepoint)
  have mem: "e \<in> set q' \<longleftrightarrow> e \<in> set q \<and> \<not> (active u e \<and> w \<le> ev_timepoint e) \<or> e = bg \<or> e = en" for e
    using set_q' by auto
  have be: "v2_event_less bg en" using bg en \<open>w < u\<close> by (simp add: v2_less_timepoint)
  consider "t < w" | "w \<le> t" "t < u" | "u \<le> t" by linarith
  then show ?thesis
  proof cases
    case 1
    then have "filter (active t) q' = filter (active t) q"
      using bg en \<open>w < u\<close>
      by (intro filter_eqI [OF q' filter_sorted_wrt [OF q]]) (auto simp: mem active_def)
    with 1 show ?thesis by simp
  next
    case 2
    then have "filter (active t) q' = ?F @ [bg] @ ?G"
      using bg en \<open>w < u\<close> by (intro filter_eqI [OF q'] sorted_append) (auto simp: mem active_def)
    moreover have "?G = []" using 2 by (auto simp: active_def filter_empty_conv)
    ultimately show ?thesis using 2 bg by (simp add: last_by_def)
  next
    case 3
    then have new: "filter (active t) q' = ?F @ [bg, en] @ ?G"
      using bg en be \<open>w < u\<close> by (intro filter_eqI [OF q'] sorted_append) (auto simp: mem active_def)
    have old: "filter (active t) q = ?F @ filter (\<lambda>e. active u e \<and> w \<le> ev_timepoint e) q @ ?G"
      using 3 by (intro filter_eqI [OF q] sorted_append filter_sorted_wrt [OF q]) (auto simp: active_def)
    show ?thesis
    proof (cases "?G = []")
      case True
      then have "filter (active u) q = filter (active t) q"
        using 3 by (intro filter_cong) (auto simp: active_def filter_empty_conv)
      with True 3 new en show ?thesis by (simp add: last_by_def)
    next
      case False
      with 3 new old show ?thesis by (simp add: last_by_def)
    qed
  qed
qed

definition delayed_interval :: "'b v2_driver \<Rightarrow> int \<Rightarrow> nanos \<Rightarrow> nanos \<Rightarrow> 'b v2_battery \<Rightarrow> nanos \<times> nanos" where
  "delayed_interval drv target w u b =
    (let (before, resume, _) = preview_until w u (event_queue b) (current_now b, now_value b)
     in (w - drv_get_delay drv before target, u - drv_get_delay drv target resume))"

lemma v2_schedule_assigns:
  fixes b :: "'b v2_battery"
  assumes "v2_inv b" and "clock 0 \<le> when_to_set"
    and "delayed_interval drv target when_to_set until_when b = (w, u)" and "w < u"
    and "unat (current_sequence_number b) + 2 < 2 ^ 64"
  shows "\<exists>b'. v2_schedule_set_current drv clock target gt when_to_set until_when b = (True, b') \<and>
           v2_inv b' \<and>
           (\<forall>t. profile b' t = (if w \<le> t \<and> t < u then (target, gt) else profile b t))"
proof -
  define q where "q = event_queue b"
  define n where "n = current_sequence_number b"
  define v where "v = last_value (filter (active u) q) (now_value b)"
  define bg where "bg = set_event w (clock 1) n V2_SET_CURRENT target gt 0"
  define en where "en = set_event u (clock 2) (n + 1) V2_SET_CURRENT_END (fst v) (snd v) 0"
  define rm where "rm = filter (\<lambda>e. active u e \<and> w \<le> ev_timepoint e) q"
  define q' where "q' = q_insert en (q_insert bg (fold q_erase rm q))"
  have q: "sorted_wrt v2_event_less q" and seq: "\<forall>e \<in> set q. ev_func e \<noteq> V2_REFRESH \<longrightarrow> ev_sequence_number e < n"
    using assms(1) by (auto simp: v2_inv_def q_def n_def)
  have n: "n < n + 1" "n < n + 2" "n + 1 < n + 2"
    using assms(5) by (simp_all add: n_def word_less_nat_alt unat_word_ariths)
  obtain before resume g where pv: "preview_until when_to_set until_when q (current_now b, now_value b) =
      (before, resume, g)" and wu: "w = when_to_set - drv_get_delay drv before target"
      "u = until_when - drv_get_delay drv target resume"
    using assms(3) by (auto simp: delayed_interval_def q_def split: prod.splits)
  have run: "v2_schedule_set_current drv clock target gt when_to_set until_when b =
      (True, b\<lparr>event_queue := q', current_sequence_number := n + 2\<rparr>)"
    using assms(2) pv find_overlapping_spec [OF q, of w u "[]" "now_value b"]
    by (auto simp: v2_schedule_set_current_def next_sequence_number_def Let_def now_value_def
        q_def q'_def rm_def bg_def en_def v_def n_def wu case_prod_beta)
  have fresh: "\<forall>e \<in> set q. ev_func e \<noteq> V2_REFRESH \<longrightarrow>
      ev_sequence_number e \<noteq> n \<and> ev_sequence_number e \<noteq> n + 1"
    using seq n by auto
  have rm: "set rm \<subseteq> set q" by (auto simp: rm_def)
  note ins = interval_insert [OF q rm assms(4) fresh, where ?a1.0 = "clock 1" and target = target and gt = gt
      and k = 0 and ?a2.0 = "clock 2" and c = "fst v" and g = "snd v", folded bg_def en_def, folded q'_def]
  have prof: "last_value (filter (active t) q') (now_value b) =
      (if w \<le> t \<and> t < u then (target, gt) else last_value (filter (active t) q) (now_value b))" for t
    using ins by (intro interval_profile [OF q ins(1) assms(4), where bg = bg and en = en])
      (auto simp: rm_def bg_def en_def set_event_def ev_value_def v_def)
  have "v2_inv (b\<lparr>event_queue := q', current_sequence_number := n + 2\<rparr>)"
    using ins seq n by (auto simp: v2_inv_def bg_def en_def set_event_def intro: less_trans)
  with run prof show ?thesis
    by (auto simp: profile_def now_value_def q_def)
qed

text \<open>
  C23: a request that is not in the past is accepted and implements the assignment of its current to
  its interval: with the interval moved by the delays the driver declares, the profile of currents
  the queue promises is the requested current inside the interval and what it was outside, and the
  queue stays in order.
\<close>

theorem v2_schedule_assigns_interval:
  fixes b :: "'b v2_battery"
  assumes "v2_inv b" and "clock 0 \<le> when_to_set"
    and "delayed_interval drv target when_to_set until_when b = (w, u)" and "w < u"
    and "unat (current_sequence_number b) + 2 < 2 ^ 64"
  shows "\<exists>b'. v2_schedule_set_current drv clock target gt when_to_set until_when b = (True, b') \<and>
           v2_inv b' \<and>
           (\<forall>t. profile b' t = (if w \<le> t \<and> t < u then (target, gt) else profile b t))"
  using assms by (rule v2_schedule_assigns)

theorem v2_schedule_assigns_interval_witness:
  "\<exists>b'. v2_schedule_set_current PseudoBattery_driver (\<lambda>i. int i) 30 True 5 9
            (new_PseudoBattery_v2 ''p'' zero_status 1000) = (True, b') \<and> v2_inv b' \<and>
     (\<forall>t. profile b' t = (if 5 \<le> t \<and> t < 9 then (30, True)
                          else profile (new_PseudoBattery_v2 ''p'' zero_status 1000) t))"
  by (rule v2_schedule_assigns_interval)
     (simp_all add: v2_inv_def new_PseudoBattery_v2_def new_v2_battery_def delayed_interval_def
        PseudoBattery_driver_def now_value_def)

text \<open>A driver whose two functions leave the queue and the bookkeeping of the interface alone.\<close>

definition same_frame :: "'b v2_battery \<Rightarrow> 'b v2_battery \<Rightarrow> bool" where
  "same_frame b b' \<longleftrightarrow> event_queue b' = event_queue b \<and> now_value b' = now_value b \<and>
     current_sequence_number b' = current_sequence_number b"

definition quiet_driver :: "'b v2_driver \<Rightarrow> bool" where
  "quiet_driver drv \<longleftrightarrow> (\<forall>t b. same_frame b (drv_refresh drv t b)) \<and>
     (\<forall>c g k b. same_frame b (snd (drv_set_current drv c g k b)))"

lemma refresh_insert_active:
  assumes "sorted_wrt v2_event_less q"
  shows "filter (active t) (q_insert (refresh_event tp added) q) = filter (active t) q"
  using v2ev.sorted_set_insert [OF assms] assms
  by (intro filter_eqI filter_sorted_wrt)
     (auto simp: v2ev.mem_set_insert [OF assms] active_def refresh_event_def)

lemma refresh_insert_inv:
  assumes "v2_inv b"
  shows "v2_inv (b\<lparr>event_queue := q_insert (refresh_event tp added) (event_queue b)\<rparr>)"
  using assms v2ev.sorted_set_insert
  by (auto simp: v2_inv_def v2ev.mem_set_insert refresh_event_def)

lemma refresh_insert_profile:
  assumes "v2_inv b"
  shows "profile (b\<lparr>event_queue := q_insert (refresh_event tp added) (event_queue b)\<rparr>) t = profile b t"
  using assms by (simp add: profile_def now_value_def v2_inv_def refresh_insert_active)

lemma same_frame_inv: "same_frame b b' \<Longrightarrow> v2_inv b' = v2_inv b"
  by (simp add: same_frame_def v2_inv_def)

lemma same_frame_profile: "same_frame b b' \<Longrightarrow> profile b' t = profile b t"
  by (simp add: same_frame_def profile_def)

lemma drain_spec:
  assumes "mono clock" and "drain q clock i d = (d', rest, j)"
  shows "\<exists>taken. q = taken @ rest \<and> i \<le> j \<and> (\<forall>e \<in> set taken. ev_timepoint e \<le> clock j) \<and>
           (\<forall>e es. rest = e # es \<longrightarrow> clock j < ev_timepoint e) \<and>
           set_current_events d' =
             set_current_events d @ filter (\<lambda>e. ev_func e \<in> {V2_SET_CURRENT_END, V2_SET_CURRENT}) taken \<and>
           (has_cancel_event d' \<longleftrightarrow> has_cancel_event d \<or> (\<exists>e \<in> set taken. ev_func e = V2_CANCEL_EVENT))"
  using assms(2)
proof (induction q arbitrary: i d)
  case (Cons e q)
  show ?case
  proof (cases "ev_timepoint e > clock i")
    case True
    with Cons.prems show ?thesis by auto
  next
    case False
    with Cons.prems have "drain q clock (Suc i) (note_event e d) = (d', rest, j)" by simp
    then obtain taken where t: "q = taken @ rest" "Suc i \<le> j" "\<forall>e \<in> set taken. ev_timepoint e \<le> clock j"
        "\<forall>e es. rest = e # es \<longrightarrow> clock j < ev_timepoint e"
        "set_current_events d' = set_current_events (note_event e d) @
           filter (\<lambda>e. ev_func e \<in> {V2_SET_CURRENT_END, V2_SET_CURRENT}) taken"
        "has_cancel_event d' \<longleftrightarrow> has_cancel_event (note_event e d) \<or>
           (\<exists>e \<in> set taken. ev_func e = V2_CANCEL_EVENT)"
      using Cons.IH by blast
    have "ev_timepoint e \<le> clock j"
      using False monoD [OF assms(1), of i j] t(2) by simp
    with t show ?thesis
      by (intro exI [of _ "e # taken"]) (auto simp: note_event_def split: v2_function.splits)
  qed
qed auto

lemma execute_quiet:
  assumes "quiet_driver drv" and "v2_btype b \<noteq> V2_BALSplitter"
    and "\<forall>c g k b. fst (drv_set_current drv c g k b)"
    and "\<not> has_cancel_event d" and "set_current_events d = es"
  shows "event_queue (execute_events drv d (b\<lparr>event_queue := rest\<rparr>)) = rest \<and>
    current_sequence_number (execute_events drv d (b\<lparr>event_queue := rest\<rparr>)) = current_sequence_number b \<and>
    now_value (execute_events drv d (b\<lparr>event_queue := rest\<rparr>)) = last_value es (now_value b)"
proof (cases "es = []")
  case True
  with assms show ?thesis by (simp add: execute_events_def last_by_def now_value_def)
next
  case False
  let ?b = "b\<lparr>event_queue := rest\<rparr>" and ?e = "last es"
  obtain ok b' where run: "drv_set_current drv (ev_current_mA ?e) (ev_is_greater_than ?e) (ev_other_data ?e) ?b = (ok, b')"
    by fastforce
  have "ok" using assms(3) run by (metis fst_conv)
  moreover have "same_frame ?b b'" using assms(1) run by (metis quiet_driver_def snd_conv)
  ultimately show ?thesis
    using assms run False
    by (simp add: execute_events_def last_by_def now_value_def ev_value_def same_frame_def Let_def)
qed

lemma round_refresh:
  fixes t tp added :: nanos
  assumes "quiet_driver drv" and "v2_inv b"
  defines "b' \<equiv> drv_refresh drv t b"
  shows "v2_inv (b'\<lparr>event_queue := q_insert (refresh_event tp added) (event_queue b')\<rparr>) \<and>
    now_value (b'\<lparr>event_queue := q_insert (refresh_event tp added) (event_queue b')\<rparr>) = now_value b \<and>
    (\<forall>s. profile (b'\<lparr>event_queue := q_insert (refresh_event tp added) (event_queue b')\<rparr>) s = profile b s) \<and>
    (\<forall>e \<in> set (q_insert (refresh_event tp added) (event_queue b')). e \<in> set (event_queue b) \<or> ev_func e = V2_REFRESH)"
proof -
  have frame: "same_frame b b'" using assms(1) by (simp add: quiet_driver_def b'_def)
  have "v2_inv b'" "now_value b' = now_value b" "event_queue b' = event_queue b" "\<forall>s. profile b' s = profile b s"
    using assms(2) same_frame_inv [OF frame] same_frame_profile [OF frame] frame
    by (auto simp: same_frame_def)
  then show ?thesis
    using refresh_insert_inv [of b' tp added] refresh_insert_profile [of b' tp added]
      v2ev.set_insert_subset [of "refresh_event tp added" "event_queue b"]
    by (auto simp: now_value_def refresh_event_def)
qed

text \<open>
  C24: a round of the background thread follows the schedule: if the device accepts the currents, the
  battery's current after the round is the one the queue promised for the time the round ended at,
  what is promised for later times stays, and everything due has left the queue.
\<close>

theorem v2_round_follows_profile:
  fixes b :: "'b v2_battery"
  assumes "v2_inv b" and "mono clock" and "quiet_driver drv"
    and "v2_btype b \<noteq> V2_BALSplitter"
    and "\<forall>e \<in> set (event_queue b). ev_func e \<noteq> V2_CANCEL_EVENT"
    and "\<forall>c g k b. fst (drv_set_current drv c g k b)"
  shows "\<exists>i. v2_inv (background_round drv clock b) \<and>
           now_value (background_round drv clock b) = profile b (clock i) \<and>
           (\<forall>t \<ge> clock i. profile (background_round drv clock b) t = profile b t) \<and>
           (\<forall>e \<in> set (event_queue (background_round drv clock b)).
              e \<in> set (event_queue b) \<longrightarrow> ev_func e \<noteq> V2_REFRESH \<longrightarrow> clock i < ev_timepoint e)"
proof -
  let ?d0 = "\<lparr>has_refresh = False, has_cancel_event = False, set_current_events = []\<rparr>"
  define q where "q = event_queue b"
  obtain d rest j where dr: "drain q clock 0 ?d0 = (d, rest, j)" by (metis prod_cases3)
  obtain taken where t: "q = taken @ rest" "\<forall>e \<in> set taken. ev_timepoint e \<le> clock j"
      "\<forall>e es. rest = e # es \<longrightarrow> clock j < ev_timepoint e"
      "set_current_events d = filter (\<lambda>e. ev_func e \<in> {V2_SET_CURRENT_END, V2_SET_CURRENT}) taken"
      "has_cancel_event d \<longleftrightarrow> (\<exists>e \<in> set taken. ev_func e = V2_CANCEL_EVENT)"
    using drain_spec [OF assms(2) dr] by auto
  have q: "sorted_wrt v2_event_less q" using assms(1) by (simp add: v2_inv_def q_def)
  have sorted_rest: "sorted_wrt v2_event_less rest" using q t(1) by (simp add: sorted_wrt_append)
  have rest: "clock j < ev_timepoint e" if "e \<in> set rest" for e
  proof (cases rest)
    case (Cons e0 es)
    then have "clock j < ev_timepoint e0" using t(3) by simp
    moreover have "e = e0 \<or> v2_event_less e0 e" using that sorted_rest Cons by auto
    ultimately show ?thesis using v2_less_imp by fastforce
  qed (use that in simp)
  have act: "ev_func e \<in> {V2_SET_CURRENT_END, V2_SET_CURRENT} \<longleftrightarrow> active s e"
    if "clock j \<le> s" "e \<in> set taken" for s e
  proof -
    have "ev_timepoint e \<le> s" "ev_func e \<noteq> V2_CANCEL_EVENT"
      using that t(1,2) assms(5) by (force simp: q_def)+
    then show ?thesis by (cases "ev_func e") (simp_all add: active_def)
  qed
  define b1 where "b1 = execute_events drv d (b\<lparr>event_queue := rest\<rparr>)"
  have events: "set_current_events d = filter (active s) taken" if "clock j \<le> s" for s
    unfolding t(4) using act [OF that] by (intro filter_cong) simp_all
  have no_cancel: "\<not> has_cancel_event d" using t(1,5) assms(5) by (auto simp: q_def)
  have frame: "event_queue b1 = rest \<and> current_sequence_number b1 = current_sequence_number b \<and>
      now_value b1 = last_value (filter (active (clock j)) taken) (now_value b)"
    unfolding b1_def by (rule execute_quiet) (use assms(3,4,6) no_cancel events [of "clock j"] in simp_all)
  have inv1: "v2_inv b1"
    using assms(1) frame sorted_rest t(1) by (simp add: v2_inv_def q_def)
  have prof1: "profile b1 s = profile b s" if "clock j \<le> s" for s
  proof -
    have "filter (active s) taken = filter (active (clock j)) taken"
      using events [OF that] events [of "clock j"] by simp
    then show ?thesis
      using frame t(1) by (auto simp: profile_def q_def [symmetric] last_by_def)
  qed
  have now1: "now_value b1 = profile b (clock j)"
  proof -
    have "filter (active (clock j)) rest = []"
      using rest by (fastforce simp: filter_empty_conv active_def)
    then show ?thesis using frame t(1) by (simp add: profile_def q_def [symmetric])
  qed
  define r where "r = background_round drv clock b"
  have "v2_inv r \<and> now_value r = now_value b1 \<and> (\<forall>s. profile r s = profile b1 s) \<and>
      (\<forall>e \<in> set (event_queue r). e \<in> set (event_queue b1) \<or> ev_func e = V2_REFRESH)"
    unfolding r_def background_round_def q_def [symmetric] dr
    using round_refresh [OF assms(3) inv1] inv1 by (simp add: b1_def [symmetric] Let_def)
  with prof1 now1 frame rest show ?thesis
    unfolding r_def [symmetric] by (intro exI [of _ j]) auto
qed

lemma quiet_test_drivers: "quiet_driver NullBattery_driver" "quiet_driver PseudoBattery_driver"
  by (simp_all add: quiet_driver_def same_frame_def now_value_def NullBattery_driver_def
      PseudoBattery_driver_def stamp_now_def PseudoBattery_set_current_def)

definition busy_null_battery :: "unit v2_battery" where
  "busy_null_battery = (new_NullBattery ''n'' 5 1000)\<lparr>event_queue :=
     [set_event 2 0 0 V2_SET_CURRENT 40 True 0, set_event 8 0 1 V2_SET_CURRENT_END 0 False 0],
     current_sequence_number := 2\<rparr>"

lemma busy_null_battery_ok: "v2_inv busy_null_battery" "v2_btype busy_null_battery \<noteq> V2_BALSplitter"
  "\<forall>e \<in> set (event_queue busy_null_battery). ev_func e \<noteq> V2_CANCEL_EVENT"
  "\<forall>c g k b. fst (drv_set_current NullBattery_driver c g k b)"
  by (simp_all add: v2_inv_def busy_null_battery_def new_NullBattery_def new_v2_battery_def set_event_def
      v2_event_less_def NullBattery_driver_def Let_def)

theorem v2_round_follows_profile_witness:
  "v2_inv (background_round NullBattery_driver (\<lambda>i. 5) busy_null_battery) \<and>
   now_value (background_round NullBattery_driver (\<lambda>i. 5) busy_null_battery) = profile busy_null_battery 5"
  using v2_round_follows_profile [of busy_null_battery "\<lambda>i. 5" NullBattery_driver,
      OF busy_null_battery_ok(1) _ quiet_test_drivers(1) busy_null_battery_ok(2-4)]
  by (auto simp: mono_def)

end
