(* ===== verification/V2_Directory.thy ===== *)
theory V2_Directory
  imports V2_Battery V3_Directory
begin

text \<open>
  The battery graph of BatteryOS-V2 (\<open>BOSDirectory.hpp\<close>): the owner of the batteries and the two
  maps from a name to its parents and to its children. Batteries are never removed, so a
  \<open>Battery*\<close> of the directory is written as the name it is stored under.
\<close>

section \<open>Operations\<close>

record 'b v2_directory =
  name_storage_map :: "(string \<times> 'b v2_battery) list"
  parent_map :: graph
  children_map :: graph
  quitted :: bool

definition new_BOSDirectory :: "'b v2_directory" where
  "new_BOSDirectory = \<lparr>name_storage_map = [], parent_map = [], children_map = [], quitted = False\<rparr>"

definition v2_dir_quit :: "'b v2_directory \<Rightarrow> 'b v2_directory" where
  "v2_dir_quit d =
    (if quitted d then d
     else d\<lparr>name_storage_map := map (\<lambda>(n, b). (n, v2_quit b)) (name_storage_map d), quitted := True\<rparr>)"

definition get_name_list :: "'b v2_directory \<Rightarrow> string list" where
  "get_name_list d = map fst (parent_map d)"

definition add_battery :: "'b v2_battery \<Rightarrow> 'b v2_directory \<Rightarrow> string option \<times> 'b v2_directory" where
  "add_battery b d =
    (let name = v2_name b in
     if has_key name (name_storage_map d) then (None, d)
     else (Some name,
       d\<lparr>name_storage_map := map_insert (<) name b (name_storage_map d),
         parent_map := map_insert (<) name [] (parent_map d),
         children_map := map_insert (<) name [] (children_map d)\<rparr>))"

text \<open>The first statement of \<open>remove_battery\<close> ends the process.\<close>

definition remove_battery :: "string \<Rightarrow> 'b v2_directory \<Rightarrow> (int \<times> 'b v2_directory) outcome" where
  "remove_battery name d = Inl Process_exit"

definition get_children :: "string \<Rightarrow> 'b v2_directory \<Rightarrow> string list" where
  "get_children name d = (case map_of (children_map d) name of None \<Rightarrow> [] | Some l \<Rightarrow> l)"

definition get_parents :: "string \<Rightarrow> 'b v2_directory \<Rightarrow> string list" where
  "get_parents name d = (case map_of (parent_map d) name of None \<Rightarrow> [] | Some l \<Rightarrow> l)"

text \<open>The mutexes that \<open>add_edge\<close> takes depend on the kind of the two batteries; \<open>V2_Factory\<close> has them.\<close>

definition add_edge :: "string \<Rightarrow> string \<Rightarrow> 'b v2_directory \<Rightarrow> bool \<times> 'b v2_directory" where
  "add_edge from_name to_name d =
    (if \<not> has_key from_name (name_storage_map d) then (False, d)
     else if \<not> has_key to_name (name_storage_map d) then (False, d)
     else (True,
       d\<lparr>children_map := map_update from_name (\<lambda>l. l @ [to_name]) (graph_index from_name (children_map d)),
         parent_map := map_update to_name (\<lambda>l. l @ [from_name]) (graph_index to_name (parent_map d))\<rparr>))"

definition get_battery :: "string \<Rightarrow> 'b v2_directory \<Rightarrow> 'b v2_battery option" where
  "get_battery name d = map_of (name_storage_map d) name"

definition name_exists :: "string \<Rightarrow> 'b v2_directory \<Rightarrow> bool" where
  "name_exists name d = has_key name (name_storage_map d)"

definition get_names :: "'b v2_directory \<Rightarrow> string list" where
  "get_names d = map fst (name_storage_map d)"

section \<open>The graph stays consistent\<close>

inductive dir_step :: "'b v2_directory \<Rightarrow> 'b v2_directory \<Rightarrow> bool" where
  step_add: "dir_step d (snd (add_battery b d))"
| step_edge: "dir_step d (snd (add_edge p c d))"
| step_quit: "dir_step d (v2_dir_quit d)"

inductive dir_reachable :: "'b v2_directory \<Rightarrow> bool" where
  reach_new: "dir_reachable new_BOSDirectory"
| reach_step: "dir_reachable d \<Longrightarrow> dir_step d d' \<Longrightarrow> dir_reachable d'"

definition v2_dir_inv :: "'b v2_directory \<Rightarrow> bool" where
  "v2_dir_inv d \<longleftrightarrow>
     str.wf_map (name_storage_map d) \<and> str.wf_map (parent_map d) \<and> str.wf_map (children_map d) \<and>
     (\<forall>k. has_key k (parent_map d) = has_key k (name_storage_map d)) \<and>
     (\<forall>k. has_key k (children_map d) = has_key k (name_storage_map d)) \<and>
     (\<forall>k b. get_battery k d = Some b \<longrightarrow> v2_name b = k) \<and>
     (\<forall>p c. count_list (get_children p d) c = count_list (get_parents c d) p) \<and>
     (\<forall>p c. c \<in> set (get_children p d) \<longrightarrow> name_exists p d \<and> name_exists c d)"

lemma neighbours_insert:
  "str.wf_map g \<Longrightarrow> neighbours (map_insert (<) k [] g) x = neighbours g x"
  by (simp add: neighbours_def str.map_of_insert split: option.splits)

lemma neighbours_link:
  "str.wf_map g \<Longrightarrow> neighbours (map_update k (\<lambda>l. l @ [y]) (graph_index k g)) x =
     (if x = k then neighbours g k @ [y] else neighbours g x)"
  by (auto simp: neighbours_def map_of_map_update map_of_graph_index split: option.splits)

lemma has_key_insert: "str.wf_map m \<Longrightarrow> has_key x (map_insert (<) k v m) \<longleftrightarrow> x = k \<or> has_key x m"
  by (auto simp: has_key_def str.map_of_insert split: option.splits)

lemma has_key_link:
  "str.wf_map g \<Longrightarrow> has_key x (map_update k f (graph_index k g)) \<longleftrightarrow> x = k \<or> has_key x g"
  by (auto simp: has_key_def map_of_map_update map_of_graph_index split: option.splits)

lemma get_neighbours:
  "get_children p d = neighbours (children_map d) p" "get_parents c d = neighbours (parent_map d) c"
  by (simp_all add: get_children_def get_parents_def neighbours_def)

lemma map_of_quit:
  "map_of (map (\<lambda>(n, b). (n, v2_quit b)) m) k = map_option v2_quit (map_of m k)"
  by (induction m) auto

lemma v2_name_quit [simp]: "v2_name (v2_quit b) = v2_name b"
  by (simp add: v2_quit_def)

lemma has_key_quit: "has_key k (map (\<lambda>(n, b). (n, v2_quit b)) m) = has_key k m"
  by (simp add: has_key_def map_of_quit)

lemma keys_quit: "map fst (map (\<lambda>(n, b). (n, v2_quit b)) m) = map fst m"
  by (induction m) auto

lemma dir_step_inv:
  assumes "dir_step d d'" and "v2_dir_inv d"
  shows "v2_dir_inv d'"
  using assms
proof cases
  case (step_add b)
  then show ?thesis
    using assms(2) by (auto simp: v2_dir_inv_def add_battery_def Let_def str.wf_map_insert has_key_insert
        get_neighbours neighbours_insert get_battery_def name_exists_def str.map_of_insert
        split: option.splits if_splits)
next
  case (step_edge p c)
  then show ?thesis
    using assms(2) by (auto simp: v2_dir_inv_def add_edge_def wf_graph_index has_key_link
        get_neighbours neighbours_link get_battery_def name_exists_def split: if_splits)
next
  case step_quit
  with assms(2) show ?thesis
    by (auto simp: v2_dir_inv_def v2_dir_quit_def str.wf_map_keys keys_quit has_key_quit map_of_quit
        get_neighbours get_battery_def name_exists_def simp del: map_map)
qed

lemma new_directory_inv: "v2_dir_inv new_BOSDirectory"
  by (simp add: v2_dir_inv_def new_BOSDirectory_def get_neighbours neighbours_def get_battery_def has_key_def)

lemma dir_reachable_inv: "dir_reachable d \<Longrightarrow> v2_dir_inv d"
  by (induction rule: dir_reachable.induct) (blast intro: dir_step_inv new_directory_inv)+

text \<open>
  C25: in every directory the server can build, the children and the parents are the two readings of
  one graph over the stored batteries, each battery is stored under its own name, and adding an edge
  between two different stored batteries succeeds and adds exactly that edge.
\<close>

theorem v2_directory_is_a_graph:
  assumes "dir_reachable d"
  shows "(\<forall>p c. count_list (get_children p d) c = count_list (get_parents c d) p) \<and>
    (\<forall>p c. c \<in> set (get_children p d) \<longrightarrow> name_exists p d \<and> name_exists c d) \<and>
    (\<forall>k b. get_battery k d = Some b \<longrightarrow> v2_name b = k) \<and>
    (\<forall>p c. p \<noteq> c \<and> name_exists p d \<and> name_exists c d \<longrightarrow>
       (\<exists>d'. add_edge p c d = (True, d') \<and>
          (\<forall>x. get_children x d' = (if x = p then get_children p d @ [c] else get_children x d)) \<and>
          (\<forall>x. get_parents x d' = (if x = c then get_parents c d @ [p] else get_parents x d))))"
  using dir_reachable_inv [OF assms]
  by (auto simp: v2_dir_inv_def add_edge_def name_exists_def get_neighbours neighbours_link)

definition pair_directory :: "unit v2_directory" where
  "pair_directory =
     snd (add_battery (new_NullBattery ''b'' 5 1000) (snd (add_battery (new_NullBattery ''a'' 5 1000) new_BOSDirectory)))"

lemma pair_directory_reachable: "dir_reachable pair_directory"
  unfolding pair_directory_def
  by (intro reach_step [OF reach_step [OF reach_new step_add] step_add])

theorem v2_directory_is_a_graph_witness:
  "\<exists>d'. add_edge ''a'' ''b'' pair_directory = (True, d') \<and> get_children ''a'' d' = [''b'']"
proof -
  have "name_exists ''a'' pair_directory" "name_exists ''b'' pair_directory"
    "get_children ''a'' pair_directory = []"
    by code_simp+
  moreover from v2_directory_is_a_graph [OF pair_directory_reachable]
  have "\<forall>p c. p \<noteq> c \<and> name_exists p pair_directory \<and> name_exists c pair_directory \<longrightarrow>
      (\<exists>d'. add_edge p c pair_directory = (True, d') \<and>
        (\<forall>x. get_children x d' = (if x = p then get_children p pair_directory @ [c] else get_children x pair_directory)) \<and>
        (\<forall>x. get_parents x d' = (if x = c then get_parents c pair_directory @ [p] else get_parents x pair_directory)))"
    by (elim conjE)
  note this [rule_format, of "''a''" "''b''"]
  ultimately show ?thesis by auto
qed

end
