(* ===== verification/V2_JBDBMS.thy ===== *)
theory V2_JBDBMS
  imports V2_Battery V3_Drivers
begin

text \<open>
  The JBD battery of BatteryOS-V2 (\<open>JBDBMS.cpp\<close>): the register protocol on a connection, with three
  tries per query, the decoding of the basic information and the guarded setting of a current. The
  three virtual functions of \<open>Connection\<close> the driver calls are a record of functions over the state of
  the line; the current regulator is the list of the amperes it was set to.
\<close>

section \<open>The protocol\<close>

record 'c connection =
  conn_read :: "nat \<Rightarrow> 'c \<Rightarrow> byte list \<times> 'c"
  conn_write :: "byte list \<Rightarrow> 'c \<Rightarrow> int \<times> 'c"
  conn_flush :: "'c \<Rightarrow> 'c"

definition compute_checksum :: "byte list \<Rightarrow> 16 word" where
  "compute_checksum payload = NOT (fold (\<lambda>b sum_of_payload. sum_of_payload + ucast b) payload 0) + 1"

definition read_register_command :: "byte \<Rightarrow> byte list" where
  "read_register_command register_address =
    (let payload = [register_address, 0x00]; cks = compute_checksum payload in
     [0xDD, 0xA5] @ payload @ [ucast (drop_bit 8 cks AND 0xFF), ucast (cks AND 0xFF), 0x77])"

definition write_register_command :: "byte \<Rightarrow> byte list \<Rightarrow> byte list" where
  "write_register_command register_address bytes_to_write =
    (let payload = [register_address, of_nat (length bytes_to_write)] @ bytes_to_write;
         cks = compute_checksum payload in
     [0xDD, 0x5A] @ payload @ [ucast (drop_bit 8 cks AND 0xFF), ucast (cks AND 0xFF), 0x77])"

definition verify_recv_checksum :: "byte list \<Rightarrow> byte list \<Rightarrow> 16 word \<Rightarrow> byte \<Rightarrow> bool" where
  "verify_recv_checksum header data cks ending_byte =
    (if length header \<noteq> 4 then False
     else if header ! 0 \<noteq> 0xDD then False
     else if ending_byte \<noteq> 0x77 then False
     else if length data \<noteq> unat (header ! 3) then False
     else compute_checksum ([header ! 2, header ! 3] @ data) = cks)"

text \<open>
  One try: whether the reply was accepted, and the bytes that the local \<open>data\<close> holds then. After a
  short read these are the bytes read; after a checksum failure they are the payload all the same.
\<close>

definition query_once :: "'c connection \<Rightarrow> byte list \<Rightarrow> 'c \<Rightarrow> bool \<times> byte list \<times> 'c" where
  "query_once conn command c =
    (let (bytes_written, c1) = conn_write conn command c in
     if bytes_written < 0 then (False, [], conn_flush conn c1)
     else if bytes_written \<noteq> int (length command) then (False, [], conn_flush conn c1)
     else
       (let (header, c2) = conn_read conn 4 c1 in
        if length header \<noteq> 4 then (False, [], conn_flush conn c2)
        else
          (let data_length = unat (header ! 3);
               (raw, c3) = conn_read conn (data_length + 3) c2 in
           if length raw \<noteq> data_length + 3 then (False, raw, conn_flush conn c3)
           else
             (let cks = U16 (raw ! (length raw - 3)) (raw ! (length raw - 2));
                  ending_byte = raw ! (length raw - 1);
                  data = take (length raw - 3) raw in
              if \<not> verify_recv_checksum header data cks ending_byte then (False, data, conn_flush conn c3)
              else (True, data, c3)))))"

primrec query_tries :: "'c connection \<Rightarrow> byte list \<Rightarrow> nat \<Rightarrow> byte list \<Rightarrow> 'c \<Rightarrow> byte list \<times> 'c" where
  "query_tries conn command 0 data c = (data, c)"
| "query_tries conn command (Suc k) data c =
    (let (ok, data', c') = query_once conn command c in
     if ok then (data', c') else query_tries conn command k data' c')"

definition query_info :: "'c connection \<Rightarrow> byte list \<Rightarrow> 'c \<Rightarrow> byte list \<times> 'c" where
  "query_info conn command c = query_tries conn command 3 [] c"

section \<open>The battery\<close>

record jbd_state =
  voltage_10mV :: "16 word"
  current_10mA :: "16 word"
  remaining_charge_10mAh :: "16 word"
  max_capacity_10mAh :: "16 word"
  cycles :: "16 word"
  manufacture :: "16 word"
  balancing_bit_1 :: "16 word"
  balancing_bit_2 :: "16 word"
  protection_state :: "16 word"
  jbd_version :: byte
  remaining_percentage :: byte
  MOSFET_status :: byte
  num_batteries :: byte
  num_temperature_sensors :: byte

record 'c jbd2 =
  line :: 'c
  regulator_amps :: "real list"
  jbd2_max_charging_current_mA :: int
  jbd2_max_discharging_current_mA :: int
  basic_state :: jbd_state

type_synonym 'c jbd_battery = "'c jbd2 v2_battery"

definition basic_info :: "byte list \<Rightarrow> jbd_state" where
  "basic_info info =
    \<lparr>voltage_10mV = U16 (info ! 0) (info ! 1), current_10mA = U16 (info ! 2) (info ! 3),
     remaining_charge_10mAh = U16 (info ! 4) (info ! 5), max_capacity_10mAh = U16 (info ! 6) (info ! 7),
     cycles = U16 (info ! 8) (info ! 9), manufacture = U16 (info ! 10) (info ! 11),
     balancing_bit_1 = U16 (info ! 12) (info ! 13), balancing_bit_2 = U16 (info ! 14) (info ! 15),
     protection_state = U16 (info ! 16) (info ! 17), jbd_version = info ! 18,
     remaining_percentage = info ! 19, MOSFET_status = info ! 20, num_batteries = info ! 21,
     num_temperature_sensors = info ! 22\<rparr>"

text \<open>The code reads 23 bytes of the reply without a look at its length.\<close>

definition get_basic_info :: "'c connection \<Rightarrow> 'c jbd_battery \<Rightarrow> 'c jbd_battery outcome" where
  "get_basic_info conn b =
    (let (info, c) = query_info conn (read_register_command 0x03) (line (v2_device b)) in
     if length info < 23 then Inl Bad_index
     else Inr (b\<lparr>v2_device := (v2_device b)\<lparr>line := c, basic_state := basic_info info\<rparr>\<rparr>))"

definition jbd2_status :: "CTimestamp \<Rightarrow> 'c jbd2 \<Rightarrow> v2_status" where
  "jbd2_status stamp d =
    \<lparr>v2_voltage_mV = uint (voltage_10mV (basic_state d)) * 10,
     v2_current_mA = sint (current_10mA (basic_state d)) * 10,
     v2_capacity_mAh = uint (remaining_charge_10mAh (basic_state d)) * 10,
     v2_max_capacity_mAh = uint (max_capacity_10mAh (basic_state d)) * 10,
     v2_max_charging_current_mA = jbd2_max_charging_current_mA d,
     v2_max_discharging_current_mA = jbd2_max_discharging_current_mA d,
     v2_timestamp = stamp\<rparr>"

definition jbd2_refresh :: "'c connection \<Rightarrow> CTimestamp \<Rightarrow> 'c jbd_battery \<Rightarrow> 'c jbd_battery outcome" where
  "jbd2_refresh conn stamp b =
     obind (get_basic_info conn b) (\<lambda>b1. Inr (b1\<lparr>v2_bstatus := jbd2_status stamp (v2_device b1)\<rparr>))"

definition jbd2_apply :: "int \<Rightarrow> 'c jbd_battery \<Rightarrow> bool \<times> 'c jbd_battery" where
  "jbd2_apply target b =
    (let st = v2_bstatus b; d = v2_device b in
     if target < 0 \<and> - target > jbd2_max_charging_current_mA d then (False, b)
     else if target > 0 \<and> target > jbd2_max_discharging_current_mA d then (False, b)
     else if target > 0 \<and> v2_capacity_mAh st \<le> 5 then (False, b)
     else if target < 0 \<and> v2_capacity_mAh st + 5 \<ge> v2_max_capacity_mAh st then (False, b)
     else (True, b\<lparr>v2_device := d\<lparr>regulator_amps := regulator_amps d @ [of_int target / 1000]\<rparr>\<rparr>))"

definition jbd2_set_current ::
  "'c connection \<Rightarrow> nanos \<Rightarrow> CTimestamp \<Rightarrow> int \<Rightarrow> bool \<Rightarrow> 'c jbd_battery \<Rightarrow> (bool \<times> 'c jbd_battery) outcome" where
  "jbd2_set_current conn now stamp target gt b =
     obind (if refresh_mode b = V2_LAZY \<and>
               now - c_time_to_timepoint (v2_timestamp (v2_bstatus b)) \<ge> max_staleness b * 1000000
            then jbd2_refresh conn stamp b else Inr b)
       (\<lambda>b1. Inr (jbd2_apply target b1))"

text \<open>
  The constructor moves its parameter \<open>pconnection\<close> into the member of the same name and then writes
  through the parameter, which is null by then.
\<close>

definition new_JBDBMS :: "string \<Rightarrow> 'c \<Rightarrow> int \<Rightarrow> 'c jbd_battery outcome" where
  "new_JBDBMS name pconnection staleness = Inl Null_deref"

definition word_bytes :: "16 word \<Rightarrow> byte list" where
  "word_bytes v = [ucast (drop_bit 8 v AND 0xFF), ucast (v AND 0xFF)]"

definition write_register :: "'c connection \<Rightarrow> byte \<times> byte list \<Rightarrow> 'c \<Rightarrow> 'c" where
  "write_register conn rb c = snd (query_info conn (write_register_command (fst rb) (snd rb)) c)"

definition calibrate :: "'c connection \<Rightarrow> 16 word \<Rightarrow> 16 word list \<Rightarrow> 'c jbd_battery \<Rightarrow> bool \<times> 'c jbd_battery" where
  "calibrate conn max_cap voltages_mV b =
    (if length voltages_mV < 6 then (False, b)
     else
       (let c1 = write_register conn (0x00, [0x56, 0x78]) (line (v2_device b));
            c2 = write_register conn (0x10, word_bytes max_cap) c1;
            c3 = fold (\<lambda>i. write_register conn ([0x12, 0x32, 0x33, 0x34, 0x35, 0x13] ! i, word_bytes (voltages_mV ! i)))
                   [0..<6] c2;
            c4 = write_register conn (0x01, [0x28, 0x28]) c3
        in (True, b\<lparr>v2_device := (v2_device b)\<lparr>line := c4\<rparr>\<rparr>)))"

section \<open>Properties\<close>

lemma compute_checksum_eq: "compute_checksum payload = checksum payload"
  by (simp add: compute_checksum_def checksum_def)

text \<open>The command for the basic information is the constant of the header file.\<close>

lemma read_basic_command: "read_register_command 0x03 = [0xDD, 0xA5, 0x03, 0x00, 0xFF, 0xFD, 0x77]"
  by (simp add: read_register_command_def compute_checksum_def Let_def)

text \<open>A reply: its header, and what follows it.\<close>

definition reply_header :: "byte \<Rightarrow> byte list \<Rightarrow> byte list" where
  "reply_header st info = [0xDD, 0x03, st, of_nat (length info)]"

definition answers :: "'c connection \<Rightarrow> byte list \<Rightarrow> 'c \<Rightarrow> byte list \<Rightarrow> byte list \<Rightarrow> 'c \<Rightarrow> bool" where
  "answers conn command c header rest c' \<longleftrightarrow>
    (case conn_write conn command c of (n, c1) \<Rightarrow> n = int (length command) \<and>
       (case conn_read conn 4 c1 of (h, c2) \<Rightarrow> h = header \<and> conn_read conn (length rest) c2 = (rest, c')))"

lemma query_once_answers:
  assumes "answers conn command c (reply_header st info) (info @ [hi, lo, 0x77]) c'" and "length info < 256"
  shows "query_once conn command c =
    (if U16 hi lo = checksum ([st, of_nat (length info)] @ info) then (True, info, c') else (False, info, conn_flush conn c'))"
proof -
  obtain c1 where w: "conn_write conn command c = (int (length command), c1)"
    using assms(1) by (cases "conn_write conn command c") (simp add: answers_def)
  obtain c2 where r: "conn_read conn 4 c1 = (reply_header st info, c2)"
      "conn_read conn (length info + 3) c2 = (info @ [hi, lo, 0x77], c')"
    using assms(1) w by (cases "conn_read conn 4 c1") (simp add: answers_def numeral_3_eq_3)
  have len: "unat (of_nat (length info) :: byte) = length info"
    using assms(2) by (simp add: unat_of_nat)
  have idx: "(info @ [hi, lo, 0x77]) ! length info = hi" "(info @ [hi, lo, 0x77]) ! Suc (length info) = lo"
      "(info @ [hi, lo, 0x77]) ! Suc (Suc (length info)) = 0x77"
    by (simp_all add: nth_append)
  show ?thesis
    using w r len idx
    by (auto simp: query_once_def reply_header_def verify_recv_checksum_def compute_checksum_eq Let_def)
qed

text \<open>The line after a number of rejected replies.\<close>

primrec after_rejects :: "'c connection \<Rightarrow> byte list \<Rightarrow> nat \<Rightarrow> 'c \<Rightarrow> 'c option" where
  "after_rejects conn command 0 c = Some c"
| "after_rejects conn command (Suc k) c =
    (case query_once conn command c of (ok, _, c1) \<Rightarrow> if ok then None else after_rejects conn command k c1)"

lemma query_tries_rejects:
  assumes "after_rejects conn command k c = Some c0" and "query_once conn command c0 = (True, data, c')"
  shows "query_tries conn command (Suc (k + j)) d c = (data, c')"
  using assms(1)
proof (induction k arbitrary: c d)
  case 0
  with assms(2) show ?case by simp
next
  case (Suc k)
  then obtain d1 c1 where "query_once conn command c = (False, d1, c1)" "after_rejects conn command k c1 = Some c0"
    by (auto split: prod.splits if_splits)
  with Suc.IH [of c1 d1] show ?case by simp
qed

text \<open>
  When the device answers a query with a well-formed reply, after at most two rejected ones, the
  refresh decodes it: voltage and charges from unsigned, the current from a signed big-endian
  number, each in units of ten.
\<close>

theorem jbd2_refresh_decodes:
  fixes b :: "'c jbd_battery"
  assumes "after_rejects conn (read_register_command 3) k (line (v2_device b)) = Some c" and "k < 3"
    and "answers conn (read_register_command 3) c (reply_header st info) (info @ [hi, lo, 0x77]) c'"
    and "23 \<le> length info" and "length info < 256" and "U16 hi lo = checksum ([st, of_nat (length info)] @ info)"
  shows "\<exists>b'. jbd2_refresh conn stamp b = Inr b' \<and> line (v2_device b') = c' \<and>
     v2_voltage_mV (v2_bstatus b') = 10 * (256 * uint (info ! 0) + uint (info ! 1)) \<and>
     v2_current_mA (v2_bstatus b') = 10 * sint (U16 (info ! 2) (info ! 3)) \<and>
     v2_capacity_mAh (v2_bstatus b') = 10 * (256 * uint (info ! 4) + uint (info ! 5)) \<and>
     v2_max_capacity_mAh (v2_bstatus b') = 10 * (256 * uint (info ! 6) + uint (info ! 7)) \<and>
     v2_timestamp (v2_bstatus b') = stamp"
proof -
  have "query_once conn (read_register_command 3) c = (True, info, c')"
    using query_once_answers [OF assms(3,5)] assms(6) by simp
  moreover have "3 = Suc (k + (2 - k))" using assms(2) by simp
  ultimately have "query_info conn (read_register_command 3) (line (v2_device b)) = (info, c')"
    unfolding query_info_def using query_tries_rejects [OF assms(1)] by metis
  then show ?thesis
    using assms(4) by (simp add: jbd2_refresh_def get_basic_info_def jbd2_status_def basic_info_def uint_U16)
qed

text \<open>A line that plays back a script: each write is acknowledged, each read takes the next entry.\<close>

definition script :: "byte list list connection" where
  "script = \<lparr>conn_read = (\<lambda>n c. case c of [] \<Rightarrow> ([], []) | r # rs \<Rightarrow> (r, rs)),
     conn_write = (\<lambda>bs c. (int (length bs), c)), conn_flush = (\<lambda>c. c)\<rparr>"

definition jbd_at :: "'c \<Rightarrow> 'c jbd_battery" where
  "jbd_at c = new_v2_battery ''jbd'' V2_Physical 1000
     \<lparr>line = c, regulator_amps = [], jbd2_max_charging_current_mA = 10000,
      jbd2_max_discharging_current_mA = 10000, basic_state = basic_info (replicate 23 0)\<rparr>"

definition good_info :: "byte list" where
  "good_info = [1, 2, 0xFF, 0xF6, 0, 9, 0, 20, 0, 0, 0, 0, 0, 0, 0, 0, 0, 0, 0, 0, 0, 0, 0]"

theorem jbd2_refresh_decodes_witness:
  "\<exists>b'. jbd2_refresh script \<lparr>secs_since_epoch = 1, msec = 0\<rparr>
      (jbd_at [[1], reply_header 0 good_info, good_info @ [0xFD, 0xD4, 0x77]]) = Inr b' \<and>
     v2_voltage_mV (v2_bstatus b') = 2580 \<and> v2_current_mA (v2_bstatus b') = - 100"
proof -
  let ?b = "jbd_at [[1], reply_header 0 good_info, good_info @ [0xFD, 0xD4, 0x77]]"
  have "after_rejects script (read_register_command 3) 1 (line (v2_device ?b)) =
      Some [reply_header 0 good_info, good_info @ [0xFD, 0xD4, 0x77]]"
    by (simp add: script_def jbd_at_def new_v2_battery_def query_once_def)
  moreover have "answers script (read_register_command 3) [reply_header 0 good_info, good_info @ [0xFD, 0xD4, 0x77]]
      (reply_header 0 good_info) (good_info @ [0xFD, 0xD4, 0x77]) []"
    by (simp add: answers_def script_def)
  moreover have "U16 0xFD 0xD4 = checksum ([0, of_nat (length good_info)] @ good_info)"
    by (simp add: U16_def checksum_def good_info_def)
  moreover have "sint (U16 0xFF 0xF6) = - 10" by (simp add: U16_def)
  ultimately show ?thesis
    using jbd2_refresh_decodes [of script 1 ?b "[reply_header 0 good_info, good_info @ [0xFD, 0xD4, 0x77]]" 0 good_info
        "0xFD" "0xD4" "[]" "\<lparr>secs_since_epoch = 1, msec = 0\<rparr>"]
    by (auto simp: good_info_def)
qed

text \<open>
  A device whose replies fail the checksum on all three tries is believed all the same: the
  refresh reports what the last reply says.
\<close>

theorem jbd2_believes_garbled_reply:
  fixes b :: "'c jbd_battery"
  assumes "after_rejects conn (read_register_command 3) 2 (line (v2_device b)) = Some c"
    and "answers conn (read_register_command 3) c (reply_header st info) (info @ [hi, lo, 0x77]) c'"
    and "23 \<le> length info" and "length info < 256" and "U16 hi lo \<noteq> checksum ([st, of_nat (length info)] @ info)"
  shows "\<exists>b'. jbd2_refresh conn stamp b = Inr b' \<and>
     v2_voltage_mV (v2_bstatus b') = 10 * (256 * uint (info ! 0) + uint (info ! 1)) \<and>
     v2_timestamp (v2_bstatus b') = stamp"
proof -
  obtain d1 c1 where t1: "query_once conn (read_register_command 3) (line (v2_device b)) = (False, d1, c1)"
      and r1: "after_rejects conn (read_register_command 3) 1 c1 = Some c"
    using assms(1) by (auto simp: numeral_2_eq_2 split: prod.splits if_splits)
  obtain d2 where t2: "query_once conn (read_register_command 3) c1 = (False, d2, c)"
    using r1 by (auto split: prod.splits if_splits)
  have t3: "query_once conn (read_register_command 3) c = (False, info, conn_flush conn c')"
    using query_once_answers [OF assms(2,4)] assms(5) by simp
  have "query_info conn (read_register_command 3) (line (v2_device b)) = (info, conn_flush conn c')"
    using t1 t2 t3 by (simp add: query_info_def numeral_3_eq_3)
  then show ?thesis
    using assms(3) by (simp add: jbd2_refresh_def get_basic_info_def jbd2_status_def basic_info_def uint_U16)
qed

theorem jbd2_believes_garbled_reply_witness:
  "\<exists>b'. jbd2_refresh script \<lparr>secs_since_epoch = 1, msec = 0\<rparr>
      (jbd_at [[1], [1], reply_header 0 good_info, good_info @ [0, 0, 0x77]]) = Inr b' \<and>
     v2_voltage_mV (v2_bstatus b') = 2580"
proof -
  let ?b = "jbd_at [[1], [1], reply_header 0 good_info, good_info @ [0, 0, 0x77]]"
  have "after_rejects script (read_register_command 3) 2 (line (v2_device ?b)) =
      Some [reply_header 0 good_info, good_info @ [0, 0, 0x77]]"
    by (simp add: script_def jbd_at_def new_v2_battery_def query_once_def numeral_2_eq_2)
  moreover have "answers script (read_register_command 3) [reply_header 0 good_info, good_info @ [0, 0, 0x77]]
      (reply_header 0 good_info) (good_info @ [0, 0, 0x77]) []"
    by (simp add: answers_def script_def)
  moreover have "U16 0 0 \<noteq> checksum ([0, of_nat (length good_info)] @ good_info)"
    by (simp add: U16_def checksum_def good_info_def)
  ultimately show ?thesis
    using jbd2_believes_garbled_reply [of script ?b "[reply_header 0 good_info, good_info @ [0, 0, 0x77]]" 0 good_info
        0 0 "[]" "\<lparr>secs_since_epoch = 1, msec = 0\<rparr>"]
    by (auto simp: good_info_def)
qed

text \<open>
  C34: the driver hands a current to the regulator exactly when it accepts the request, and it accepts
  none beyond its limits, none that discharges an empty battery and none that charges a full one.
\<close>

theorem jbd2_set_current_safe:
  assumes "jbd2_set_current conn now stamp target gt b = Inr (ok, b')"
  shows "(ok \<longrightarrow> - jbd2_max_charging_current_mA (v2_device b') \<le> target \<or> 0 \<le> target) \<and>
    (ok \<longrightarrow> target \<le> jbd2_max_discharging_current_mA (v2_device b') \<or> target \<le> 0) \<and>
    (ok \<and> 0 < target \<longrightarrow> 5 < v2_capacity_mAh (v2_bstatus b')) \<and>
    (ok \<and> target < 0 \<longrightarrow> v2_capacity_mAh (v2_bstatus b') + 5 < v2_max_capacity_mAh (v2_bstatus b')) \<and>
    regulator_amps (v2_device b') = regulator_amps (v2_device b) @ (if ok then [of_int target / 1000] else [])"
proof -
  have keep: "regulator_amps (v2_device b1) = regulator_amps (v2_device b)"
    if "jbd2_refresh conn stamp b = Inr b1" for b1
    using that by (auto simp: jbd2_refresh_def get_basic_info_def split: prod.splits if_splits)
  obtain b1 where fin: "jbd2_apply target b1 = (ok, b')" and
      amps: "regulator_amps (v2_device b1) = regulator_amps (v2_device b)"
    using assms keep by (auto simp: jbd2_set_current_def split: if_splits)
  show ?thesis
    by (cases ok) (use fin amps in \<open>auto simp: jbd2_apply_def Let_def split: if_splits\<close>)
qed

theorem jbd2_set_current_safe_witness:
  "\<exists>b'. jbd2_set_current script 0 \<lparr>secs_since_epoch = 1, msec = 0\<rparr> 0 True (jbd_at []) = Inr (True, b') \<and>
     regulator_amps (v2_device b') = [0]"
proof -
  have run: "jbd2_set_current script 0 \<lparr>secs_since_epoch = 1, msec = 0\<rparr> 0 True (jbd_at []) =
     Inr (True, (jbd_at [])\<lparr>v2_device := (v2_device (jbd_at []))\<lparr>regulator_amps := [0]\<rparr>\<rparr>)"
    by (simp add: jbd2_set_current_def jbd2_apply_def jbd_at_def new_v2_battery_def zero_status_def c_time_to_timepoint_def Let_def)
  with jbd2_set_current_safe [OF run] show ?thesis by (simp add: jbd_at_def new_v2_battery_def)
qed

end
