(* ===== verification/V2_Remote.thy ===== *)
theory V2_Remote
  imports V2_Directory V2_JBDBMS
begin

text \<open>
  Remote batteries of BatteryOS-V2: the streams of \<open>Connections.hpp\<close>, the handler of remote requests
  in \<open>BOS.cpp\<close> and its client \<open>NetworkBattery.hpp\<close>, composed over a line on which the server answers
  each request that arrives. The virtual functions the handler calls on the battery it found are a
  record of functions over the whole directory, since a battery may act on others.
\<close>

section \<open>Streams\<close>

text \<open>
  The \<open>read\<close> of \<open>TCPConnection\<close> and \<open>FIFOConnection\<close>. The outcomes of the system calls to come are a
  list, as for the connections of BatteryOS-V3. The vector has its full size from the start, so that
  a failure leaves zeros at its end.
\<close>

primrec stream_fill :: "int list \<Rightarrow> nat \<Rightarrow> byte list \<Rightarrow> byte list \<Rightarrow> (byte list \<times> byte list \<times> int list) outcome" where
  "stream_fill [] num_bytes data pending =
    (if length data < num_bytes then Inl No_fuel else Inr (data, pending, []))"
| "stream_fill (res # calls) num_bytes data pending =
    (if length data < num_bytes then
       (if res < 0 then Inr (data @ replicate (num_bytes - length data) 0, pending, calls)
        else
          (let k = min (nat res) (min (num_bytes - length data) (length pending)) in
           stream_fill calls num_bytes (data @ take k pending) (drop k pending)))
     else Inr (data, pending, res # calls))"

definition stream_read :: "int list \<Rightarrow> int \<Rightarrow> byte list \<Rightarrow> (byte list \<times> byte list \<times> int list) outcome" where
  "stream_read calls num_bytes pending =
    (if num_bytes \<le> 0 then Inr ([], pending, calls) else stream_fill calls (nat num_bytes) [] pending)"

section \<open>The handler of remote requests\<close>

record 'b v2_calls =
  call_get_status :: "string \<Rightarrow> 'b v2_directory \<Rightarrow> v2_status \<times> 'b v2_directory"
  call_schedule_set_current ::
    "string \<Rightarrow> int \<Rightarrow> bool \<Rightarrow> nanos \<Rightarrow> nanos \<Rightarrow> 'b v2_directory \<Rightarrow> 32 word \<times> 'b v2_directory"

definition char_of_byte :: "byte \<Rightarrow> char" where
  "char_of_byte b = char_of (unat b)"

definition byte_of_char :: "char \<Rightarrow> byte" where
  "byte_of_char c = of_nat (of_char c)"

definition status_reply :: "v2_status \<Rightarrow> byte list" where
  "status_reply status =
    (let buf = replicate (4 + 64) 0;
         (_, buf1) = serialize_int (64 :: 32 word) buf 0 (length buf);
         (_, rest) = BatteryStatus_serialize status (drop 4 buf1) (length buf1)
     in take 4 buf1 @ rest)"

text \<open>The length of this reply is written as a \<open>size_t\<close>, the verdict then over its upper half.\<close>

definition set_current_reply :: "32 word \<Rightarrow> byte list" where
  "set_current_reply r =
    (let buf = replicate (4 + 4) 0;
         (_, buf1) = serialize_int (4 :: 64 word) buf 0 (length buf);
         (_, buf2) = serialize_int r buf1 4 (length buf1)
     in buf2)"

text \<open>The bytes after the header, the last one apart.\<close>

definition request_name :: "nat \<Rightarrow> byte list \<Rightarrow> string" where
  "request_name header_bytes data_buf = map (\<lambda>i. char_of_byte (data_buf ! i)) [header_bytes..<length data_buf - 1]"

definition dispatch_request ::
  "'c connection \<Rightarrow> 'b v2_calls \<Rightarrow> string \<Rightarrow> RPCRequestHeader \<Rightarrow> 'c \<Rightarrow> 'b v2_directory \<Rightarrow>
     ('c \<times> 'b v2_directory) option" where
  "dispatch_request conn vt name header c d =
    (if rpc_func header = rpc_id RPC_REFRESH \<or> rpc_func header = rpc_id RPC_GET_STATUS then
       (let (status, d1) = call_get_status vt name d;
            (_, c1) = conn_write conn (status_reply status) c
        in Some (c1, d1))
     else if rpc_func header = rpc_id RPC_SET_CURRENT then
       (let (r, d1) = call_schedule_set_current vt name (rpc_current_mA header) False
              (c_time_to_timepoint (rpc_when_to_set header)) (c_time_to_timepoint (rpc_until_when header)) d;
            (_, c1) = conn_write conn (set_current_reply r) c
        in Some (c1, d1))
     else None)"

text \<open>
  The stack slot of the header is the argument \<open>junk\<close>. A length beyond the range of \<open>int\<close> is a negative
  argument of \<open>read\<close>, which then reads nothing.
\<close>

definition connection_handler ::
  "RPCRequestHeader \<Rightarrow> 'c connection \<Rightarrow> 'b v2_calls \<Rightarrow> 'c \<Rightarrow> 'b v2_directory \<Rightarrow> int \<times> 'c \<times> 'b v2_directory" where
  "connection_handler junk conn vt c d =
    (let (len_buf, c1) = conn_read conn 4 c in
     if length len_buf \<noteq> 4 then (- 5, conn_flush conn c1, d)
     else
       (let data_len = (deserialize_int len_buf 0 :: 32 word) in
        if data_len = 0 then (- 2, conn_flush conn c1, d)
        else
          (let (data_buf, c2) = conn_read conn (nat (sint data_len)) c1;
               (header_bytes, header) = RPCRequestHeader_deserialize junk data_buf (length data_buf) in
           if header_bytes \<noteq> 64 then (- 3, conn_flush conn c2, d)
           else
             (let name = request_name header_bytes data_buf in
              case get_battery name d of
                None \<Rightarrow> (- 1, conn_flush conn c2, d)
              | Some _ \<Rightarrow>
                  (case dispatch_request conn vt name header c2 d of
                     None \<Rightarrow> (- 4, conn_flush conn c2, d)
                   | Some (c3, d') \<Rightarrow> (0, c3, d'))))))"

text \<open>
  A turn of the loop of the first server, which warns where the handler refuses and goes on: the
  same faults then become reads outside a vector, the use of an empty pointer and the use of a header
  that was never written. \<open>None\<close> is the server that closed the connection and spins.
\<close>

definition remote_server_turn ::
  "RPCRequestHeader \<Rightarrow> 'c connection \<Rightarrow> 'b v2_calls \<Rightarrow> 'c \<Rightarrow> 'b v2_directory \<Rightarrow>
     ('c \<times> 'b v2_directory) option outcome" where
  "remote_server_turn junk conn vt c d =
    (let (len_buf, c1) = conn_read conn 4 c in
     if length len_buf < 4 then Inl Bad_index
     else
       (let data_len = (deserialize_int len_buf 0 :: 32 word) in
        if data_len = 0 then Inr None
        else
          (let (data_buf, c2) = conn_read conn (nat (sint data_len)) c1;
               (header_bytes, header) = RPCRequestHeader_deserialize junk data_buf (length data_buf) in
           if data_buf = [] then Inl Bad_index
           else
             (let name = request_name header_bytes data_buf in
              if get_battery name d = None \<and>
                 rpc_func header \<in> {rpc_id RPC_REFRESH, rpc_id RPC_GET_STATUS, rpc_id RPC_SET_CURRENT}
              then Inl Null_deref
              else
                (case dispatch_request conn vt name header c2 d of
                   None \<Rightarrow> Inr (Some (c2, d))
                 | Some (c3, d') \<Rightarrow> Inr (Some (c3, d')))))))"

section \<open>The client\<close>

record 'c network =
  nb_remote_name :: string
  pconnection :: 'c

type_synonym 'c network_battery = "'c network v2_battery"

definition send_recv :: "'c connection \<Rightarrow> byte list \<Rightarrow> 'c \<Rightarrow> byte list \<times> 'c" where
  "send_recv conn request c =
    (let (num_bytes, c1) = conn_write conn request c in
     if num_bytes < 0 then ([], c1)
     else
       (let (data, c2) = conn_read conn 4 c1 in
        if length data \<noteq> 4 then ([], c2)
        else conn_read conn (nat (sint (deserialize_int data 0 :: 32 word))) c2))"

text \<open>The request: four bytes of length, the header, the name and a zero.\<close>

definition request_bytes :: "RPCRequestHeader \<Rightarrow> string \<Rightarrow> nat \<times> byte list" where
  "request_bytes header remote_name =
    (let buf = replicate (4 + 64 + length remote_name + 1) 0;
         (num_header_bytes, rest) = RPCRequestHeader_serialize header (drop 4 buf) (length buf);
         buf1 = take 4 buf @ rest;
         off = 4 + num_header_bytes;
         buf2 = fold (\<lambda>i b. b[off + i := byte_of_char (remote_name ! i)]) [0..<length remote_name] buf1;
         buf3 = buf2[off + length remote_name := 0];
         data_length = (of_nat (64 + length remote_name + 1) :: 32 word)
     in serialize_int data_length buf3 0 4)"

definition network_refresh :: "'c connection \<Rightarrow> 'c network_battery \<Rightarrow> 'c network_battery" where
  "network_refresh conn b =
    (let name = nb_remote_name (v2_device b);
         (bytes_used, request) = request_bytes (new_RPC_header RPC_GET_STATUS name) name in
     if bytes_used \<noteq> 4 then b
     else
       (let (data, c) = send_recv conn request (pconnection (v2_device b));
            (_, status) = BatteryStatus_deserialize (v2_bstatus b) data (length data)
        in b\<lparr>v2_bstatus := status, v2_device := (v2_device b)\<lparr>pconnection := c\<rparr>\<rparr>))"

definition network_set_current :: "int \<Rightarrow> bool \<Rightarrow> nat \<Rightarrow> 'c network_battery \<Rightarrow> bool \<times> 'c network_battery" where
  "network_set_current target gt other_data b = (False, b)"

definition network_schedule_set_current ::
  "'c connection \<Rightarrow> int \<Rightarrow> bool \<Rightarrow> nanos \<Rightarrow> nanos \<Rightarrow> 'c network_battery \<Rightarrow> 32 word \<times> 'c network_battery" where
  "network_schedule_set_current conn target gt when_to_set until_when b =
    (let name = nb_remote_name (v2_device b);
         header = (new_RPC_header RPC_SET_CURRENT name)\<lparr>rpc_current_mA := target,
           rpc_is_greater_than := (if gt then 1 else 0),
           rpc_when_to_set := timepoint_to_c_time when_to_set,
           rpc_until_when := timepoint_to_c_time until_when\<rparr>;
         (bytes_used, request) = request_bytes header name in
     if bytes_used \<noteq> 4 then (0, b)
     else
       (let (data, c) = send_recv conn request (pconnection (v2_device b))
        in (1, b\<lparr>v2_device := (v2_device b)\<lparr>pconnection := c\<rparr>\<rparr>)))"

definition network_driver :: "'c connection \<Rightarrow> 'c network v2_driver" where
  "network_driver conn =
    \<lparr>drv_refresh = (\<lambda>_. network_refresh conn), drv_set_current = network_set_current,
     drv_get_delay = (\<lambda>_ _. 0)\<rparr>"

definition new_NetworkBattery :: "'c connection \<Rightarrow> string \<Rightarrow> string \<Rightarrow> 'c \<Rightarrow> int \<Rightarrow> 'c network_battery" where
  "new_NetworkBattery conn name remote_name c staleness =
     network_refresh conn
       (new_v2_battery name V2_Physical staleness \<lparr>nb_remote_name = remote_name, pconnection = c\<rparr>)"

section \<open>Client and server on one line\<close>

text \<open>The two directions of the line, the server's end, and the client's: what it writes is handled.\<close>

record pipe =
  inbound :: "byte list"
  outbound :: "byte list"

record 'b remote =
  remote_pipe :: pipe
  remote_dir :: "'b v2_directory"

definition server_line :: "pipe connection" where
  "server_line =
    \<lparr>conn_read = (\<lambda>n p. (take n (inbound p), p\<lparr>inbound := drop n (inbound p)\<rparr>)),
     conn_write = (\<lambda>bs p. (int (length bs), p\<lparr>outbound := outbound p @ bs\<rparr>)),
     conn_flush = (\<lambda>p. p\<lparr>inbound := []\<rparr>)\<rparr>"

definition serve :: "RPCRequestHeader \<Rightarrow> 'b v2_calls \<Rightarrow> byte list \<Rightarrow> 'b remote \<Rightarrow> 'b remote" where
  "serve junk vt bs r =
    (let p = remote_pipe r;
         (_, p', d') = connection_handler junk server_line vt (p\<lparr>inbound := inbound p @ bs\<rparr>) (remote_dir r)
     in \<lparr>remote_pipe = p', remote_dir = d'\<rparr>)"

definition remote_line :: "RPCRequestHeader \<Rightarrow> 'b v2_calls \<Rightarrow> 'b remote connection" where
  "remote_line junk vt =
    \<lparr>conn_read = (\<lambda>n r. (take n (outbound (remote_pipe r)),
       r\<lparr>remote_pipe := (remote_pipe r)\<lparr>outbound := drop n (outbound (remote_pipe r))\<rparr>\<rparr>)),
     conn_write = (\<lambda>bs r. (int (length bs), serve junk vt bs r)),
     conn_flush = (\<lambda>r. r\<lparr>remote_pipe := (remote_pipe r)\<lparr>outbound := []\<rparr>\<rparr>)\<rparr>"

text \<open>The batteries that keep the functions of the base class.\<close>

definition put_battery :: "string \<Rightarrow> 'b v2_battery \<Rightarrow> 'b v2_directory \<Rightarrow> 'b v2_directory" where
  "put_battery name b d = d\<lparr>name_storage_map := map_update name (\<lambda>_. b) (name_storage_map d)\<rparr>"

definition base_calls :: "'b v2_driver \<Rightarrow> (nat \<Rightarrow> nanos) \<Rightarrow> 'b v2_calls" where
  "base_calls drv clock =
    \<lparr>call_get_status = (\<lambda>name d. case get_battery name d of
         None \<Rightarrow> (zero_status, d)
       | Some b \<Rightarrow> (let (st, b') = v2_get_status drv (clock 0) b in (st, put_battery name b' d))),
     call_schedule_set_current = (\<lambda>name target gt w u d. case get_battery name d of
         None \<Rightarrow> (0, d)
       | Some b \<Rightarrow> (let (ok, b') = v2_schedule_set_current drv clock target gt w u b in
           (if ok then 1 else 0, put_battery name b' d)))\<rparr>"

section \<open>Bytes on the line\<close>

definition le_bytes32 :: "32 word \<Rightarrow> byte list" where
  "le_bytes32 w = map (\<lambda>i. ucast (drop_bit (i * 8) w)) [0..<4]"

lemma le_bytes32_length [simp]: "length (le_bytes32 w) = 4"
  by (simp add: le_bytes32_def)

lemma ucast_and_FF32: "(ucast (w AND 0xFF) :: byte) = ucast (w :: 32 word)"
proof -
  have "(0xFF :: 32 word) = mask 8" by (simp add: mask_eq_exp_minus_1)
  then show ?thesis
    by (simp only: take_bit_eq_mask [symmetric]) (rule bit_word_eqI, simp add: bit_simps)
qed

lemma serialize_int32:
  assumes "4 \<le> n" and "off + 4 \<le> length buffer"
  shows "serialize_int (w :: 32 word) buffer off n =
           (4, take off buffer @ le_bytes32 w @ drop (off + 4) buffer)"
proof -
  have "fold (\<lambda>i buf. buf[off + i := ucast (drop_bit (i * 8) w AND 0xFF)]) [0..<4] buffer =
        take off buffer @ le_bytes32 w @ drop (off + 4) buffer"
    using assms(2)
    by (intro nth_equalityI)
       (auto simp: fold_list_update ucast_and_FF32 nth_append le_bytes32_def simp del: upt_rec_numeral)
  then show ?thesis using assms(1) by (simp add: serialize_int_def)
qed

lemma deserialize_le_bytes32 [simp]: "(deserialize_int (le_bytes32 w @ rest) 0 :: 32 word) = w"
proof (rule bit_word_eqI)
  fix n assume "n < LENGTH(32)"
  then consider "n < 8" | "8 \<le> n" "n < 16" | "16 \<le> n" "n < 24" | "24 \<le> n" "n < 32"
    by fastforce
  then show "bit (deserialize_int (le_bytes32 w @ rest) 0 :: 32 word) n = bit w n"
    by cases (auto simp: deserialize_int_def le_bytes32_def bit_simps upt_rec)
qed

lemma deserialize_le_bytes32_Nil [simp]: "(deserialize_int (le_bytes32 w) 0 :: 32 word) = w"
  using deserialize_le_bytes32 [of w "[]"] by simp

lemma char_byte_char [simp]: "char_of_byte (byte_of_char c) = c"
  by (simp add: char_of_byte_def byte_of_char_def unat_of_nat)

lemma length_bytes_int: "n < 2 ^ 31 \<Longrightarrow> nat (sint (of_nat n :: 32 word)) = n"
  by (simp add: signed_of_nat signed_take_bit_int_eq_self)

lemma length_bytes_pos: "0 < n \<Longrightarrow> n < 2 ^ 31 \<Longrightarrow> (of_nat n :: 32 word) \<noteq> 0"
  by (metis length_bytes_int nat_0 neq0_conv signed_0)

lemma status_reply_eq: "status_reply st = le_bytes32 64 @ memory_of (status_fields st)"
proof -
  have "serialize_int (64 :: 32 word) (replicate 68 0) 0 68 = (4, le_bytes32 64 @ replicate 64 0)"
    by (simp add: serialize_int32)
  moreover have "BatteryStatus_serialize st (replicate 64 0) 68 = (64, memory_of (status_fields st))"
    using serialize_fields_memory [of 0 "status_fields st" "replicate 64 0" 68]
    by (simp add: BatteryStatus_serialize_def serialize_struct_as_int_def)
  ultimately show ?thesis by (simp add: status_reply_def)
qed

lemma le_bytes_4: "take 4 (le_bytes 4) = le_bytes32 4"
  by (simp add: le_bytes_def le_bytes32_def upt_rec)

lemma set_current_reply_eq: "set_current_reply r = le_bytes32 4 @ le_bytes32 r"
proof -
  have "serialize_int (4 :: 64 word) (replicate 8 0) 0 8 = (8, le_bytes 4)"
    using serialize_int64 [of 8 0 "replicate 8 0" 4] by simp
  moreover have "serialize_int r (le_bytes 4) 4 8 = (4, take 4 (le_bytes 4) @ le_bytes32 r)"
    by (simp add: serialize_int32)
  ultimately show ?thesis by (simp add: set_current_reply_def le_bytes_4)
qed

lemma fold_write_name:
  assumes "length pre + length xs \<le> length buf" and "take (length pre) buf = pre"
  shows "fold (\<lambda>i b. b[length pre + i := f (xs ! i)]) [0..<length xs] buf =
           pre @ map f xs @ drop (length pre + length xs) buf"
proof (rule nth_equalityI)
  fix i assume "i < length (fold (\<lambda>i b. b[length pre + i := f (xs ! i)]) [0..<length xs] buf)"
  then have "i < length buf" by simp
  moreover have "i < length pre \<Longrightarrow> buf ! i = pre ! i" by (metis assms(2) nth_take)
  ultimately show "fold (\<lambda>i b. b[length pre + i := f (xs ! i)]) [0..<length xs] buf ! i =
      (pre @ map f xs @ drop (length pre + length xs) buf) ! i"
    using assms(1) by (auto simp: fold_list_update nth_append)
qed (use assms(1) in simp)

definition request_frame :: "RPCRequestHeader \<Rightarrow> string \<Rightarrow> byte list" where
  "request_frame header name = memory_of (header_fields header) @ map byte_of_char name @ [0]"

lemma request_frame_length [simp]: "length (request_frame h name) = 65 + length name"
  by (simp add: request_frame_def)

lemma request_frame_not_Nil [simp]: "request_frame h name \<noteq> []"
  by (simp add: request_frame_def)

lemma request_bytes_eq:
  "request_bytes h name = (4, le_bytes32 (of_nat (65 + length name)) @ request_frame h name)"
proof -
  let ?n = "length name" and ?m = "memory_of (header_fields h)"
  let ?b1 = "replicate 4 0 @ ?m @ replicate (?n + 1) 0"
  have "RPCRequestHeader_serialize h (replicate (65 + ?n) 0) (69 + ?n) = (64, ?m @ replicate (?n + 1) 0)"
    using serialize_fields_memory [of 0 "header_fields h" "replicate (65 + ?n) 0" "69 + ?n"]
    by (simp add: RPCRequestHeader_serialize_def serialize_struct_as_int_def)
  moreover have "fold (\<lambda>i b. b[68 + i := byte_of_char (name ! i)]) [0..<?n] ?b1 =
      replicate 4 0 @ ?m @ map byte_of_char name @ [0]"
    using fold_write_name [of "replicate 4 0 @ ?m" name ?b1 byte_of_char] drop_replicate [of ?n "Suc ?n" "0 :: byte"]
    by simp
  moreover have "(replicate 4 0 @ ?m @ map byte_of_char name @ [0])[68 + ?n := 0] =
      replicate 4 0 @ ?m @ map byte_of_char name @ [0 :: byte]"
    by (simp add: list_update_append)
  ultimately show ?thesis
    by (simp add: request_bytes_def Let_def serialize_int32 request_frame_def)
qed

section \<open>Requests that reach the server\<close>

lemma header_of_frame:
  assumes "header_int64 h"
  shows "RPCRequestHeader_deserialize junk (request_frame h name) (65 + length name) = (64, h)"
  using deserialize_struct_memory [of "header_fields h" "65 + length name" "map byte_of_char name @ [0]"] assms
  by (simp add: RPCRequestHeader_deserialize_def request_frame_def header_of_header_fields)

lemma name_of_frame: "request_name 64 (request_frame h name) = name"
proof (rule nth_equalityI)
  fix i assume "i < length (request_name 64 (request_frame h name))"
  then show "request_name 64 (request_frame h name) ! i = name ! i"
    by (simp add: request_name_def request_frame_def nth_append)
qed (simp add: request_name_def)

lemma handler_on_request:
  assumes "header_int64 h" and "65 + length name < 2 ^ 31"
    and "inbound p = snd (request_bytes h name)"
  shows "connection_handler junk server_line vt p d =
    (case get_battery name d of
       None \<Rightarrow> (- 1, p\<lparr>inbound := []\<rparr>, d)
     | Some _ \<Rightarrow>
         (case dispatch_request server_line vt name h (p\<lparr>inbound := []\<rparr>) d of
            None \<Rightarrow> (- 4, p\<lparr>inbound := []\<rparr>, d)
          | Some (c, d') \<Rightarrow> (0, c, d')))"
proof -
  note len = length_bytes_int [OF assms(2)] length_bytes_pos [OF _ assms(2), simplified]
  show ?thesis
    using assms len header_of_frame [OF assms(1)]
    by (simp add: connection_handler_def server_line_def request_bytes_eq name_of_frame Let_def
        split: option.splits cong: option.case_cong)
qed

section \<open>The contract of the line\<close>

text \<open>
  What a network battery relies on: on an idle line, a request that has an answer is taken in full,
  the length of the answer comes first, the answer next, and the line is idle again.
\<close>

locale request_line =
  fixes conn :: "'c connection"
    and idle :: "'c \<Rightarrow> bool"
    and answer :: "byte list \<Rightarrow> 'c \<Rightarrow> byte list option"
    and after :: "byte list \<Rightarrow> 'c \<Rightarrow> 'c"
  assumes exchange: "idle c \<Longrightarrow> answer req c = Some body \<Longrightarrow>
      \<exists>c1 c2. conn_write conn req c = (int (length req), c1) \<and>
        conn_read conn 4 c1 = (le_bytes32 (of_nat (length body)), c2) \<and>
        conn_read conn (length body) c2 = (body, after req c)"
    and answer_bound: "answer req c = Some body \<Longrightarrow> length body < 2 ^ 31"
    and stays_idle: "idle c \<Longrightarrow> answer req c = Some body \<Longrightarrow> idle (after req c)"
begin

lemma send_recv_answer:
  assumes "idle c" and "answer req c = Some body"
  shows "send_recv conn req c = (body, after req c)"
  using exchange [OF assms] length_bytes_int [OF answer_bound [OF assms(2)]]
  by (auto simp: send_recv_def)

lemma refresh_answer:
  assumes "idle (pconnection (v2_device b))" and "nb_remote_name (v2_device b) = name"
    and "status_int64 st"
    and "answer (snd (request_bytes (new_RPC_header RPC_GET_STATUS name) name)) (pconnection (v2_device b)) =
           Some (memory_of (status_fields st))"
  shows "network_refresh conn b = b\<lparr>v2_bstatus := st, v2_device := (v2_device b)\<lparr>pconnection :=
           after (snd (request_bytes (new_RPC_header RPC_GET_STATUS name) name)) (pconnection (v2_device b))\<rparr>\<rparr>"
  using send_recv_answer [OF assms(1,4)] assms(2,3) deserialize_struct_memory [of "status_fields st" 64 "[]"]
  by (simp add: network_refresh_def request_bytes_eq BatteryStatus_deserialize_def status_of_status_fields)

lemma schedule_answer:
  fixes when_to_set until_when :: nanos
  defines "header n t g w u \<equiv> (new_RPC_header RPC_SET_CURRENT n)\<lparr>rpc_current_mA := t,
           rpc_is_greater_than := (if g then 1 else 0),
           rpc_when_to_set := timepoint_to_c_time w, rpc_until_when := timepoint_to_c_time u\<rparr>"
  assumes "idle (pconnection (v2_device b))" and "nb_remote_name (v2_device b) = name"
    and "answer (snd (request_bytes (header name target gt when_to_set until_when) name))
           (pconnection (v2_device b)) = Some body"
  shows "network_schedule_set_current conn target gt when_to_set until_when b =
    (1, b\<lparr>v2_device := (v2_device b)\<lparr>pconnection :=
       after (snd (request_bytes (header name target gt when_to_set until_when) name)) (pconnection (v2_device b))\<rparr>\<rparr>)"
  using send_recv_answer [OF assms(2,4)] assms(3)
  by (simp add: network_schedule_set_current_def request_bytes_eq header_def Let_def)

end

text \<open>The line to a server answers with what the handler writes.\<close>

definition idle_remote :: "'b remote \<Rightarrow> bool" where
  "idle_remote r \<longleftrightarrow> remote_pipe r = \<lparr>inbound = [], outbound = []\<rparr>"

definition remote_answer :: "RPCRequestHeader \<Rightarrow> 'b v2_calls \<Rightarrow> byte list \<Rightarrow> 'b remote \<Rightarrow> byte list option" where
  "remote_answer junk vt req r =
    (let p = remote_pipe (serve junk vt req r); out = outbound p in
     if inbound p = [] \<and> 4 \<le> length out \<and> length out < 2 ^ 31 \<and>
        take 4 out = le_bytes32 (of_nat (length out - 4))
     then Some (drop 4 out) else None)"

definition remote_after :: "RPCRequestHeader \<Rightarrow> 'b v2_calls \<Rightarrow> byte list \<Rightarrow> 'b remote \<Rightarrow> 'b remote" where
  "remote_after junk vt req r = (serve junk vt req r)\<lparr>remote_pipe := \<lparr>inbound = [], outbound = []\<rparr>\<rparr>"

interpretation rl: request_line "remote_line junk vt" idle_remote "remote_answer junk vt" "remote_after junk vt"
  by unfold_locales
     (auto simp: remote_line_def remote_answer_def remote_after_def idle_remote_def Let_def split: if_splits)

lemma handler_answers:
  assumes "idle_remote r" and "header_int64 h" and "65 + length name < 2 ^ 31"
    and "get_battery name (remote_dir r) = Some rb"
    and "dispatch_request server_line vt name h (remote_pipe r) (remote_dir r) =
           Some (\<lparr>inbound = [], outbound = le_bytes32 (of_nat (length body)) @ body\<rparr>, d')"
    and "length body + 4 < 2 ^ 31"
  shows "remote_answer junk vt (snd (request_bytes h name)) r = Some body \<and>
         remote_after junk vt (snd (request_bytes h name)) r =
           \<lparr>remote_pipe = \<lparr>inbound = [], outbound = []\<rparr>, remote_dir = d'\<rparr>"
proof -
  have "serve junk vt (snd (request_bytes h name)) r =
      \<lparr>remote_pipe = \<lparr>inbound = [], outbound = le_bytes32 (of_nat (length body)) @ body\<rparr>, remote_dir = d'\<rparr>"
    using assms(1,4,5)
    by (simp add: serve_def idle_remote_def handler_on_request [OF assms(2,3)])
  then show ?thesis using assms(6) by (simp add: remote_answer_def remote_after_def)
qed

lemma dispatch_get_status:
  "dispatch_request server_line vt name (new_RPC_header RPC_GET_STATUS n) \<lparr>inbound = [], outbound = []\<rparr> d =
     Some (\<lparr>inbound = [], outbound = le_bytes32 64 @ memory_of (status_fields (fst (call_get_status vt name d)))\<rparr>,
       snd (call_get_status vt name d))"
  by (simp add: dispatch_request_def new_RPC_header_def status_reply_eq server_line_def case_prod_beta)

text \<open>Times lose what is below a millisecond.\<close>

definition floor_ms :: "nanos \<Rightarrow> nanos" where
  "floor_ms t = t - t mod 1000000"

lemma c_time_floor: "0 \<le> t \<Longrightarrow> c_time_to_timepoint (timepoint_to_c_time t) = floor_ms t"
proof -
  assume t: "0 \<le> t"
  have "t - t div 1000000000 * 1000000000 = t mod 1000000000" by (simp add: minus_div_mult_eq_mod)
  moreover have "t mod 1000000000 div 1000000 * 1000000 = t mod 1000000000 - t mod 1000000"
    using minus_mod_eq_div_mult [of "t mod 1000000000" 1000000] by (simp add: mod_mod_cancel)
  ultimately show ?thesis
    using t by (simp add: timepoint_to_c_time_def c_time_to_timepoint_def tdiv_def Let_def floor_ms_def
        minus_mod_eq_div_mult [symmetric])
qed

lemma c_time_in_range:
  assumes "0 \<le> t" and "t < 2 ^ 63"
  shows "ctime_int64 (timepoint_to_c_time t)"
proof -
  have "t div 1000000000 < 2 ^ 63"
    using zdiv_mono2 [of t 1 1000000000] assms by simp
  moreover have "(t mod 1000000000) div 1000000 < 2 ^ 63"
    using zdiv_mono2 [of "t mod 1000000000" 1 1000000] pos_mod_bound [of 1000000000 t] by simp
  moreover have "0 \<le> t div 1000000000" "0 \<le> (t mod 1000000000) div 1000000"
    using assms(1) by (simp_all add: pos_imp_zdiv_nonneg_iff)
  ultimately show ?thesis
    using assms by (simp add: ctime_int64_def in_int64_def timepoint_to_c_time_def tdiv_def Let_def
        minus_div_mult_eq_mod)
qed

section \<open>Properties of remote batteries\<close>

text \<open>
  C39: the status a network battery refreshes to is the status of the remote battery it names: the
  request reaches the handler, the handler asks that battery, the answer comes back unchanged, and
  the line is ready for the next request.
\<close>

theorem network_refresh_mirrors_remote:
  fixes b :: "'b remote network_battery"
  assumes "v2_device b = \<lparr>nb_remote_name = name, pconnection = r\<rparr>" and "idle_remote r"
    and "65 + length name < 2 ^ 31" and "get_battery name (remote_dir r) = Some rb"
    and "call_get_status vt name (remote_dir r) = (st, d')" and "status_int64 st"
  shows "network_refresh (remote_line junk vt) b =
    b\<lparr>v2_bstatus := st, v2_device := \<lparr>nb_remote_name = name,
        pconnection = \<lparr>remote_pipe = \<lparr>inbound = [], outbound = []\<rparr>, remote_dir = d'\<rparr>\<rparr>\<rparr>"
proof -
  have h: "header_int64 (new_RPC_header RPC_GET_STATUS name)"
    using assms(3) by (simp add: header_int64_def ctime_int64_def in_int64_def new_RPC_header_def)
  have "dispatch_request server_line vt name (new_RPC_header RPC_GET_STATUS name) (remote_pipe r) (remote_dir r) =
      Some (\<lparr>inbound = [], outbound = le_bytes32 (of_nat (length (memory_of (status_fields st)))) @
        memory_of (status_fields st)\<rparr>, d')"
    using assms(2,5) dispatch_get_status [of vt name name "remote_dir r"] by (simp add: idle_remote_def)
  from handler_answers [OF assms(2) h assms(3,4) this] show ?thesis
    using rl.refresh_answer [of b name st junk vt] assms(1,2,6) by simp
qed

definition far_server :: "unit remote" where
  "far_server = \<lparr>remote_pipe = \<lparr>inbound = [], outbound = []\<rparr>,
     remote_dir = snd (add_battery (new_PseudoBattery_v2 ''p'' sample_v2_status 1000) new_BOSDirectory)\<rparr>"

definition near_battery :: "unit remote network_battery" where
  "near_battery = new_v2_battery ''n'' V2_Physical 1000 \<lparr>nb_remote_name = ''p'', pconnection = far_server\<rparr>"

abbreviation far_calls :: "unit v2_calls" where
  "far_calls \<equiv> base_calls PseudoBattery_driver (\<lambda>i. 5000000 + int i)"

lemma far_server_facts:
  "v2_device near_battery = \<lparr>nb_remote_name = ''p'', pconnection = far_server\<rparr>"
  "idle_remote far_server" "65 + length ''p'' < 2 ^ 31"
  "get_battery ''p'' (remote_dir far_server) = Some (new_PseudoBattery_v2 ''p'' sample_v2_status 1000)"
  by (simp_all add: near_battery_def new_v2_battery_def idle_remote_def far_server_def get_battery_def add_battery_def
      new_BOSDirectory_def new_PseudoBattery_v2_def map_insert_def has_key_def Let_def)

theorem network_refresh_mirrors_remote_witness:
  "v2_bstatus (network_refresh (remote_line (new_RPC_header RPC_REFRESH []) far_calls) near_battery) = sample_v2_status"
proof -
  have "call_get_status far_calls ''p'' (remote_dir far_server) =
      (sample_v2_status, put_battery ''p'' (new_PseudoBattery_v2 ''p'' sample_v2_status 1000) (remote_dir far_server))"
    by (simp add: base_calls_def far_server_facts(4) v2_get_status_def check_staleness_and_refresh_def
        new_PseudoBattery_v2_def new_v2_battery_def sample_v2_status_def zero_status_def c_time_to_timepoint_def)
  moreover have "status_int64 sample_v2_status"
    by (simp add: status_int64_def ctime_int64_def in_int64_def sample_v2_status_def zero_status_def)
  ultimately show ?thesis
    using network_refresh_mirrors_remote [OF far_server_facts] by simp
qed

text \<open>
  C40: a request made through a network battery has on the server the effect of the same request to
  the remote battery, with the times cut to milliseconds and the flag of the target dropped; the client
  reports success whatever the remote battery answered.
\<close>

theorem network_schedule_reaches_remote:
  fixes b :: "'b remote network_battery"
  assumes "v2_device b = \<lparr>nb_remote_name = name, pconnection = r\<rparr>" and "idle_remote r"
    and "65 + length name < 2 ^ 31" and "get_battery name (remote_dir r) = Some rb"
    and "in_int64 target" and "0 \<le> w" and "w < 2 ^ 63" and "0 \<le> u" and "u < 2 ^ 63"
    and "call_schedule_set_current vt name target False (floor_ms w) (floor_ms u) (remote_dir r) = (verdict, d')"
  shows "network_schedule_set_current (remote_line junk vt) target gt w u b =
    (1, b\<lparr>v2_device := \<lparr>nb_remote_name = name,
          pconnection = \<lparr>remote_pipe = \<lparr>inbound = [], outbound = []\<rparr>, remote_dir = d'\<rparr>\<rparr>\<rparr>)"
proof -
  define h where "h = (new_RPC_header RPC_SET_CURRENT name)\<lparr>rpc_current_mA := target,
           rpc_is_greater_than := (if gt then 1 else 0),
           rpc_when_to_set := timepoint_to_c_time w, rpc_until_when := timepoint_to_c_time u\<rparr>"
  have hh: "header_int64 h"
    using assms(3,5) c_time_in_range [OF assms(6,7)] c_time_in_range [OF assms(8,9)]
    by (simp add: h_def header_int64_def new_RPC_header_def in_int64_def)
  have "dispatch_request server_line vt name h (remote_pipe r) (remote_dir r) =
      Some (\<lparr>inbound = [], outbound = le_bytes32 (of_nat (length (le_bytes32 verdict))) @ le_bytes32 verdict\<rparr>, d')"
    using assms(2,10) c_time_floor [OF assms(6)] c_time_floor [OF assms(8)]
    by (simp add: dispatch_request_def h_def new_RPC_header_def set_current_reply_eq server_line_def idle_remote_def)
  from handler_answers [OF assms(2) hh assms(3,4) this] show ?thesis
    using rl.schedule_answer [where b = b and name = name and junk = junk and vt = vt and target = target
        and gt = gt and when_to_set = w and until_when = u and body = "le_bytes32 verdict"] assms(1,2)
    by (simp add: h_def)
qed

text \<open>At the witness the remote battery refuses a request for the past, and the client reports success.\<close>

theorem network_schedule_reaches_remote_witness:
  "fst (call_schedule_set_current far_calls ''p'' 30 False (floor_ms 4500000) (floor_ms 9000000) (remote_dir far_server)) = 0 \<and>
   fst (network_schedule_set_current (remote_line (new_RPC_header RPC_REFRESH []) far_calls) 30 True 4500000 9000000 near_battery) = 1"
proof -
  let ?call = "call_schedule_set_current far_calls ''p'' 30 False (floor_ms 4500000) (floor_ms 9000000) (remote_dir far_server)"
  have "fst ?call = 0"
    by (simp add: base_calls_def far_server_facts(4) v2_schedule_set_current_def floor_ms_def)
  moreover have "?call = (fst ?call, snd ?call)" by simp
  from network_schedule_reaches_remote [OF far_server_facts _ _ _ _ _ this, of "new_RPC_header RPC_REFRESH []" True]
  have "fst (network_schedule_set_current (remote_line (new_RPC_header RPC_REFRESH []) far_calls) 30 True 4500000 9000000 near_battery) = 1"
    by (simp add: in_int64_def)
  ultimately show ?thesis by simp
qed

lemma dispatch_writes_frame:
  assumes "dispatch_request server_line vt name h p d = Some (p', d')"
  shows "\<exists>body. length body \<in> {4, 64} \<and>
    p' = p\<lparr>outbound := outbound p @ le_bytes32 (of_nat (length body)) @ body\<rparr>"
proof -
  obtain body where "p' = p\<lparr>outbound := outbound p @ le_bytes32 (of_nat (length body)) @ body\<rparr>" "length body \<in> {4, 64}"
    using assms that [of "memory_of (status_fields (fst (call_get_status vt name d)))"] that [of "le_bytes32 r" for r]
    by (auto simp: dispatch_request_def server_line_def status_reply_eq set_current_reply_eq case_prod_beta
        split: if_splits)
  then show ?thesis by blast
qed

lemma server_line_simps [simp]:
  "conn_read server_line n p = (take n (inbound p), p\<lparr>inbound := drop n (inbound p)\<rparr>)"
  "conn_flush server_line p = p\<lparr>inbound := []\<rparr>"
  by (simp_all add: server_line_def)

text \<open>
  The handler answers or refuses, never both: on any bytes it returns one of its six codes; with
  a refusal the directory is untouched, nothing is written and the rest of the input is gone; with
  success exactly one answer has been written, framed by its length.
\<close>

theorem handler_answers_or_refuses:
  fixes d :: "'b v2_directory"
  assumes "connection_handler junk server_line vt p d = (code, p', d')"
  shows "code \<in> {0, - 1, - 2, - 3, - 4, - 5} \<and>
    (code \<noteq> 0 \<longrightarrow> d' = d \<and> p' = p\<lparr>inbound := []\<rparr>) \<and>
    (code = 0 \<longrightarrow> (\<exists>body. length body \<in> {4, 64} \<and>
       outbound p' = outbound p @ le_bytes32 (of_nat (length body)) @ body)) \<and>
    (code = - 5 \<longleftrightarrow> length (inbound p) < 4)"
proof (cases "length (inbound p) < 4")
  case True
  then show ?thesis using assms by (auto simp: connection_handler_def)
next
  case False
  then show ?thesis
    using assms dispatch_writes_frame
    by (fastforce simp: connection_handler_def Let_def split: if_splits option.splits prod.splits)
qed

theorem handler_answers_or_refuses_witness:
  "fst (connection_handler (new_RPC_header RPC_REFRESH []) server_line far_calls
      \<lparr>inbound = [1, 2], outbound = []\<rparr> (remote_dir far_server)) = - 5"
proof -
  obtain code p' d' where run: "connection_handler (new_RPC_header RPC_REFRESH []) server_line far_calls
      \<lparr>inbound = [1, 2], outbound = []\<rparr> (remote_dir far_server) = (code, p', d')"
    by (metis prod_cases3)
  with handler_answers_or_refuses [OF run] show ?thesis by simp
qed

lemma no_data_no_header: "RPCRequestHeader_deserialize junk [] 0 = (0, junk)"
  by (simp add: RPCRequestHeader_deserialize_def deserialize_struct_as_int_def)

lemma turn_on_accepted:
  assumes "connection_handler junk server_line vt p d = (0, p', d')"
  shows "remote_server_turn junk server_line vt p d = Inr (Some (p', d'))"
proof -
  obtain len_buf c1 data c2 n h where
      reads: "conn_read server_line 4 p = (len_buf, c1)"
        "conn_read server_line (nat (sint (deserialize_int len_buf 0 :: 32 word))) c1 = (data, c2)"
        "RPCRequestHeader_deserialize junk data (length data) = (n, h)"
    by (metis surj_pair)
  with assms have acc: "length len_buf = 4" "(deserialize_int len_buf 0 :: 32 word) \<noteq> 0" "n = 64"
      "get_battery (request_name n data) d \<noteq> None"
      "dispatch_request server_line vt (request_name n data) h c2 d = Some (p', d')"
    by (auto simp: connection_handler_def Let_def simp del: server_line_simps split: if_splits option.splits prod.splits)
  then have "data \<noteq> []" using reads(3) no_data_no_header [of junk] by auto
  with reads acc show ?thesis by (auto simp: remote_server_turn_def Let_def simp del: server_line_simps)
qed

lemma turn_on_unknown:
  assumes "header_int64 h" and "65 + length name < 2 ^ 31"
    and "inbound p = snd (request_bytes h name)"
    and "rpc_func h \<in> rpc_id ` UNIV" and "get_battery name d = None"
  shows "remote_server_turn junk server_line vt p d = Inl Null_deref"
proof -
  have "rpc_func h \<in> {rpc_id RPC_REFRESH, rpc_id RPC_GET_STATUS, rpc_id RPC_SET_CURRENT}"
    using assms(4) by (metis (full_types) RPCFunctionID.exhaust imageE insertCI)
  then show ?thesis
    using assms length_bytes_int [OF assms(2)] length_bytes_pos [OF _ assms(2), simplified]
      header_of_frame [OF assms(1)]
    by (simp add: remote_server_turn_def request_bytes_eq name_of_frame Let_def)
qed

text \<open>
  The loop of the first server treats the requests that the handler accepts as the handler does;
  where the handler refuses a short length it reads outside the vector, and where the handler refuses
  the name of an unknown battery it calls through a null pointer.
\<close>

theorem first_server_agrees_or_faults:
  fixes d :: "'b v2_directory"
  assumes "connection_handler junk server_line vt p d = (code, p', d')"
  shows "(code = 0 \<longrightarrow> remote_server_turn junk server_line vt p d = Inr (Some (p', d'))) \<and>
    (code = - 5 \<longrightarrow> remote_server_turn junk server_line vt p d = Inl Bad_index) \<and>
    (code = - 2 \<longrightarrow> remote_server_turn junk server_line vt p d = Inr None) \<and>
    (\<forall>h name. header_int64 h \<and> 65 + length name < 2 ^ 31 \<and> inbound p = snd (request_bytes h name) \<and>
       rpc_func h \<in> rpc_id ` UNIV \<and> code = - 1 \<longrightarrow>
       remote_server_turn junk server_line vt p d = Inl Null_deref)"
proof (cases "length (inbound p) < 4")
  case True
  then show ?thesis
    using assms by (auto simp: connection_handler_def remote_server_turn_def request_bytes_eq)
next
  case False
  have "code = 0 \<Longrightarrow> remote_server_turn junk server_line vt p d = Inr (Some (p', d'))"
    using assms turn_on_accepted by blast
  moreover have "code = - 2 \<Longrightarrow> remote_server_turn junk server_line vt p d = Inr None"
    using assms False
    by (auto simp: connection_handler_def remote_server_turn_def Let_def split: if_splits option.splits prod.splits)
  moreover have "code \<noteq> - 5"
    using assms False
    by (auto simp: connection_handler_def Let_def split: if_splits option.splits prod.splits)
  moreover have "remote_server_turn junk server_line vt p d = Inl Null_deref"
    if "header_int64 h" "65 + length name < 2 ^ 31" "inbound p = snd (request_bytes h name)"
      "rpc_func h \<in> rpc_id ` UNIV" "code = - 1" for h name
    using that assms by (intro turn_on_unknown) (auto simp: handler_on_request split: option.splits prod.splits)
  ultimately show ?thesis by blast
qed

theorem first_server_agrees_or_faults_witness:
  "remote_server_turn (new_RPC_header RPC_REFRESH []) server_line far_calls
     \<lparr>inbound = snd (request_bytes (new_RPC_header RPC_GET_STATUS ''q'') ''q''), outbound = []\<rparr> (remote_dir far_server) =
   Inl Null_deref"
proof -
  let ?h = "new_RPC_header RPC_GET_STATUS ''q''" and ?d = "remote_dir far_server"
  let ?p = "\<lparr>inbound = snd (request_bytes ?h ''q''), outbound = []\<rparr>"
  have h: "header_int64 ?h" "65 + length ''q'' < 2 ^ 31" "rpc_func ?h \<in> rpc_id ` UNIV"
    by (simp_all add: header_int64_def ctime_int64_def in_int64_def new_RPC_header_def) (metis rangeI rpc_id.simps(2))
  have "get_battery ''q'' ?d = None"
    by (simp add: far_server_def get_battery_def add_battery_def new_BOSDirectory_def new_PseudoBattery_v2_def
        new_v2_battery_def map_insert_def has_key_def Let_def)
  then have "connection_handler (new_RPC_header RPC_REFRESH []) server_line far_calls ?p ?d =
      (- 1, ?p\<lparr>inbound := []\<rparr>, ?d)"
    by (subst handler_on_request [OF h(1,2)]) simp_all
  from first_server_agrees_or_faults [OF this] h show ?thesis by fastforce
qed

lemma stream_fill_length:
  "stream_fill calls n data pending = Inr (data', rest, calls') \<Longrightarrow> length data \<le> n \<Longrightarrow> length data' = n"
  by (induction calls arbitrary: data pending) (fastforce simp: Let_def split: if_splits)+

lemma stream_fill_bytes:
  "\<forall>c \<in> set calls. 1 \<le> c \<Longrightarrow> n - length data \<le> length calls \<Longrightarrow> n \<le> length (data @ pending) \<Longrightarrow>
     length data \<le> n \<Longrightarrow>
     \<exists>calls'. stream_fill calls n data pending =
       Inr (take n (data @ pending), drop (n - length data) pending, calls')"
proof (induction calls arbitrary: data pending)
  case (Cons c cs)
  define k where "k = min (nat c) (min (n - length data) (length pending))"
  show ?case
  proof (cases "length data < n")
    case True
    then have k: "1 \<le> k" "k \<le> length pending" "k \<le> n - length data"
      using Cons.prems by (auto simp: k_def)
    with Cons.prems have "\<exists>calls'. stream_fill cs n (data @ take k pending) (drop k pending) =
        Inr (take n ((data @ take k pending) @ drop k pending),
             drop (n - length (data @ take k pending)) (drop k pending), calls')"
      by (intro Cons.IH) auto
    moreover have "n - length (data @ take k pending) + k = n - length data" using k by auto
    ultimately show ?thesis using True Cons.prems(1) by (simp add: Let_def k_def [symmetric])
  qed (use Cons.prems in simp)
qed simp

text \<open>
  A stream read returns exactly the bytes asked for when the system calls move data; and whatever
  it returns has the full size, so that after a failed call the missing bytes are zeros and the
  callers' tests of the size cannot see it.
\<close>

theorem stream_read_full_size:
  assumes "0 < n"
  shows "(\<forall>data rest calls'. stream_read calls n pending = Inr (data, rest, calls') \<longrightarrow> length data = nat n) \<and>
    (nat n \<le> length pending \<and> nat n \<le> length calls \<and> (\<forall>c \<in> set calls. 1 \<le> c) \<longrightarrow>
       (\<exists>calls'. stream_read calls n pending = Inr (take (nat n) pending, drop (nat n) pending, calls')))"
  using assms stream_fill_length [of calls "nat n" "[]" pending] stream_fill_bytes [of calls "nat n" "[]" pending]
  by (auto simp: stream_read_def)

theorem stream_read_full_size_witness:
  "\<exists>calls'. stream_read [1, 5] 2 [7, 8, 9] = Inr ([7, 8], [9], calls')"
  using stream_read_full_size [of 2 "[1, 5]" "[7, 8, 9]"] by (simp add: numeral_2_eq_2)

end
