(* ===== verification/V2_Splitter.thy ===== *)
theory V2_Splitter
  imports V2_Directory
begin

text \<open>
  The splitter policy of BatteryOS-V2 (\<open>BALSplitter.hpp\<close>) and the batteries it serves
  (\<open>SplittedBattery.hpp\<close>): the scales, the constructor, the bookkeeping of the children's currents
  and the scheduling of a child, which is forwarded to the source as the sum of all children.

  The policy is a battery whose device part is the record \<open>splitter\<close>. The vectors are lists of the
  same length; an index outside them is the fault \<open>Bad_index\<close>. The source is an argument: its
  status, and its \<open>schedule_set_current\<close> as a function over the state it changes.
\<close>

section \<open>Scales\<close>

record v2_scale =
  sc_capacity :: real
  sc_max_capacity :: real
  sc_max_discharge_rate :: real
  sc_max_charge_rate :: real

definition within_01_range :: "real \<Rightarrow> bool" where
  "within_01_range num \<longleftrightarrow> 0 \<le> num \<and> num \<le> 1"

definition mk_scale :: "real \<Rightarrow> real \<Rightarrow> real \<Rightarrow> real \<Rightarrow> v2_scale" where
  "mk_scale soc max_cap dis chg =
    (if \<not> (within_01_range soc \<and> within_01_range max_cap \<and> within_01_range dis \<and> within_01_range chg)
     then \<lparr>sc_capacity = 0, sc_max_capacity = 0, sc_max_discharge_rate = 0, sc_max_charge_rate = 0\<rparr>
     else \<lparr>sc_capacity = soc, sc_max_capacity = max_cap, sc_max_discharge_rate = dis, sc_max_charge_rate = chg\<rparr>)"

definition scale_of :: "real \<Rightarrow> v2_scale" where
  "scale_of p =
    (if \<not> within_01_range p
     then \<lparr>sc_capacity = 0, sc_max_capacity = 0, sc_max_discharge_rate = 0, sc_max_charge_rate = 0\<rparr>
     else \<lparr>sc_capacity = p, sc_max_capacity = p, sc_max_discharge_rate = p, sc_max_charge_rate = p\<rparr>)"

definition scale_minus :: "v2_scale \<Rightarrow> v2_scale \<Rightarrow> v2_scale" where
  "scale_minus a b =
    (if sc_capacity a \<ge> sc_capacity b \<and> sc_max_capacity a \<ge> sc_max_capacity b \<and>
        sc_max_discharge_rate a \<ge> sc_max_discharge_rate b \<and> sc_max_charge_rate a \<ge> sc_max_charge_rate b
     then mk_scale (sc_capacity a - sc_capacity b) (sc_max_capacity a - sc_max_capacity b)
            (sc_max_discharge_rate a - sc_max_discharge_rate b) (sc_max_charge_rate a - sc_max_charge_rate b)
     else scale_of 0)"

text \<open>The last test takes the comparison itself, 0 or 1, for the number to test.\<close>

definition scale_plus :: "v2_scale \<Rightarrow> v2_scale \<Rightarrow> v2_scale" where
  "scale_plus a b =
    (if within_01_range (sc_capacity a + sc_capacity b) \<and>
        within_01_range (sc_max_capacity a + sc_max_capacity b) \<and>
        within_01_range (sc_max_discharge_rate a + sc_max_discharge_rate b) \<and>
        within_01_range (if sc_max_charge_rate a \<ge> sc_max_charge_rate b then 1 else 0)
     then mk_scale (sc_capacity a + sc_capacity b) (sc_max_capacity a + sc_max_capacity b)
            (sc_max_discharge_rate a + sc_max_discharge_rate b) (sc_max_charge_rate a + sc_max_charge_rate b)
     else scale_of 0)"

definition DBL_EQUAL :: "real \<Rightarrow> real \<Rightarrow> bool" where
  "DBL_EQUAL a b \<longleftrightarrow> \<bar>a - b\<bar> < 1 / 2 ^ 52"

definition is_zero :: "v2_scale \<Rightarrow> bool" where
  "is_zero s \<longleftrightarrow> DBL_EQUAL (sc_capacity s) 0 \<or> DBL_EQUAL (sc_max_capacity s) 0 \<or>
     DBL_EQUAL (sc_max_discharge_rate s) 0 \<or> DBL_EQUAL (sc_max_charge_rate s) 0"

definition is_one :: "v2_scale \<Rightarrow> bool" where
  "is_one s \<longleftrightarrow> DBL_EQUAL (sc_capacity s) 1 \<and> DBL_EQUAL (sc_max_capacity s) 1 \<and>
     DBL_EQUAL (sc_max_discharge_rate s) 1 \<and> DBL_EQUAL (sc_max_charge_rate s) 1"

section \<open>The policy\<close>

datatype BALSplitterType = Proportional | Tranche | Reservation | Unknown_policy

record splitter =
  src_name :: string
  policy_type :: BALSplitterType
  split_names :: "string list"
  child_scales :: "v2_scale list"
  child_original_status :: "v2_status list"
  children_current_now :: "int list"
  children_last_charge_estimate_timepoint :: "nanos list"
  children_estimated_charge_now :: "real list"
  children_status_now :: "v2_status list"
  name_lookup :: "(string \<times> nat) list"

text \<open>The product of an \<open>int64_t\<close> and a \<open>double\<close>, stored in an \<open>int64_t\<close>.\<close>

definition scaled :: "int \<Rightarrow> real \<Rightarrow> int" where
  "scaled n p = to_int64 (of_int n * p)"

definition initial_child_status :: "v2_status \<Rightarrow> v2_scale \<Rightarrow> v2_status" where
  "initial_child_status source_status sc =
    \<lparr>v2_voltage_mV = v2_voltage_mV source_status, v2_current_mA = 0,
     v2_capacity_mAh = scaled (v2_capacity_mAh source_status) (sc_capacity sc),
     v2_max_capacity_mAh = scaled (v2_max_capacity_mAh source_status) (sc_max_capacity sc),
     v2_max_charging_current_mA = scaled (v2_max_charging_current_mA source_status) (sc_max_charge_rate sc),
     v2_max_discharging_current_mA =
       scaled (v2_max_discharging_current_mA source_status) (sc_max_discharge_rate sc),
     v2_timestamp = v2_timestamp source_status\<rparr>"

text \<open>A later child of the same name takes over the entry of the earlier one.\<close>

definition lookup_table :: "string list \<Rightarrow> (string \<times> nat) list" where
  "lookup_table names =
     fold (\<lambda>i m. map_update (names ! i) (\<lambda>_. i) (map_insert (<) (names ! i) 0 m)) [0..<length names] []"

definition new_BALSplitter ::
  "string \<Rightarrow> string \<Rightarrow> string list \<Rightarrow> v2_scale list \<Rightarrow> BALSplitterType \<Rightarrow> int \<Rightarrow> v2_status \<Rightarrow> nanos \<Rightarrow>
   splitter v2_battery" where
  "new_BALSplitter policy_name src names scales ty staleness source_status now =
    (let n = length names; sts = map (initial_child_status source_status) (take n scales) in
     new_v2_battery policy_name V2_BALSplitter staleness
       \<lparr>src_name = src, policy_type = ty, split_names = names, child_scales = scales,
        child_original_status = sts, children_current_now = replicate n 0,
        children_last_charge_estimate_timepoint = replicate n now,
        children_estimated_charge_now =
          map (\<lambda>sc. of_int (v2_capacity_mAh source_status) * sc_capacity sc) (take n scales),
        children_status_now = sts, name_lookup = lookup_table names\<rparr>)"

definition hours_between :: "nanos \<Rightarrow> nanos \<Rightarrow> real" where
  "hours_between t0 t1 = of_int (t1 - t0) / 3600000000000"

definition charge_estimate :: "nanos \<Rightarrow> nat \<Rightarrow> splitter \<Rightarrow> splitter" where
  "charge_estimate now i sp =
     sp\<lparr>children_estimated_charge_now := (children_estimated_charge_now sp)
          [i := children_estimated_charge_now sp ! i -
                of_int (children_current_now sp ! i) *
                hours_between (children_last_charge_estimate_timepoint sp ! i) now],
        children_last_charge_estimate_timepoint :=
          (children_last_charge_estimate_timepoint sp)[i := now]\<rparr>"

definition BALSplitter_set_current ::
  "nanos \<Rightarrow> int \<Rightarrow> bool \<Rightarrow> nat \<Rightarrow> splitter v2_battery \<Rightarrow> splitter v2_battery outcome" where
  "BALSplitter_set_current now c gt child_id b =
    (let sp = v2_device b in
     if child_id \<ge> length (children_current_now sp) then Inl Bad_index
     else Inr (b\<lparr>v2_device := (charge_estimate now child_id sp)\<lparr>
            children_current_now := (children_current_now sp)[child_id := c]\<rparr>\<rparr>))"

text \<open>The status of a child; in lazy mode the policy first refreshes itself, as every battery does.\<close>

definition get_status_of ::
  "splitter v2_driver \<Rightarrow> nanos \<Rightarrow> string \<Rightarrow> splitter v2_battery \<Rightarrow> (v2_status \<times> splitter v2_battery) outcome" where
  "get_status_of drv now child_name b =
    (case map_of (name_lookup (v2_device b)) child_name of
       None \<Rightarrow> Inr (v2_bstatus b, b)
     | Some child_id \<Rightarrow>
         (let b' = (case refresh_mode b of
                      V2_ACTIVE \<Rightarrow> b
                    | V2_LAZY \<Rightarrow> snd (check_staleness_and_refresh drv now b)) in
          if child_id < length (children_status_now (v2_device b'))
          then Inr (children_status_now (v2_device b') ! child_id, b') else Inl Bad_index))"

section \<open>Scheduling a child\<close>

text \<open>
  Both previews of the queue: up to a limit, the currents of the children, and the events of the
  child inside the interval. The rest of the queue is where the second preview goes on.
\<close>

primrec preview_children ::
  "nanos \<Rightarrow> nat \<Rightarrow> nanos \<Rightarrow> nanos \<Rightarrow> v2_queue \<Rightarrow> v2_event list \<Rightarrow> int list \<Rightarrow>
   (v2_queue \<times> v2_event list \<times> int list) outcome" where
  "preview_children limit c w u [] rm cur = Inr ([], rm, cur)"
| "preview_children limit c w u (e # es) rm cur =
    (if ev_timepoint e > limit then Inr (e # es, rm, cur)
     else if ev_func e = V2_REFRESH then preview_children limit c w u es rm cur
     else if ev_other_data e \<ge> length cur then Inl Bad_index
     else preview_children limit c w u es
       (if ev_other_data e = c \<and> w \<le> ev_timepoint e \<and> ev_timepoint e \<le> u then rm @ [e] else rm)
       (cur[ev_other_data e := ev_current_mA e]))"

definition child_request_refused :: "int \<Rightarrow> v2_status \<Rightarrow> bool" where
  "child_request_refused target st \<longleftrightarrow>
     target \<ge> 0 \<and> target > v2_max_discharging_current_mA st \<or>
     target < 0 \<and> - target > v2_max_charging_current_mA st"

definition enqueue_child ::
  "nanos \<Rightarrow> nanos \<Rightarrow> nat \<Rightarrow> int \<Rightarrow> int \<Rightarrow> bool \<Rightarrow> nanos \<Rightarrow> nanos \<Rightarrow> v2_event list \<Rightarrow>
   splitter v2_battery \<Rightarrow> splitter v2_battery" where
  "enqueue_child added1 added2 c target resume gt w u rm b =
    (let (n1, b1) = next_sequence_number (b\<lparr>event_queue := fold q_erase rm (event_queue b)\<rparr>);
         b2 = b1\<lparr>event_queue := q_insert (set_event w added1 n1 V2_SET_CURRENT target gt c) (event_queue b1)\<rparr>;
         (n2, b3) = next_sequence_number b2
     in b3\<lparr>event_queue := q_insert (set_event u added2 n2 V2_SET_CURRENT_END resume gt c) (event_queue b3)\<rparr>)"

definition schedule_set_current_of ::
  "(int \<Rightarrow> bool \<Rightarrow> nanos \<Rightarrow> nanos \<Rightarrow> 'w \<Rightarrow> bool \<times> 'w) \<Rightarrow> (nat \<Rightarrow> nanos) \<Rightarrow> string \<Rightarrow> int \<Rightarrow> bool \<Rightarrow>
   nanos \<Rightarrow> nanos \<Rightarrow> splitter v2_battery \<Rightarrow> 'w \<Rightarrow> (bool \<times> splitter v2_battery \<times> 'w) outcome" where
  "schedule_set_current_of sched clock child_name target gt w u b src =
    (if w < clock 0 then Inr (False, b, src)
     else (case map_of (name_lookup (v2_device b)) child_name of
       None \<Rightarrow> Inr (False, b, src)
     | Some c \<Rightarrow>
         if c \<ge> length (children_status_now (v2_device b)) then Inl Bad_index
         else if child_request_refused target (children_status_now (v2_device b) ! c) then Inr (False, b, src)
         else
           obind (preview_children w c w u (event_queue b) [] (children_current_now (v2_device b)))
             (\<lambda>(rest, rm, cur).
              if c \<ge> length cur then Inl Bad_index
              else
                (let child_current_backup = cur ! c;
                     total = sum_list (cur[c := target])
                 in obind (preview_children u c w u rest rm (cur[c := child_current_backup]))
                      (\<lambda>(_, rm', cur').
                       let b' = enqueue_child (clock 1) (clock 2) c target (cur' ! c) gt w u rm' b;
                           (ok, src') = sched total gt w u src
                       in Inr (ok, b', src'))))))"

section \<open>The children\<close>

record splitted =
  attached_policy :: "string option"

definition new_SplittedBattery :: "string \<Rightarrow> int \<Rightarrow> splitted v2_battery" where
  "new_SplittedBattery name sample_period = new_v2_battery name V2_Splitted sample_period \<lparr>attached_policy = None\<rparr>"

text \<open>The status a policy holds for the child is an argument, as is the kind of the named battery.\<close>

definition SplittedBattery_refresh ::
  "(string \<Rightarrow> string \<Rightarrow> v2_status) \<Rightarrow> splitted v2_battery \<Rightarrow> splitted v2_battery" where
  "SplittedBattery_refresh status_of b =
    (case attached_policy (v2_device b) of
       None \<Rightarrow> b
     | Some p \<Rightarrow> b\<lparr>v2_bstatus := status_of p (v2_name b)\<rparr>)"

definition SplittedBattery_set_current :: "int \<Rightarrow> bool \<Rightarrow> splitted v2_battery \<Rightarrow> bool outcome" where
  "SplittedBattery_set_current target gt b = Inl Process_exit"

definition attach_to_policy ::
  "(string \<Rightarrow> v2_type option) \<Rightarrow> (string \<Rightarrow> string \<Rightarrow> v2_status) \<Rightarrow> string \<Rightarrow> splitted v2_battery \<Rightarrow>
   bool \<times> splitted v2_battery" where
  "attach_to_policy type_of status_of policy b =
    (case type_of policy of
       None \<Rightarrow> (False, b)
     | Some ty \<Rightarrow>
         if ty \<noteq> V2_BALSplitter then (False, b)
         else (True, b\<lparr>v2_device := \<lparr>attached_policy = Some policy\<rparr>, v2_bstatus := status_of policy (v2_name b)\<rparr>))"

text \<open>The request goes to the policy under the name of the child.\<close>

definition SplittedBattery_schedule ::
  "(string \<Rightarrow> string \<Rightarrow> int \<Rightarrow> bool \<Rightarrow> nanos \<Rightarrow> nanos \<Rightarrow> 'w \<Rightarrow> (bool \<times> 'w) outcome) \<Rightarrow> int \<Rightarrow> bool \<Rightarrow>
   nanos \<Rightarrow> nanos \<Rightarrow> splitted v2_battery \<Rightarrow> 'w \<Rightarrow> (bool \<times> 'w) outcome" where
  "SplittedBattery_schedule policy_schedule target gt w u b world =
    (case attached_policy (v2_device b) of
       None \<Rightarrow> Inr (False, world)
     | Some p \<Rightarrow> policy_schedule p (v2_name b) target gt w u world)"

section \<open>Scales add up or vanish\<close>

text \<open>The constructor repeats the range test, so the misplaced parenthesis has no effect on the sum.\<close>

lemma scale_plus_spec:
  "scale_plus a b =
    (if within_01_range (sc_capacity a + sc_capacity b) \<and>
        within_01_range (sc_max_capacity a + sc_max_capacity b) \<and>
        within_01_range (sc_max_discharge_rate a + sc_max_discharge_rate b) \<and>
        within_01_range (sc_max_charge_rate a + sc_max_charge_rate b)
     then \<lparr>sc_capacity = sc_capacity a + sc_capacity b, sc_max_capacity = sc_max_capacity a + sc_max_capacity b,
           sc_max_discharge_rate = sc_max_discharge_rate a + sc_max_discharge_rate b,
           sc_max_charge_rate = sc_max_charge_rate a + sc_max_charge_rate b\<rparr>
     else scale_of 0)"
proof -
  have "within_01_range (if sc_max_charge_rate a \<ge> sc_max_charge_rate b then 1 else 0)"
    by (simp add: within_01_range_def)
  then show ?thesis by (auto simp: scale_plus_def mk_scale_def scale_of_def within_01_range_def)
qed

section \<open>What the policy promises of each child\<close>

definition on_child :: "nat \<Rightarrow> v2_event \<Rightarrow> bool" where
  "on_child k e \<longleftrightarrow> ev_other_data e = k"

definition children_count :: "splitter v2_battery \<Rightarrow> nat" where
  "children_count b = length (children_current_now (v2_device b))"

definition child_profile :: "splitter v2_battery \<Rightarrow> nat \<Rightarrow> nanos \<Rightarrow> int" where
  "child_profile b k t =
     last_by ev_current_mA (filter (active t) (filter (on_child k) (event_queue b)))
       (children_current_now (v2_device b) ! k)"

definition total_profile :: "splitter v2_battery \<Rightarrow> nanos \<Rightarrow> int" where
  "total_profile b t = (\<Sum>k<children_count b. child_profile b k t)"

definition split_inv :: "splitter v2_battery \<Rightarrow> bool" where
  "split_inv b \<longleftrightarrow> v2_inv b \<and> length (children_status_now (v2_device b)) = children_count b \<and>
     (\<forall>e \<in> set (event_queue b). ev_func e \<noteq> V2_REFRESH \<longrightarrow> ev_other_data e < children_count b) \<and>
     (\<forall>c \<in> ran (map_of (name_lookup (v2_device b))). c < children_count b)"

lemma last_by_append: "last_by f (xs @ ys) v = last_by f ys (last_by f xs v)"
  by (simp add: last_by_def)

lemma preview_children_spec:
  assumes "sorted_wrt v2_event_less q"
    and "\<forall>e \<in> set q. ev_func e \<noteq> V2_REFRESH \<longrightarrow> ev_other_data e < length cur"
  shows "\<exists>cur'. preview_children limit c w u q rm cur =
      Inr (filter (\<lambda>e. limit < ev_timepoint e) q,
           rm @ filter (\<lambda>e. on_child c e \<and> active limit e \<and> w \<le> ev_timepoint e \<and> ev_timepoint e \<le> u) q, cur') \<and>
      length cur' = length cur \<and>
      (\<forall>k < length cur. cur' ! k = last_by ev_current_mA (filter (active limit) (filter (on_child k) q)) (cur ! k))"
  using assms
proof (induction q arbitrary: rm cur)
  case Nil
  then show ?case by (simp add: last_by_def)
next
  case (Cons e q)
  show ?case
  proof (cases "ev_timepoint e > limit")
    case True
    then have late: "\<forall>e' \<in> set (e # q). limit < ev_timepoint e'"
      using Cons.prems(1) v2_less_imp by fastforce
    then have "filter (\<lambda>e. limit < ev_timepoint e) (e # q) = e # q" by (intro filter_True)
    moreover have "\<forall>e' \<in> set (e # q). \<not> active limit e'" using late by (auto simp: active_def)
    then have "filter (active limit) (filter (on_child k) (e # q)) = []"
      "filter (\<lambda>e. on_child c e \<and> active limit e \<and> w \<le> ev_timepoint e \<and> ev_timepoint e \<le> u) (e # q) = []" for k
      by (auto simp: filter_empty_conv)
    ultimately show ?thesis using True by (simp add: last_by_def del: filter.simps)
  next
    case False
    let ?cur = "if ev_func e = V2_REFRESH then cur else cur[ev_other_data e := ev_current_mA e]"
    let ?rm = "if ev_func e \<noteq> V2_REFRESH \<and> ev_other_data e = c \<and> w \<le> ev_timepoint e \<and> ev_timepoint e \<le> u
               then rm @ [e] else rm"
    have step: "preview_children limit c w u (e # q) rm cur = preview_children limit c w u q ?rm ?cur"
      using False Cons.prems(2) by (auto simp: not_le)
    obtain cur' where IH: "preview_children limit c w u q ?rm ?cur =
        Inr (filter (\<lambda>e. limit < ev_timepoint e) q,
          ?rm @ filter (\<lambda>e. on_child c e \<and> active limit e \<and> w \<le> ev_timepoint e \<and> ev_timepoint e \<le> u) q, cur')"
        "length cur' = length ?cur"
        "\<forall>k < length ?cur. cur' ! k = last_by ev_current_mA (filter (active limit) (filter (on_child k) q)) (?cur ! k)"
      using Cons.IH [of ?cur ?rm] Cons.prems by force
    have "cur' ! k = last_by ev_current_mA (filter (active limit) (filter (on_child k) (e # q))) (cur ! k)"
      if "k < length cur" for k
      using IH(3) that False Cons.prems(2)
      by (auto simp: active_def on_child_def last_by_def nth_list_update)
    with step IH False show ?thesis by (auto simp: active_def on_child_def)
  qed
qed

lemma sum_list_update_sum:
  "c < length xs \<Longrightarrow> sum_list (xs[c := v :: int]) = (\<Sum>k<length xs. if k = c then v else xs ! k)"
  by (auto simp: sum_list_sum_nth nth_list_update lessThan_atLeast0 intro!: sum.cong)

lemma enqueue_child_simps:
  "enqueue_child a1 a2 c target resume gt w u rm b =
     b\<lparr>event_queue := q_insert (set_event u a2 (current_sequence_number b + 1) V2_SET_CURRENT_END resume gt c)
         (q_insert (set_event w a1 (current_sequence_number b) V2_SET_CURRENT target gt c)
           (fold q_erase rm (event_queue b))),
       current_sequence_number := current_sequence_number b + 2\<rparr>"
  by (simp add: enqueue_child_def next_sequence_number_def)

lemma enqueue_child_profile:
  fixes b :: "splitter v2_battery" and c k :: nat and w u t a1 a2 :: nanos and target :: int and gt :: bool
  defines "q \<equiv> event_queue b"
  defines "rm \<equiv> filter (\<lambda>e. on_child c e \<and> active u e \<and> w \<le> ev_timepoint e) q"
  defines "b' \<equiv> enqueue_child a1 a2 c target (child_profile b c u) gt w u rm b"
  assumes inv: "split_inv b" and c: "c < children_count b" and "w < u"
    and seq: "unat (current_sequence_number b) + 2 < 2 ^ 64"
  shows "split_inv b'" and "children_count b' = children_count b"
    and "child_profile b' k t = (if k = c \<and> w \<le> t \<and> t < u then target else child_profile b k t)"
proof -
  define n where "n = current_sequence_number b"
  define bg where "bg = set_event w a1 n V2_SET_CURRENT target gt c"
  define en where "en = set_event u a2 (n + 1) V2_SET_CURRENT_END (child_profile b c u) gt c"
  define q' where "q' = q_insert en (q_insert bg (fold q_erase rm q))"
  have q: "sorted_wrt v2_event_less q"
    and low: "\<forall>e \<in> set q. ev_func e \<noteq> V2_REFRESH \<longrightarrow> ev_sequence_number e < n"
    using inv by (auto simp: split_inv_def v2_inv_def q_def n_def)
  have n: "n < n + 1" "n < n + 2" "n + 1 < n + 2"
    using seq by (simp_all add: n_def word_less_nat_alt unat_word_ariths)
  have rm: "set rm \<subseteq> set q" by (auto simp: rm_def)
  have fresh: "\<forall>e \<in> set q. ev_func e \<noteq> V2_REFRESH \<longrightarrow>
      ev_sequence_number e \<noteq> n \<and> ev_sequence_number e \<noteq> n + 1"
    using low n by auto
  note ins = interval_insert [OF q rm \<open>w < u\<close> fresh, where ?a1.0 = a1 and target = target and gt = gt
      and k = c and ?a2.0 = a2 and c = "child_profile b c u" and g = gt, folded bg_def en_def, folded q'_def]
  have b': "b' = b\<lparr>event_queue := q', current_sequence_number := n + 2\<rparr>"
    by (simp add: b'_def enqueue_child_simps q'_def bg_def en_def n_def q_def)
  have evs: "ev_func bg = V2_SET_CURRENT" "ev_func en = V2_SET_CURRENT_END" "ev_timepoint bg = w"
      "ev_timepoint en = u" "on_child k bg \<longleftrightarrow> k = c" "on_child k en \<longleftrightarrow> k = c"
      "ev_current_mA bg = target" "ev_current_mA en = child_profile b c u"
      "ev_other_data bg = c" "ev_other_data en = c" for k
    by (auto simp: bg_def en_def set_event_def on_child_def)
  show "children_count b' = children_count b" by (simp add: b' children_count_def)
  show "split_inv b'"
    using inv ins low n c unfolding split_inv_def v2_inv_def b' children_count_def
    by (auto simp: bg_def en_def set_event_def q_def intro: less_trans)
  show "child_profile b' k t = (if k = c \<and> w \<le> t \<and> t < u then target else child_profile b k t)"
  proof (cases "k = c")
    case True
    have "last_by ev_current_mA (filter (active t) (filter (on_child c) q')) (children_current_now (v2_device b) ! c) =
        (if w \<le> t \<and> t < u then target
         else last_by ev_current_mA (filter (active t) (filter (on_child c) q)) (children_current_now (v2_device b) ! c))"
      by (rule interval_profile [where bg = bg and en = en])
         (use q ins \<open>w < u\<close> in \<open>auto simp: filter_sorted_wrt evs rm_def child_profile_def q_def [symmetric]\<close>)
    with True show ?thesis by (simp add: child_profile_def b' q_def [symmetric])
  next
    case False
    then have "filter (on_child k) q' = filter (on_child k) q"
      using ins q by (intro filter_eqI) (auto simp: filter_sorted_wrt evs rm_def on_child_def)
    with False show ?thesis by (simp add: child_profile_def b' q_def [symmetric])
  qed
qed

section \<open>Scheduling a child\<close>

text \<open>
  The two previews together give the events of the child to replace, the sum to ask the source for,
  and the current to resume.
\<close>

lemma previews:
  fixes b :: "splitter v2_battery" and c :: nat and w u :: nanos
  assumes inv: "split_inv b" and c: "c < children_count b" and "w < u"
  defines "rm \<equiv> filter (\<lambda>e. on_child c e \<and> active u e \<and> w \<le> ev_timepoint e) (event_queue b)"
  shows "\<exists>rest rm1 cur rest' cur'.
    preview_children w c w u (event_queue b) [] (children_current_now (v2_device b)) = Inr (rest, rm1, cur) \<and>
    length cur = children_count b \<and> (\<forall>k < children_count b. cur ! k = child_profile b k w) \<and>
    preview_children u c w u rest rm1 cur = Inr (rest', rm, cur') \<and> cur' ! c = child_profile b c u"
proof -
  define q where "q = event_queue b"
  define now where "now = children_current_now (v2_device b)"
  define rest where "rest = filter (\<lambda>e. w < ev_timepoint e) q"
  define rm1 where "rm1 = filter (\<lambda>e. on_child c e \<and> active w e \<and> w \<le> ev_timepoint e \<and> ev_timepoint e \<le> u) q"
  have q: "sorted_wrt v2_event_less q" and ids: "\<forall>e \<in> set q. ev_func e \<noteq> V2_REFRESH \<longrightarrow> ev_other_data e < length now"
    using inv by (auto simp: split_inv_def v2_inv_def q_def now_def children_count_def)
  obtain cur where p1: "preview_children w c w u q [] now = Inr (rest, rm1, cur)" "length cur = length now"
      "\<forall>k < length now. cur ! k = last_by ev_current_mA (filter (active w) (filter (on_child k) q)) (now ! k)"
    using preview_children_spec [OF q ids, of w c w u "[]"] by (auto simp: rest_def rm1_def)
  obtain rest' cur' where p2: "preview_children u c w u rest rm1 cur =
        Inr (rest', rm1 @ filter (\<lambda>e. on_child c e \<and> active u e \<and> w \<le> ev_timepoint e \<and> ev_timepoint e \<le> u) rest, cur')"
      "\<forall>k < length cur. cur' ! k = last_by ev_current_mA (filter (active u) (filter (on_child k) rest)) (cur ! k)"
    using preview_children_spec [of rest cur u c w u rm1] q ids p1(2)
    by (auto simp: rest_def filter_sorted_wrt)
  have split: "q = filter (\<lambda>e. ev_timepoint e \<le> w) q @ rest"
    using q by (intro sorted_same_set)
      (auto simp: rest_def sorted_wrt_append filter_sorted_wrt intro: v2_less_timepoint)
  have "rm1 @ filter (\<lambda>e. on_child c e \<and> active u e \<and> w \<le> ev_timepoint e \<and> ev_timepoint e \<le> u) rest = rm"
    unfolding rm_def q_def [symmetric] rm1_def rest_def
    using q \<open>w < u\<close> by (intro sorted_same_set)
      (auto simp: sorted_wrt_append filter_sorted_wrt active_def intro: v2_less_timepoint)
  moreover have "cur' ! c = child_profile b c u"
  proof -
    have "filter (active u) (filter (on_child c) q) =
        filter (active w) (filter (on_child c) q) @ filter (active u) (filter (on_child c) rest)"
      using q \<open>w < u\<close> unfolding rest_def by (intro sorted_same_set)
        (auto simp: sorted_wrt_append filter_sorted_wrt active_def intro: v2_less_timepoint)
    then show ?thesis
      using p1 p2(2) c by (simp add: child_profile_def q_def now_def children_count_def last_by_append)
  qed
  ultimately show ?thesis
    using p1 p2(1) by (auto simp: q_def now_def children_count_def child_profile_def)
qed

lemma split_schedule_keeps:
  fixes b :: "splitter v2_battery"
  assumes "split_inv b" and "map_of (name_lookup (v2_device b)) child = Some c"
    and "\<not> child_request_refused target (children_status_now (v2_device b) ! c)"
    and "clock 0 \<le> w" and "w < u" and "unat (current_sequence_number b) + 2 < 2 ^ 64"
  shows "\<exists>b'. schedule_set_current_of sched clock child target gt w u b src =
      (case sched (total_profile b' w) gt w u src of (ok, src') \<Rightarrow> Inr (ok, b', src')) \<and>
    split_inv b' \<and> children_count b' = children_count b \<and>
    (\<forall>k t. child_profile b' k t = (if k = c \<and> w \<le> t \<and> t < u then target else child_profile b k t))"
proof -
  define rm where "rm = filter (\<lambda>e. on_child c e \<and> active u e \<and> w \<le> ev_timepoint e) (event_queue b)"
  have c: "c < children_count b"
    using assms(1,2) by (auto simp: split_inv_def ran_def)
  obtain rest rm1 cur rest' cur' where
    p: "preview_children w c w u (event_queue b) [] (children_current_now (v2_device b)) = Inr (rest, rm1, cur)"
      "length cur = children_count b" "\<forall>k < children_count b. cur ! k = child_profile b k w"
      "preview_children u c w u rest rm1 cur = Inr (rest', rm, cur')" "cur' ! c = child_profile b c u"
    using previews [OF assms(1) c assms(5), folded rm_def] by blast
  define b' where "b' = enqueue_child (clock 1) (clock 2) c target (child_profile b c u) gt w u rm b"
  note new = enqueue_child_profile [OF assms(1) c assms(5,6), folded rm_def, where gt = gt and target = target
      and ?a1.0 = "clock 1" and ?a2.0 = "clock 2", folded b'_def]
  have total: "sum_list (cur[c := target]) = total_profile b' w"
    using c p(2,3) assms(5) by (auto simp: sum_list_update_sum total_profile_def new intro!: sum.cong)
  have backup: "cur[c := child_profile b c w] = cur"
    using c p(2,3) by (metis list_update_id)
  have "schedule_set_current_of sched clock child target gt w u b src =
      (case sched (total_profile b' w) gt w u src of (ok, src') \<Rightarrow> Inr (ok, b', src'))"
    using assms(1-4) c p total backup
    by (auto simp: schedule_set_current_of_def split_inv_def Let_def b'_def split: prod.splits)
  with new show ?thesis by (intro exI [of _ b']) blast
qed

text \<open>
  C26: a request for a child that the policy accepts never leaves the vectors, assigns the current to
  the child over the interval and to nothing else, keeps the invariant, and asks the source, once,
  for the sum of what is then promised to all children at the start of the interval.
\<close>

theorem split_schedule_assigns:
  fixes b :: "splitter v2_battery"
  assumes "split_inv b" and "map_of (name_lookup (v2_device b)) child = Some c"
    and "\<not> child_request_refused target (children_status_now (v2_device b) ! c)"
    and "clock 0 \<le> w" and "w < u" and "unat (current_sequence_number b) + 2 < 2 ^ 64"
  shows "\<exists>b'. schedule_set_current_of sched clock child target gt w u b src =
      (case sched (total_profile b' w) gt w u src of (ok, src') \<Rightarrow> Inr (ok, b', src')) \<and>
    split_inv b' \<and> children_count b' = children_count b \<and>
    (\<forall>k t. child_profile b' k t = (if k = c \<and> w \<le> t \<and> t < u then target else child_profile b k t))"
  using assms by (rule split_schedule_keeps)

definition two_children :: "splitter v2_battery" where
  "two_children = new_BALSplitter ''policy'' ''source'' [''a'', ''b''] [scale_of (1 / 2), scale_of (1 / 2)] Tranche 1000
     (zero_status\<lparr>v2_max_charging_current_mA := 100, v2_max_discharging_current_mA := 100\<rparr>) 0"

lemma two_children_simps:
  "children_current_now (v2_device two_children) = [0, 0]" "event_queue two_children = []"
  "current_sequence_number two_children = 0" "children_count two_children = 2"
  "map_of (name_lookup (v2_device two_children)) = [''a'' \<mapsto> 0, ''b'' \<mapsto> 1]"
  "map v2_max_discharging_current_mA (children_status_now (v2_device two_children)) = [50, 50]"
  "child_profile two_children k t = [0, 0] ! k"
proof -
  have "lookup_table [''a'', ''b''] = [(''a'', 0), (''b'', 1)]" by code_simp
  then show "map_of (name_lookup (v2_device two_children)) = [''a'' \<mapsto> 0, ''b'' \<mapsto> 1]"
    by (auto simp: two_children_def new_BALSplitter_def new_v2_battery_def Let_def fun_eq_iff)
qed (simp_all add: two_children_def new_BALSplitter_def new_v2_battery_def Let_def children_count_def
    initial_child_status_def scaled_def scale_of_def within_01_range_def child_profile_def last_by_def
    in_int64_def numeral_2_eq_2)

lemma two_children_limit: "k < 2 \<Longrightarrow> v2_max_discharging_current_mA (children_status_now (v2_device two_children) ! k) = 50"
  using two_children_simps(6) by (auto simp: map_eq_Cons_conv less_2_cases_iff)

lemma two_children_inv: "split_inv two_children"
  using map_eq_imp_length_eq [of v2_max_discharging_current_mA _ id "[50, 50]"] two_children_simps
  by (auto simp: split_inv_def v2_inv_def ran_def split: if_splits dest!: arg_cong [where f = length])

theorem split_schedule_assigns_witness:
  "\<exists>b'. schedule_set_current_of (\<lambda>c g w u log. (True, (c, w, u) # log)) (\<lambda>i. 0) ''b'' 30 True 5 9 two_children [] =
      Inr (True, b', [(total_profile b' 5, 5, 9)]) \<and> (\<forall>t. child_profile b' 1 t = (if 5 \<le> t \<and> t < 9 then 30 else 0))"
  using split_schedule_assigns [of two_children "''b''" 1 30 "\<lambda>i. 0" 5 9 "\<lambda>c g w u log. (True, (c, w, u) # log)" True "[]"]
    two_children_inv two_children_limit [of 1]
  by (auto simp: two_children_simps child_request_refused_def)

section \<open>The source in step with the children\<close>

text \<open>
  The source and the policy agree when the source promises, at every time, the sum of what the
  policy promises its children.
\<close>

definition in_step :: "splitter v2_battery \<Rightarrow> 'b v2_battery \<Rightarrow> bool" where
  "in_step b src \<longleftrightarrow> (\<forall>t. fst (profile src t) = total_profile b t)"

text \<open>
  C27: with a source that needs no delay, scheduling a child through the policy keeps the source in
  step with the children, provided that no other child changes its current inside the interval.
\<close>

theorem split_keeps_source_in_step:
  fixes b :: "splitter v2_battery" and src :: "'b v2_battery"
  assumes "split_inv b" and "v2_inv src" and "in_step b src"
    and "map_of (name_lookup (v2_device b)) child = Some c"
    and "\<not> child_request_refused target (children_status_now (v2_device b) ! c)"
    and "clock 0 \<le> w" and "clock' 0 \<le> w" and "w < u"
    and "unat (current_sequence_number b) + 2 < 2 ^ 64" and "unat (current_sequence_number src) + 2 < 2 ^ 64"
    and "drv_get_delay drv = (\<lambda>_ _. 0)"
    and "\<forall>k t. k \<noteq> c \<and> w \<le> t \<and> t < u \<longrightarrow> child_profile b k t = child_profile b k w"
  shows "\<exists>b' src'. schedule_set_current_of (v2_schedule_set_current drv clock') clock child target gt w u b src =
      Inr (True, b', src') \<and> split_inv b' \<and> v2_inv src' \<and> in_step b' src'"
proof -
  obtain b' where b': "schedule_set_current_of (v2_schedule_set_current drv clock') clock child target gt w u b src =
      (case v2_schedule_set_current drv clock' (total_profile b' w) gt w u src of (ok, src') \<Rightarrow> Inr (ok, b', src'))"
      "split_inv b'" "children_count b' = children_count b"
      "\<forall>k t. child_profile b' k t = (if k = c \<and> w \<le> t \<and> t < u then target else child_profile b k t)"
    using split_schedule_keeps [where clock = clock and sched = "v2_schedule_set_current drv clock'" and gt = gt and src = src, OF assms(1,4,5,6,8,9)] by blast
  have "delayed_interval drv (total_profile b' w) w u src = (w, u)"
    using assms(11) by (auto simp: delayed_interval_def split: prod.splits)
  then obtain src' where src': "v2_schedule_set_current drv clock' (total_profile b' w) gt w u src = (True, src')"
      "v2_inv src'" "\<forall>t. profile src' t = (if w \<le> t \<and> t < u then (total_profile b' w, gt) else profile src t)"
    using v2_schedule_assigns [where clock = clock', OF assms(2,7) _ assms(8,10)] by blast
  have const: "child_profile b' k t = child_profile b' k w" if "w \<le> t" "t < u" for k t
    using b'(4) [rule_format, of k t] b'(4) [rule_format, of k w] assms(8) assms(12) [rule_format, of k t] that
    by (cases "k = c") simp_all
  have inside: "total_profile b' t = total_profile b' w" if "w \<le> t" "t < u" for t
    unfolding total_profile_def by (intro sum.cong refl const that)
  have outside: "total_profile b' t = total_profile b t" if "\<not> (w \<le> t \<and> t < u)" for t
    using that b'(3,4) by (auto simp: total_profile_def)
  have "fst (profile src' t) = total_profile b' t" for t
    using src'(3) assms(3) inside [of t] outside [of t]
    by (cases "w \<le> t \<and> t < u") (auto simp: in_step_def)
  then have "in_step b' src'" by (simp add: in_step_def)
  with b' src' show ?thesis by simp
qed

definition idle_source :: "unit v2_battery" where
  "idle_source = new_NullBattery ''source'' 5 1000"

lemma idle_source_simps: "event_queue idle_source = []" "current_sequence_number idle_source = 0"
    "current_now idle_source = 0" "is_greater_than_current_now idle_source = False" "v2_inv idle_source"
  by (simp_all add: idle_source_def new_NullBattery_def new_v2_battery_def v2_inv_def Let_def)

lemma two_children_in_step: "in_step two_children idle_source"
  by (simp add: in_step_def profile_def total_profile_def two_children_simps idle_source_simps last_by_def
      now_value_def numeral_2_eq_2)

theorem split_keeps_source_in_step_witness:
  "\<exists>b' src'. schedule_set_current_of (v2_schedule_set_current NullBattery_driver (\<lambda>i. 0)) (\<lambda>i. 0) ''b'' 30 True 5 9
      two_children idle_source = Inr (True, b', src') \<and> split_inv b' \<and> v2_inv src' \<and> in_step b' src'"
  by (rule split_keeps_source_in_step [where c = 1])
     (use two_children_inv two_children_limit [of 1] two_children_in_step in
       \<open>simp_all add: two_children_simps idle_source_simps child_request_refused_def NullBattery_driver_def\<close>)

text \<open>
  The proviso is needed. What the source is asked for is computed at the start of the interval, and
  the source forgets its own events inside the interval.
\<close>

lemma total_after:
  "children_count b' = children_count b \<Longrightarrow> c < children_count b \<Longrightarrow>
   \<forall>k t. child_profile b' k t = (if k = c \<and> w \<le> t \<and> t < u then target else child_profile b k t) \<Longrightarrow>
   total_profile b' t =
     (if w \<le> t \<and> t < u then total_profile b t - child_profile b c t + target else total_profile b t)"
proof -
  assume n: "children_count b' = children_count b" and c: "c < children_count b"
    and p: "\<forall>k t. child_profile b' k t = (if k = c \<and> w \<le> t \<and> t < u then target else child_profile b k t)"
  have split: "total_profile b1 t = child_profile b1 c t + (\<Sum>k \<in> {..<children_count b1} - {c}. child_profile b1 k t)"
    if "children_count b1 = children_count b" for b1
    using that c by (simp add: total_profile_def sum.remove)
  have "(\<Sum>k \<in> {..<children_count b} - {c}. child_profile b' k t) = (\<Sum>k \<in> {..<children_count b} - {c}. child_profile b k t)"
    using p by (intro sum.cong) auto
  then show ?thesis using split [of b] split [of b'] n p by auto
qed

text \<open>
  A request for one child that spans a change of another child's current takes the source out of
  step: at every time of the interval at which the others' sum differs from the one at its start,
  the source promises something else than the children were promised.
\<close>

theorem split_overwrites_other_children:
  fixes b :: "splitter v2_battery" and src :: "'b v2_battery"
  assumes "split_inv b" and "v2_inv src"
    and "map_of (name_lookup (v2_device b)) child = Some c"
    and "\<not> child_request_refused target (children_status_now (v2_device b) ! c)"
    and "clock 0 \<le> w" and "clock' 0 \<le> w" and "w < u"
    and "unat (current_sequence_number b) + 2 < 2 ^ 64" and "unat (current_sequence_number src) + 2 < 2 ^ 64"
    and "drv_get_delay drv = (\<lambda>_ _. 0)"
    and "w \<le> t" and "t < u"
    and "total_profile b t - child_profile b c t \<noteq> total_profile b w - child_profile b c w"
  shows "\<exists>b' src'. schedule_set_current_of (v2_schedule_set_current drv clock') clock child target gt w u b src =
      Inr (True, b', src') \<and> fst (profile src' t) \<noteq> total_profile b' t"
proof -
  obtain b' where b': "schedule_set_current_of (v2_schedule_set_current drv clock') clock child target gt w u b src =
      (case v2_schedule_set_current drv clock' (total_profile b' w) gt w u src of (ok, src') \<Rightarrow> Inr (ok, b', src'))"
      "children_count b' = children_count b"
      "\<forall>k t. child_profile b' k t = (if k = c \<and> w \<le> t \<and> t < u then target else child_profile b k t)"
    using split_schedule_keeps [where clock = clock and sched = "v2_schedule_set_current drv clock'" and gt = gt
        and src = src, OF assms(1,3,4,5,7,8)] by blast
  have "delayed_interval drv (total_profile b' w) w u src = (w, u)"
    using assms(10) by (auto simp: delayed_interval_def split: prod.splits)
  then obtain src' where src': "v2_schedule_set_current drv clock' (total_profile b' w) gt w u src = (True, src')"
      "\<forall>t. profile src' t = (if w \<le> t \<and> t < u then (total_profile b' w, gt) else profile src t)"
    using v2_schedule_assigns [where clock = clock', OF assms(2,6) _ assms(7,9)] by blast
  have "c < children_count b" using assms(1,3) by (auto simp: split_inv_def ran_def)
  then have "total_profile b' w \<noteq> total_profile b' t"
    using total_after [OF b'(2) _ b'(3)] assms(7,11,12,13) by simp
  with b'(1) src' assms(11,12) show ?thesis by simp
qed

definition busy_children :: "splitter v2_battery" where
  "busy_children = two_children\<lparr>event_queue :=
     [set_event 3 0 0 V2_SET_CURRENT 10 True 0, set_event 8 0 1 V2_SET_CURRENT_END 0 True 0],
     current_sequence_number := 2\<rparr>"

lemma busy_children_simps:
  "v2_device busy_children = v2_device two_children" "children_count busy_children = 2"
  "current_sequence_number busy_children = 2" "split_inv busy_children"
  "child_profile busy_children 0 0 = 0" "child_profile busy_children 0 5 = 10"
  "child_profile busy_children (Suc 0) t = 0"
proof -
  show dev: "v2_device busy_children = v2_device two_children" by (simp add: busy_children_def)
  show n: "children_count busy_children = 2" using two_children_simps(4) by (simp add: children_count_def dev)
  show "split_inv busy_children"
    using two_children_inv n two_children_simps(4)
    by (auto simp: split_inv_def v2_inv_def dev)
       (auto simp: busy_children_def set_event_def v2_event_less_def word_less_nat_alt)
qed (simp_all add: busy_children_def child_profile_def two_children_simps last_by_def on_child_def active_def
    set_event_def)

lemma total_of_two:
  "children_count b = 2 \<Longrightarrow> total_profile b t = child_profile b 0 t + child_profile b (Suc 0) t"
  by (simp add: total_profile_def numeral_2_eq_2)

theorem split_overwrites_other_children_witness:
  "\<exists>b' src'. schedule_set_current_of (v2_schedule_set_current NullBattery_driver (\<lambda>i. 0)) (\<lambda>i. 0) ''b'' 30 True 0 9
      busy_children idle_source = Inr (True, b', src') \<and> fst (profile src' 5) \<noteq> total_profile b' 5"
  by (rule split_overwrites_other_children [where c = "Suc 0"])
     (use two_children_limit [of 1] in \<open>simp_all add: busy_children_simps two_children_simps idle_source_simps
       child_request_refused_def NullBattery_driver_def total_of_two\<close>)

end
