(* ===== verification/V2_Split_Refresh.thy ===== *)
theory V2_Split_Refresh
  imports V2_Splitter
begin

text \<open>
  The refresh of the splitter policy of BatteryOS-V2 (\<open>BALSplitter.cpp\<close>): how the status of the
  source is divided among the children under the three policies. The status of the source, the names
  the directory lists as children and the clock are arguments.

  The loops of the code that count down an unsigned index never end by their condition: they end by
  a \<open>break\<close>, or the index passes below zero and the next access is outside the vector.
\<close>

section \<open>Loops over the children\<close>

text \<open>A body that may break; the result says whether it did.\<close>

primrec visit :: "(nat \<Rightarrow> 's \<Rightarrow> bool \<times> 's) \<Rightarrow> nat list \<Rightarrow> 's \<Rightarrow> bool \<times> 's" where
  "visit f [] s = (False, s)"
| "visit f (i # is) s = (case f i s of (True, s') \<Rightarrow> (True, s') | (False, s') \<Rightarrow> visit f is s')"

definition loop_up :: "(nat \<Rightarrow> 's \<Rightarrow> bool \<times> 's) \<Rightarrow> nat \<Rightarrow> 's \<Rightarrow> 's outcome" where
  "loop_up f n s = Inr (snd (visit f [0..<n] s))"

definition loop_down :: "(nat \<Rightarrow> 's \<Rightarrow> bool \<times> 's) \<Rightarrow> nat \<Rightarrow> 's \<Rightarrow> 's outcome" where
  "loop_down f n s =
    (case visit f (rev [0..<n]) s of (True, s') \<Rightarrow> Inr s' | (False, _) \<Rightarrow> Inl Bad_index)"

type_synonym shares = "v2_status \<times> v2_status list"

definition distribute_step ::
  "(v2_status \<Rightarrow> int) \<Rightarrow> ((int \<Rightarrow> int) \<Rightarrow> v2_status \<Rightarrow> v2_status) \<Rightarrow> nat \<Rightarrow> shares \<Rightarrow> bool \<times> shares" where
  "distribute_step get put i s =
    (case s of (src, cs) \<Rightarrow>
       if get (cs ! i) + get src < 0
       then (False, put (\<lambda>x. x + (get (cs ! i) - 1)) src, cs[i := put (\<lambda>_. 1) (cs ! i)])
       else (True, put (\<lambda>_. 0) src, cs[i := put (\<lambda>x. x + get src) (cs ! i)]))"

definition DISTRIBUTE_MAX_STATUS ::
  "(v2_status \<Rightarrow> int) \<Rightarrow> ((int \<Rightarrow> int) \<Rightarrow> v2_status \<Rightarrow> v2_status) \<Rightarrow> nat \<Rightarrow> shares \<Rightarrow> shares outcome" where
  "DISTRIBUTE_MAX_STATUS get put benefit_idx s =
    (case s of (src, cs) \<Rightarrow>
       if get src \<ge> 0 then
         (if benefit_idx < length cs
          then Inr (src, cs[benefit_idx := put (\<lambda>x. x + get src) (cs ! benefit_idx)]) else Inl Bad_index)
       else loop_down (distribute_step get put) (length cs) (src, cs))"

definition raise_current :: "nat \<Rightarrow> shares \<Rightarrow> bool \<times> shares" where
  "raise_current i s =
    (case s of (src, cs) \<Rightarrow>
       let rest = v2_current_mA src; c = v2_current_mA (cs ! i); lim = v2_max_discharging_current_mA (cs ! i) in
       if c \<ge> 0 then
         (if c + rest > lim
          then (False, src\<lparr>v2_current_mA := rest - (lim - c)\<rparr>, cs[i := (cs ! i)\<lparr>v2_current_mA := lim\<rparr>])
          else (True, src\<lparr>v2_current_mA := 0\<rparr>, cs[i := (cs ! i)\<lparr>v2_current_mA := c + rest\<rparr>]))
       else
         (if c + rest > 0
          then (False, src\<lparr>v2_current_mA := rest + c\<rparr>, cs[i := (cs ! i)\<lparr>v2_current_mA := 0\<rparr>])
          else (True, src\<lparr>v2_current_mA := 0\<rparr>, cs[i := (cs ! i)\<lparr>v2_current_mA := c + rest\<rparr>])))"

definition lower_current :: "nat \<Rightarrow> shares \<Rightarrow> bool \<times> shares" where
  "lower_current i s =
    (case s of (src, cs) \<Rightarrow>
       let rest = v2_current_mA src; c = v2_current_mA (cs ! i); lim = v2_max_charging_current_mA (cs ! i) in
       if c \<ge> 0 then
         (if c + rest < 0
          then (False, src\<lparr>v2_current_mA := rest + c\<rparr>, cs[i := (cs ! i)\<lparr>v2_current_mA := 0\<rparr>])
          else (True, src\<lparr>v2_current_mA := 0\<rparr>, cs[i := (cs ! i)\<lparr>v2_current_mA := c + rest\<rparr>]))
       else
         (if - (c + rest) > lim
          then (False, src\<lparr>v2_current_mA := rest + (lim + c)\<rparr>, cs[i := (cs ! i)\<lparr>v2_current_mA := - lim\<rparr>])
          else (True, src\<lparr>v2_current_mA := 0\<rparr>, cs[i := (cs ! i)\<lparr>v2_current_mA := c + rest\<rparr>])))"

definition raise_capacity :: "nat \<Rightarrow> shares \<Rightarrow> bool \<times> shares" where
  "raise_capacity i s =
    (case s of (src, cs) \<Rightarrow>
       let rest = v2_capacity_mAh src; c = v2_capacity_mAh (cs ! i); lim = v2_max_capacity_mAh (cs ! i) in
       if c + rest > lim
       then (False, src\<lparr>v2_capacity_mAh := rest - (lim - c)\<rparr>, cs[i := (cs ! i)\<lparr>v2_capacity_mAh := lim\<rparr>])
       else (True, src\<lparr>v2_capacity_mAh := 0\<rparr>, cs[i := (cs ! i)\<lparr>v2_capacity_mAh := c + rest\<rparr>]))"

definition lower_capacity :: "nat \<Rightarrow> shares \<Rightarrow> bool \<times> shares" where
  "lower_capacity i s =
    (case s of (src, cs) \<Rightarrow>
       let rest = v2_capacity_mAh src; c = v2_capacity_mAh (cs ! i) in
       if c + rest \<le> 0
       then (False, src\<lparr>v2_capacity_mAh := rest + (c - 1)\<rparr>, cs[i := (cs ! i)\<lparr>v2_capacity_mAh := 1\<rparr>])
       else (True, src\<lparr>v2_capacity_mAh := 0\<rparr>, cs[i := (cs ! i)\<lparr>v2_capacity_mAh := c + rest\<rparr>]))"

section \<open>The policies\<close>

text \<open>The estimates of all children, as the first loop of every policy brings them up to date.\<close>

definition estimate_all :: "nanos \<Rightarrow> splitter \<Rightarrow> splitter" where
  "estimate_all now sp = fold (charge_estimate now) [0..<length (split_names sp)] sp"

text \<open>\<open>name_lookup[name]\<close> enters an unknown name with the index 0.\<close>

definition child_id_of :: "string \<Rightarrow> splitter \<Rightarrow> nat \<times> splitter" where
  "child_id_of name sp =
    (case map_of (name_lookup sp) name of
       Some cid \<Rightarrow> (cid, sp)
     | None \<Rightarrow> (0, sp\<lparr>name_lookup := map_insert (<) name 0 (name_lookup sp)\<rparr>))"

text \<open>A child takes what it was promised, and the source keeps the rest.\<close>

definition child_share :: "splitter \<Rightarrow> nat \<Rightarrow> v2_status \<Rightarrow> v2_status" where
  "child_share sp cid src =
    (let original = child_original_status sp ! cid in
     \<lparr>v2_voltage_mV = v2_voltage_mV src, v2_current_mA = children_current_now sp ! cid,
      v2_capacity_mAh = to_int64 (children_estimated_charge_now sp ! cid),
      v2_max_capacity_mAh = v2_max_capacity_mAh original,
      v2_max_charging_current_mA = v2_max_charging_current_mA original,
      v2_max_discharging_current_mA = v2_max_discharging_current_mA original,
      v2_timestamp = v2_timestamp src\<rparr>)"

definition subtract_share :: "v2_status \<Rightarrow> v2_status \<Rightarrow> v2_status" where
  "subtract_share src st =
     src\<lparr>v2_current_mA := v2_current_mA src - v2_current_mA st,
         v2_capacity_mAh := v2_capacity_mAh src - v2_capacity_mAh st,
         v2_max_capacity_mAh := v2_max_capacity_mAh src - v2_max_capacity_mAh st,
         v2_max_charging_current_mA := v2_max_charging_current_mA src - v2_max_charging_current_mA st,
         v2_max_discharging_current_mA := v2_max_discharging_current_mA src - v2_max_discharging_current_mA st\<rparr>"

definition take_share :: "string \<Rightarrow> v2_status \<times> splitter \<Rightarrow> (v2_status \<times> splitter) outcome" where
  "take_share name s =
    (case s of (src, sp0) \<Rightarrow>
       let (cid, sp) = child_id_of name sp0 in
       if cid \<ge> length (child_original_status sp) then Inl Bad_index
       else
         (let st = child_share sp cid src in
          Inr (subtract_share src st, sp\<lparr>children_status_now := (children_status_now sp)[cid := st]\<rparr>)))"

definition distribute_limits :: "nat \<Rightarrow> shares \<Rightarrow> shares outcome" where
  "distribute_limits benefit_idx s =
     obind (DISTRIBUTE_MAX_STATUS v2_max_charging_current_mA v2_max_charging_current_mA_update benefit_idx s)
       (\<lambda>s1. obind (DISTRIBUTE_MAX_STATUS v2_max_discharging_current_mA v2_max_discharging_current_mA_update benefit_idx s1)
         (\<lambda>s2. DISTRIBUTE_MAX_STATUS v2_max_capacity_mAh v2_max_capacity_mAh_update benefit_idx s2))"

definition distribute_tranche :: "shares \<Rightarrow> shares outcome" where
  "distribute_tranche s =
     obind (distribute_limits 0 s)
       (\<lambda>(src1, cs1). obind (if v2_current_mA src1 \<ge> 0 then loop_down raise_current (length cs1) (src1, cs1)
                             else loop_up lower_current (length cs1) (src1, cs1))
         (\<lambda>(src2, cs2). if v2_capacity_mAh src2 \<ge> 0 then loop_up raise_capacity (length cs2) (src2, cs2)
                        else loop_down lower_capacity (length cs2) (src2, cs2)))"

definition distribute_reservation :: "shares \<Rightarrow> shares outcome" where
  "distribute_reservation s =
     obind (distribute_limits (length (snd s) - 1) s)
       (\<lambda>(src1, cs1). obind (if v2_current_mA src1 \<ge> 0 then loop_down raise_current (length cs1) (src1, cs1)
                             else loop_down lower_current (length cs1) (src1, cs1))
         (\<lambda>(src2, cs2). if v2_capacity_mAh src2 \<ge> 0 then loop_down raise_capacity (length cs2) (src2, cs2)
                        else loop_down lower_capacity (length cs2) (src2, cs2)))"

definition refresh_shares ::
  "(shares \<Rightarrow> shares outcome) \<Rightarrow> v2_status \<Rightarrow> string list \<Rightarrow> nanos \<Rightarrow> splitter \<Rightarrow> splitter outcome" where
  "refresh_shares distribute source_status kids now sp =
     obind (ofold take_share kids (source_status, estimate_all now sp))
       (\<lambda>(src, sp1). obind (distribute (src, children_status_now sp1))
         (\<lambda>(_, cs). Inr (sp1\<lparr>children_status_now := cs\<rparr>)))"

definition refresh_tranche :: "v2_status \<Rightarrow> string list \<Rightarrow> nanos \<Rightarrow> splitter \<Rightarrow> splitter outcome" where
  "refresh_tranche = refresh_shares distribute_tranche"

definition refresh_reservation :: "v2_status \<Rightarrow> string list \<Rightarrow> nanos \<Rightarrow> splitter \<Rightarrow> splitter outcome" where
  "refresh_reservation = refresh_shares distribute_reservation"

text \<open>\<open>round\<close> of \<open>math.h\<close>: halves go away from zero.\<close>

definition c_round :: "real \<Rightarrow> int" where
  "c_round x = (if 0 \<le> x then \<lfloor>x + 1 / 2\<rfloor> else \<lceil>x - 1 / 2\<rceil>)"

definition proportional_current :: "int \<Rightarrow> int list \<Rightarrow> int \<Rightarrow> int" where
  "proportional_current source_current currents c =
    (let total_net = sum_list currents;
         total_pos = sum_list (filter (\<lambda>x. x > 0) currents);
         total_neg = sum_list (filter (\<lambda>x. x < 0) currents) in
     if total_net = 0 then
       (if source_current > 0 \<and> c > 0 then to_int64 (of_int source_current * of_int c / of_int total_pos)
        else if source_current < 0 \<and> c < 0 then to_int64 (of_int source_current * of_int c / of_int total_neg)
        else c)
     else to_int64 (of_int c * of_int source_current / of_int total_net))"

definition proportional_status :: "v2_status \<Rightarrow> real \<Rightarrow> splitter \<Rightarrow> nat \<Rightarrow> v2_status" where
  "proportional_status src total_estimated sp cid =
    (let sc = child_scales sp ! cid in
     \<lparr>v2_voltage_mV = v2_voltage_mV src,
      v2_current_mA = proportional_current (v2_current_mA src) (children_current_now sp) (children_current_now sp ! cid),
      v2_capacity_mAh =
        (if \<bar>total_estimated\<bar> < 1 / 1000000 then scaled (v2_capacity_mAh src) (sc_capacity sc)
         else to_int64 (of_int (c_round (children_estimated_charge_now sp ! cid / total_estimated *
                of_int (v2_capacity_mAh src))))),
      v2_max_capacity_mAh = scaled (v2_max_capacity_mAh src) (sc_max_capacity sc),
      v2_max_charging_current_mA = scaled (v2_max_charging_current_mA src) (sc_max_charge_rate sc),
      v2_max_discharging_current_mA = scaled (v2_max_discharging_current_mA src) (sc_max_discharge_rate sc),
      v2_timestamp = v2_timestamp src\<rparr>)"

text \<open>When the estimates fail, the estimate of the child restarts from its new charge.\<close>

definition proportional_child :: "v2_status \<Rightarrow> real \<Rightarrow> string \<Rightarrow> splitter \<Rightarrow> splitter outcome" where
  "proportional_child src total_estimated name sp0 =
    (let (cid, sp) = child_id_of name sp0 in
     if cid \<ge> length (child_scales sp) then Inl Bad_index
     else
       (let st = proportional_status src total_estimated sp cid in
        Inr (sp\<lparr>children_status_now := (children_status_now sp)[cid := st],
                children_estimated_charge_now :=
                  (if \<bar>total_estimated\<bar> < 1 / 1000000
                   then (children_estimated_charge_now sp)[cid := of_int (v2_capacity_mAh st)]
                   else children_estimated_charge_now sp)\<rparr>)))"

definition refresh_proportional :: "v2_status \<Rightarrow> string list \<Rightarrow> nanos \<Rightarrow> splitter \<Rightarrow> splitter outcome" where
  "refresh_proportional source_status kids now sp =
    (let sp1 = estimate_all now sp in
     ofold (proportional_child source_status (sum_list (children_estimated_charge_now sp1))) kids sp1)"

definition BALSplitter_refresh ::
  "v2_status \<Rightarrow> string list \<Rightarrow> nanos \<Rightarrow> splitter v2_battery \<Rightarrow> splitter v2_battery outcome" where
  "BALSplitter_refresh source_status kids now b =
    (let sp = v2_device b in
     obind (case policy_type sp of
              Proportional \<Rightarrow> refresh_proportional source_status kids now sp
            | Tranche \<Rightarrow> refresh_tranche source_status kids now sp
            | Reservation \<Rightarrow> refresh_reservation source_status kids now sp
            | Unknown_policy \<Rightarrow> Inr sp)
       (\<lambda>sp'. Inr (b\<lparr>v2_device := sp'\<rparr>)))"

section \<open>Every body hands on what a child cannot take\<close>

text \<open>
  One rule covers all the loop bodies: a child that cannot absorb the rest is set to a bound and the
  difference stays with the rest; otherwise it absorbs the rest and the loop breaks.
\<close>

definition hand_on ::
  "(v2_status \<Rightarrow> int) \<Rightarrow> ((int \<Rightarrow> int) \<Rightarrow> v2_status \<Rightarrow> v2_status) \<Rightarrow> (v2_status \<Rightarrow> int \<Rightarrow> int option) \<Rightarrow>
   nat \<Rightarrow> shares \<Rightarrow> bool \<times> shares" where
  "hand_on get put bound i s =
    (case s of (src, cs) \<Rightarrow> case bound (cs ! i) (get src) of
       Some v \<Rightarrow> (False, put (\<lambda>_. get src + get (cs ! i) - v) src, cs[i := put (\<lambda>_. v) (cs ! i)])
     | None \<Rightarrow> (True, put (\<lambda>_. 0) src, cs[i := put (\<lambda>_. get (cs ! i) + get src) (cs ! i)]))"

definition least_one :: "(v2_status \<Rightarrow> int) \<Rightarrow> v2_status \<Rightarrow> int \<Rightarrow> int option" where
  "least_one get st r = (if get st + r < 0 then Some 1 else None)"

definition discharge_bound :: "v2_status \<Rightarrow> int \<Rightarrow> int option" where
  "discharge_bound st r =
    (let m = (if v2_current_mA st \<ge> 0 then v2_max_discharging_current_mA st else 0) in
     if v2_current_mA st + r > m then Some m else None)"

definition charge_bound :: "v2_status \<Rightarrow> int \<Rightarrow> int option" where
  "charge_bound st r =
    (let m = (if v2_current_mA st \<ge> 0 then 0 else - v2_max_charging_current_mA st) in
     if v2_current_mA st + r < m then Some m else None)"

definition full_bound :: "v2_status \<Rightarrow> int \<Rightarrow> int option" where
  "full_bound st r = (if v2_capacity_mAh st + r > v2_max_capacity_mAh st then Some (v2_max_capacity_mAh st) else None)"

definition empty_bound :: "v2_status \<Rightarrow> int \<Rightarrow> int option" where
  "empty_bound st r = (if v2_capacity_mAh st + r \<le> 0 then Some 1 else None)"

locale status_field =
  fixes get :: "v2_status \<Rightarrow> int" and put :: "(int \<Rightarrow> int) \<Rightarrow> v2_status \<Rightarrow> v2_status"
  assumes get_put: "get (put h st) = h (get st)"
    and put_const: "put h st = put (\<lambda>_. h (get st)) st"
begin

lemma distribute_step_hands_on: "distribute_step get put = hand_on get put (least_one get)"
proof (intro ext)
  fix i and s :: shares
  obtain src cs where s: "s = (src, cs)" by fastforce
  show "distribute_step get put i s = hand_on get put (least_one get) i s"
    using put_const [of "\<lambda>x. x + (get (cs ! i) - 1)" src] put_const [of "\<lambda>x. x + get src" "cs ! i"]
    by (simp add: s distribute_step_def hand_on_def least_one_def algebra_simps)
qed

abbreviation total :: "shares \<Rightarrow> int" where
  "total s \<equiv> get (fst s) + sum_list (map get (snd s))"

lemma sum_list_update:
  "i < length cs \<Longrightarrow> sum_list (map get (cs[i := st])) = sum_list (map get cs) - get (cs ! i) + get st"
proof (induction cs arbitrary: i)
  case (Cons a cs)
  then show ?case by (cases i) auto
qed simp

lemma hand_on_total:
  "i < length (snd s) \<Longrightarrow> hand_on get put bound i s = (br, s') \<Longrightarrow>
   total s' = total s \<and> length (snd s') = length (snd s) \<and> (br \<longrightarrow> get (fst s') = 0)"
  by (auto simp: hand_on_def sum_list_update get_put split: option.splits prod.splits)

text \<open>What a visit leaves: the sum, every other field, and, without a break, the bounds.\<close>

lemma visit_total:
  "visit (hand_on get put bound) is s = (br, s') \<Longrightarrow> set is \<subseteq> {..<length (snd s)} \<Longrightarrow>
   total s' = total s \<and> length (snd s') = length (snd s) \<and> (br \<longrightarrow> get (fst s') = 0)"
proof (induction "is" arbitrary: s)
  case (Cons i "is")
  obtain br1 s1 where step: "hand_on get put bound i s = (br1, s1)"
    by (cases "hand_on get put bound i s")
  with hand_on_total [of i s bound br1 s1] Cons.prems(2)
  have "total s1 = total s" "length (snd s1) = length (snd s)" "br1 \<longrightarrow> get (fst s1) = 0" by auto
  with Cons.IH [of s1] Cons.prems step show ?case by (cases br1) simp_all
qed simp

lemma hand_on_frame:
  assumes "\<And>h st. g (put h st) = g st" and "hand_on get put bound i s = (br, s')" and "i < length (snd s)"
  shows "g (fst s') = g (fst s) \<and> map g (snd s') = map g (snd s)"
proof -
  have "map g (cs[i := put h (cs ! i)]) = map g cs" for cs :: "v2_status list" and h
    using assms(1) by (cases "i < length cs") (simp_all add: map_update list_update_same_conv list_update_beyond)
  then show ?thesis
    using assms by (auto simp: hand_on_def split: option.splits prod.splits)
qed

lemma visit_frame:
  assumes "\<And>h st. g (put h st) = g st"
  shows "visit (hand_on get put bound) is s = (br, s') \<Longrightarrow> set is \<subseteq> {..<length (snd s)} \<Longrightarrow>
    g (fst s') = g (fst s) \<and> map g (snd s') = map g (snd s)"
proof (induction "is" arbitrary: s)
  case (Cons i "is")
  obtain br1 s1 where step: "hand_on get put bound i s = (br1, s1)"
    by (cases "hand_on get put bound i s")
  with hand_on_frame [OF assms step] hand_on_total [of i s bound br1 s1] Cons.prems(2)
  have "g (fst s1) = g (fst s)" "map g (snd s1) = map g (snd s)" "length (snd s1) = length (snd s)" by auto
  with Cons.IH [of s1] Cons.prems step show ?case by (cases br1) simp_all
qed simp

text \<open>
  A loop that never breaks sets every visited child to its bound, and what remains satisfies
  whatever the bounds maintain of it.
\<close>

lemma visit_no_break:
  assumes "\<forall>st r v. P st \<and> I r \<and> bound st r = Some v \<longrightarrow> v = fin st \<and> J (r + get st - v)"
    and "\<forall>r. J r \<longrightarrow> I r"
  shows "visit (hand_on get put bound) is s = (False, s') \<Longrightarrow> set is \<subseteq> {..<length (snd s)} \<Longrightarrow> distinct is \<Longrightarrow>
    I (get (fst s)) \<Longrightarrow> (\<forall>j \<in> set is. P (snd s ! j)) \<Longrightarrow>
    I (get (fst s')) \<and> (is \<noteq> [] \<longrightarrow> J (get (fst s'))) \<and>
    (\<forall>j < length (snd s). get (snd s' ! j) = (if j \<in> set is then fin (snd s ! j) else get (snd s ! j)))"
proof (induction "is" arbitrary: s)
  case (Cons i "is")
  obtain src cs where s: "s = (src, cs)" by fastforce
  have i: "i < length cs" using Cons.prems(2) s by auto
  obtain v where v: "bound (cs ! i) (get src) = Some v"
    using Cons.prems(1) by (cases "bound (cs ! i) (get src)") (auto simp: s hand_on_def)
  have fin: "v = fin (cs ! i)" "J (get src + get (cs ! i) - v)"
    using assms(1) [rule_format, of "cs ! i" "get src" v] v Cons.prems(4,5) i s by auto
  define s1 where "s1 = (put (\<lambda>_. get src + get (cs ! i) - v) src, cs[i := put (\<lambda>_. v) (cs ! i)])"
  have "hand_on get put bound i s = (False, s1)" using v by (simp add: s hand_on_def s1_def)
  then have visit: "visit (hand_on get put bound) is s1 = (False, s')" using Cons.prems(1) by simp
  have later: "snd s1 ! j = cs ! j" if "j \<in> set is" for j
    using that Cons.prems(3) i by (cases "j = i") (auto simp: s1_def)
  have IH: "I (get (fst s')) \<and> (is \<noteq> [] \<longrightarrow> J (get (fst s'))) \<and> (\<forall>j < length (snd s1).
      get (snd s' ! j) = (if j \<in> set is then fin (snd s1 ! j) else get (snd s1 ! j)))"
    using Cons.IH [OF visit] Cons.prems fin later assms(2) by (auto simp: s s1_def get_put)
  moreover have "J (get (fst s'))"
    using IH visit fin(2) by (cases "is") (auto simp: s1_def get_put)
  ultimately show ?case using later i fin(1) Cons.prems(3) by (auto simp: s s1_def get_put nth_list_update)
qed simp

lemma loop_down_conserves:
  assumes "loop_down (hand_on get put bound) (length (snd s)) s = Inr s'"
  shows "sum_list (map get (snd s')) = total s" and "length (snd s') = length (snd s)"
  using assms visit_total [of bound "rev [0..<length (snd s)]" s True s']
  by (auto simp: loop_down_def lessThan_atLeast0 split: prod.splits bool.splits)

lemma loop_down_frame:
  assumes "\<And>h st. g (put h st) = g st" and "loop_down (hand_on get put bound) (length (snd s)) s = Inr s'"
  shows "g (fst s') = g (fst s)" and "map g (snd s') = map g (snd s)"
  using assms(2) visit_frame [where g = g, OF assms(1), of bound "rev [0..<length (snd s)]" s True s']
  by (auto simp: loop_down_def lessThan_atLeast0 split: prod.splits bool.splits)

lemma loop_up_run:
  assumes "loop_up f n s = Inr s'"
  obtains br where "visit f [0..<n] s = (br, s')"
  using assms by (cases "visit f [0..<n] s") (simp add: loop_up_def)

lemma loop_up_conserves:
  assumes "loop_up (hand_on get put bound) (length (snd s)) s = Inr s'"
  shows "total s' = total s" and "length (snd s') = length (snd s)"
    and "get (fst s') = 0 \<or> visit (hand_on get put bound) [0..<length (snd s)] s = (False, s')"
proof -
  obtain br where run: "visit (hand_on get put bound) [0..<length (snd s)] s = (br, s')"
    using assms by (rule loop_up_run)
  have up: "set [0..<length (snd s)] \<subseteq> {..<length (snd s)}" by auto
  show "total s' = total s" and "length (snd s') = length (snd s)"
    and "get (fst s') = 0 \<or> visit (hand_on get put bound) [0..<length (snd s)] s = (False, s')"
    using visit_total [OF run up] run by (cases br; simp)+
qed

lemma loop_up_frame:
  assumes "\<And>h st. g (put h st) = g st" and "loop_up (hand_on get put bound) (length (snd s)) s = Inr s'"
  shows "g (fst s') = g (fst s)" and "map g (snd s') = map g (snd s)"
proof -
  obtain br where run: "visit (hand_on get put bound) [0..<length (snd s)] s = (br, s')"
    using assms(2) by (rule loop_up_run)
  have up: "set [0..<length (snd s)] \<subseteq> {..<length (snd s)}" by auto
  show "g (fst s') = g (fst s)" and "map g (snd s') = map g (snd s)"
    using visit_frame [where g = g, OF assms(1) run up] by simp_all
qed

lemma loop_down_returns:
  assumes "\<forall>st r v. P st \<and> I r \<and> bound st r = Some v \<longrightarrow> v = fin st \<and> J (r + get st - v)"
    and "\<forall>r. J r \<longrightarrow> I r" and "I (get (fst s))" and "\<forall>st \<in> set (snd s). P st" and "snd s \<noteq> []"
    and "\<forall>r. J r \<longrightarrow> total s \<noteq> sum_list (map fin (snd s)) + r"
  shows "\<exists>s'. loop_down (hand_on get put bound) (length (snd s)) s = Inr s'"
proof -
  let ?is = "rev [0..<length (snd s)]"
  have is_ok: "set ?is \<subseteq> {..<length (snd s)}" "distinct ?is" "\<forall>j \<in> set ?is. P (snd s ! j)" "?is \<noteq> []"
    using assms(4,5) by auto
  have False if run: "visit (hand_on get put bound) ?is s = (False, s')" for s'
  proof -
    note stuck = visit_no_break [where P = P and I = I and J = J and fin = fin,
        OF assms(1,2) run is_ok(1,2) assms(3) is_ok(3)]
    have J: "J (get (fst s'))" by (rule stuck [THEN conjunct2, THEN conjunct1, rule_format, OF is_ok(4)])
    have fin: "get (snd s' ! j) = fin (snd s ! j)" if "j < length (snd s)" for j
      using stuck [THEN conjunct2, THEN conjunct2, rule_format, OF that] that by simp
    have sums: "total s' = total s" "length (snd s') = length (snd s)"
      using visit_total [OF run is_ok(1)] by auto
    then have "map get (snd s') = map fin (snd s)" using fin by (intro nth_equalityI) auto
    with sums(1) assms(6) [rule_format, OF J] show False by simp
  qed
  then show ?thesis by (auto simp: loop_down_def split: prod.splits bool.splits)
qed

lemma distribute_conserves:
  assumes "DISTRIBUTE_MAX_STATUS get put k s = Inr s'"
  shows "sum_list (map get (snd s')) = total s" and "length (snd s') = length (snd s)"
  using assms loop_down_conserves [of "least_one get" s s']
  by (auto simp: DISTRIBUTE_MAX_STATUS_def distribute_step_hands_on sum_list_update get_put split: prod.splits if_splits)

lemma distribute_frame:
  assumes g: "\<And>h st. g (put h st) = g st" and run: "DISTRIBUTE_MAX_STATUS get put k s = Inr s'"
  shows "g (fst s') = g (fst s)" and "map g (snd s') = map g (snd s)"
proof -
  have "map g (cs[k := put h (cs ! k)]) = map g cs" for cs :: "v2_status list" and h
    using g by (cases "k < length cs") (simp_all add: map_update list_update_same_conv list_update_beyond)
  then show "g (fst s') = g (fst s)" and "map g (snd s') = map g (snd s)"
    using run loop_down_frame [where g = g, OF g, of "least_one get" s s']
    by (auto simp: DISTRIBUTE_MAX_STATUS_def distribute_step_hands_on split: prod.splits if_splits)
qed

lemma sum_ge_length: "\<forall>st \<in> set cs. 1 \<le> get st \<Longrightarrow> int (length cs) \<le> sum_list (map get cs)"
  by (induction cs) auto

lemma sum_others:
  "i < length cs \<Longrightarrow> \<forall>st \<in> set cs. 1 \<le> get st \<Longrightarrow> int (length cs) - 1 \<le> sum_list (map get cs) - get (cs ! i)"
proof (induction cs arbitrary: i)
  case (Cons a cs)
  show ?case
  proof (cases i)
    case 0
    with Cons.prems sum_ge_length [of cs] show ?thesis by simp
  next
    case (Suc k)
    with Cons.prems have "int (length cs) - 1 \<le> sum_list (map get cs) - get (cs ! k)" "1 \<le> get a"
      by (auto intro: Cons.IH)
    with Suc show ?thesis by simp
  qed
qed simp

text \<open>A descent that breaks has left at least one unit with all children but the last it came to.\<close>

lemma visit_least_one:
  "visit (hand_on get put (least_one get)) is s = (True, s') \<Longrightarrow> set is \<subseteq> {..<length (snd s)} \<Longrightarrow>
   \<forall>st \<in> set (snd s). 1 \<le> get st \<Longrightarrow> int (length (snd s)) - 1 \<le> sum_list (map get (snd s'))"
proof (induction "is" arbitrary: s)
  case (Cons i "is")
  obtain src cs where s: "s = (src, cs)" by fastforce
  have i: "i < length cs" using Cons.prems(2) s by auto
  show ?case
  proof (cases "get (cs ! i) + get src < 0")
    case True
    define s1 where "s1 = (put (\<lambda>_. get src + get (cs ! i) - 1) src, cs[i := put (\<lambda>_. 1) (cs ! i)])"
    have "hand_on get put (least_one get) i s = (False, s1)"
      using True by (simp add: s hand_on_def least_one_def s1_def)
    moreover have "\<forall>st \<in> set (snd s1). 1 \<le> get st"
      using Cons.prems(3) by (auto simp: s s1_def get_put dest!: set_update_subset_insert [THEN subsetD])
    ultimately show ?thesis using Cons.IH [of s1] Cons.prems by (simp add: s s1_def)
  next
    case False
    then have "hand_on get put (least_one get) i s =
        (True, put (\<lambda>_. 0) src, cs[i := put (\<lambda>_. get (cs ! i) + get src) (cs ! i)])"
      by (simp add: s hand_on_def least_one_def)
    with Cons.prems(1) have s': "s' = (put (\<lambda>_. 0) src, cs[i := put (\<lambda>_. get (cs ! i) + get src) (cs ! i)])" by simp
    have "int (length cs) - 1 \<le> sum_list (map get cs) - get (cs ! i)"
      using sum_others [OF i] Cons.prems(3) s by simp
    with False i show ?thesis by (simp add: s s' sum_list_update get_put)
  qed
qed simp

lemma distribute_underflows:
  assumes "\<forall>st \<in> set (snd s). 1 \<le> get st" and "get (fst s) < 0" and "total s < int (length (snd s)) - 1"
  shows "DISTRIBUTE_MAX_STATUS get put k s = Inl Bad_index"
proof -
  obtain br s' where run: "visit (hand_on get put (least_one get)) (rev [0..<length (snd s)]) s = (br, s')"
    by (cases "visit (hand_on get put (least_one get)) (rev [0..<length (snd s)]) s")
  have down: "set (rev [0..<length (snd s)]) \<subseteq> {..<length (snd s)}" by auto
  have "\<not> br"
    using visit_total [OF run down] visit_least_one [of "rev [0..<length (snd s)]" s s'] run down assms(1,3) by auto
  with run assms(2) show ?thesis
    by (cases s) (simp add: DISTRIBUTE_MAX_STATUS_def loop_down_def distribute_step_hands_on)
qed

lemma distribute_returns:
  assumes "k < length (snd s)" and "int (length (snd s)) \<le> total s"
  shows "\<exists>s'. DISTRIBUTE_MAX_STATUS get put k s = Inr s'"
proof (cases "get (fst s) \<ge> 0")
  case True
  with assms show ?thesis by (auto simp: DISTRIBUTE_MAX_STATUS_def split: prod.splits)
next
  case False
  have "\<exists>s'. loop_down (hand_on get put (least_one get)) (length (snd s)) s = Inr s'"
    by (rule loop_down_returns [where P = "\<lambda>_. True" and I = "\<lambda>r. r < 0" and J = "\<lambda>r. r < 0" and fin = "\<lambda>_. 1"])
       (use False assms in \<open>auto simp: least_one_def sum_list_triv split: if_splits\<close>)
  with False show ?thesis by (auto simp: DISTRIBUTE_MAX_STATUS_def distribute_step_hands_on split: prod.splits)
qed

end

interpretation f_charging: status_field v2_max_charging_current_mA v2_max_charging_current_mA_update
  by unfold_locales simp_all

interpretation f_discharging: status_field v2_max_discharging_current_mA v2_max_discharging_current_mA_update
  by unfold_locales simp_all

interpretation f_max: status_field v2_max_capacity_mAh v2_max_capacity_mAh_update
  by unfold_locales simp_all

interpretation f_current: status_field v2_current_mA v2_current_mA_update
  by unfold_locales simp_all

interpretation f_capacity: status_field v2_capacity_mAh v2_capacity_mAh_update
  by unfold_locales simp_all

lemma bodies_hand_on:
  "raise_current = hand_on v2_current_mA v2_current_mA_update discharge_bound"
  "lower_current = hand_on v2_current_mA v2_current_mA_update charge_bound"
  "raise_capacity = hand_on v2_capacity_mAh v2_capacity_mAh_update full_bound"
  "lower_capacity = hand_on v2_capacity_mAh v2_capacity_mAh_update empty_bound"
  by (intro ext; auto simp: raise_current_def lower_current_def raise_capacity_def lower_capacity_def hand_on_def
      discharge_bound_def charge_bound_def full_bound_def empty_bound_def Let_def algebra_simps split: prod.splits)+

section \<open>The shares of a well-wired policy\<close>

text \<open>What the constructor sets up for distinct names: one entry per child in every vector.\<close>

definition wired :: "splitter \<Rightarrow> bool" where
  "wired sp \<longleftrightarrow>
     (let n = length (split_names sp) in
      length (child_scales sp) = n \<and> length (child_original_status sp) = n \<and>
      length (children_current_now sp) = n \<and> length (children_last_charge_estimate_timepoint sp) = n \<and>
      length (children_estimated_charge_now sp) = n \<and> length (children_status_now sp) = n \<and>
      (\<forall>i < n. map_of (name_lookup sp) (split_names sp ! i) = Some i))"

lemma charge_estimate_frame:
  "split_names (charge_estimate now i sp) = split_names sp"
  "children_current_now (charge_estimate now i sp) = children_current_now sp"
  "child_original_status (charge_estimate now i sp) = child_original_status sp"
  "child_scales (charge_estimate now i sp) = child_scales sp"
  "wired (charge_estimate now i sp) = wired sp"
  by (simp_all add: charge_estimate_def wired_def)

lemma estimate_frame:
  "split_names (fold (charge_estimate now) is sp) = split_names sp"
  "children_current_now (fold (charge_estimate now) is sp) = children_current_now sp"
  "child_original_status (fold (charge_estimate now) is sp) = child_original_status sp"
  "child_scales (fold (charge_estimate now) is sp) = child_scales sp"
  "wired (fold (charge_estimate now) is sp) = wired sp"
  by (induction "is" arbitrary: sp) (simp_all add: charge_estimate_frame)

lemma lookup_table_distinct:
  assumes "distinct names" and "i < length names"
  shows "map_of (lookup_table names) (names ! i) = Some i"
proof -
  let ?step = "\<lambda>i m. map_update (names ! i) (\<lambda>_. i) (map_insert (<) (names ! i) 0 m)"
  have step: "map_of (?step n m) = (map_of m)(names ! n \<mapsto> n)" "str.wf_map (?step n m)"
    if "str.wf_map m" for n and m :: "(string \<times> nat) list"
    using that by (auto simp: map_of_map_update str.map_of_insert str.wf_map_insert split: option.splits)
  have "str.wf_map (fold ?step [0..<n] []) \<and> (\<forall>j < n. map_of (fold ?step [0..<n] []) (names ! j) = Some j)"
    if "n \<le> length names" for n
    using that
  proof (induction n)
    case (Suc n)
    then show ?case
      using step [of "fold ?step [0..<n] []" n] assms(1) by (auto simp: less_Suc_eq nth_eq_iff_index_eq)
  qed simp
  with assms(2) show ?thesis by (simp add: lookup_table_def)
qed

lemma new_BALSplitter_wired:
  "distinct names \<Longrightarrow> length scales = length names \<Longrightarrow>
   wired (v2_device (new_BALSplitter p src names scales ty ms st now))"
  by (simp add: wired_def new_BALSplitter_def new_v2_battery_def Let_def lookup_table_distinct)

lemma child_share_subtract [simp]:
  "child_share sp cid (foldl subtract_share src sts) = child_share sp cid src"
  by (induction sts arbitrary: src) (simp_all add: child_share_def subtract_share_def Let_def)

lemma take_all:
  assumes "wired sp" and "m \<le> length (split_names sp)"
  shows "ofold take_share (take m (split_names sp)) (src, sp) =
    Inr (foldl subtract_share src (map (\<lambda>j. child_share sp j src) [0..<m]),
         sp\<lparr>children_status_now := map (\<lambda>j. child_share sp j src) [0..<m] @ drop m (children_status_now sp)\<rparr>)"
  using assms(2)
proof (induction m)
  case (Suc m)
  let ?sts = "map (\<lambda>j. child_share sp j src) [0..<m]"
  let ?sp = "sp\<lparr>children_status_now := ?sts @ drop m (children_status_now sp)\<rparr>"
  have m: "m < length (split_names sp)" using Suc.prems by simp
  have id: "child_id_of (split_names sp ! m) ?sp = (m, ?sp)"
    using assms(1) m by (simp add: child_id_of_def wired_def Let_def)
  have share: "child_share ?sp m x = child_share sp m x" for x by (simp add: child_share_def)
  have rest: "(?sts @ drop m (children_status_now sp))[m := st] = ?sts @ [st] @ drop (Suc m) (children_status_now sp)" for st
    using assms(1) m Cons_nth_drop_Suc [of m "children_status_now sp"]
    by (simp add: wired_def Let_def list_update_append split: nat.splits)
      (metis list_update_code(2))
  have step: "take_share (split_names sp ! m) (foldl subtract_share src ?sts, ?sp) =
      Inr (subtract_share (foldl subtract_share src ?sts) (child_share sp m src),
           ?sp\<lparr>children_status_now := ?sts @ [child_share sp m src] @ drop (Suc m) (children_status_now sp)\<rparr>)"
    using assms(1) m by (simp add: take_share_def id share rest wired_def Let_def)
  show ?case
    using Suc step by (simp add: take_Suc_conv_app_nth [OF m] ofold_append)
qed simp

definition shares_of :: "v2_status \<Rightarrow> splitter \<Rightarrow> v2_status list" where
  "shares_of src sp = map (\<lambda>j. child_share sp j src) [0..<length (split_names sp)]"

lemma refresh_shares_wired:
  assumes "wired sp"
  shows "refresh_shares distribute src (split_names sp) now sp =
    (let sp1 = estimate_all now sp; sts = shares_of src sp1 in
     obind (distribute (foldl subtract_share src sts, sts)) (\<lambda>(_, cs). Inr (sp1\<lparr>children_status_now := cs\<rparr>)))"
proof -
  let ?sp = "estimate_all now sp"
  have sp: "wired ?sp" "split_names ?sp = split_names sp"
    using assms by (simp_all add: estimate_all_def estimate_frame)
  then have "length (children_status_now ?sp) = length (split_names sp)" by (simp add: wired_def Let_def)
  then show ?thesis
    using take_all [OF sp(1), of "length (split_names sp)" src] sp(2)
    by (simp add: refresh_shares_def shares_of_def Let_def)
qed

lemma subtract_totals:
  "v2_current_mA (foldl subtract_share src sts) = v2_current_mA src - sum_list (map v2_current_mA sts)"
  "v2_capacity_mAh (foldl subtract_share src sts) = v2_capacity_mAh src - sum_list (map v2_capacity_mAh sts)"
  "v2_max_capacity_mAh (foldl subtract_share src sts) = v2_max_capacity_mAh src - sum_list (map v2_max_capacity_mAh sts)"
  "v2_max_charging_current_mA (foldl subtract_share src sts) =
     v2_max_charging_current_mA src - sum_list (map v2_max_charging_current_mA sts)"
  "v2_max_discharging_current_mA (foldl subtract_share src sts) =
     v2_max_discharging_current_mA src - sum_list (map v2_max_discharging_current_mA sts)"
  by (induction sts arbitrary: src) (simp_all add: subtract_share_def)

section \<open>The children's shares add up to the source\<close>

lemma limits_conserve:
  assumes "distribute_limits k s = Inr s'"
  shows "sum_list (map v2_max_charging_current_mA (snd s')) = f_charging.total s"
    and "sum_list (map v2_max_discharging_current_mA (snd s')) = f_discharging.total s"
    and "sum_list (map v2_max_capacity_mAh (snd s')) = f_max.total s"
    and "v2_current_mA (fst s') = v2_current_mA (fst s)" and "map v2_current_mA (snd s') = map v2_current_mA (snd s)"
    and "v2_capacity_mAh (fst s') = v2_capacity_mAh (fst s)" and "map v2_capacity_mAh (snd s') = map v2_capacity_mAh (snd s)"
    and "length (snd s') = length (snd s)"
proof -
  obtain s1 s2 where
    r1: "DISTRIBUTE_MAX_STATUS v2_max_charging_current_mA v2_max_charging_current_mA_update k s = Inr s1" and
    r2: "DISTRIBUTE_MAX_STATUS v2_max_discharging_current_mA v2_max_discharging_current_mA_update k s1 = Inr s2" and
    r3: "DISTRIBUTE_MAX_STATUS v2_max_capacity_mAh v2_max_capacity_mAh_update k s2 = Inr s'"
    using assms by (auto simp: distribute_limits_def)
  note frames = f_charging.distribute_frame [OF _ r1] f_discharging.distribute_frame [OF _ r2] f_max.distribute_frame [OF _ r3]
  show "sum_list (map v2_max_charging_current_mA (snd s')) = f_charging.total s"
    using f_charging.distribute_conserves(1) [OF r1] frames(4,6) [where g = v2_max_charging_current_mA] by simp
  show "sum_list (map v2_max_discharging_current_mA (snd s')) = f_discharging.total s"
    using f_discharging.distribute_conserves(1) [OF r2] frames(1,2,6) [where g = v2_max_discharging_current_mA] by simp
  show "sum_list (map v2_max_capacity_mAh (snd s')) = f_max.total s"
    using f_max.distribute_conserves(1) [OF r3] frames(1-4) [where g = v2_max_capacity_mAh] by simp
  show "v2_current_mA (fst s') = v2_current_mA (fst s)" "map v2_current_mA (snd s') = map v2_current_mA (snd s)"
    using frames [where g = v2_current_mA] by simp_all
  show "v2_capacity_mAh (fst s') = v2_capacity_mAh (fst s)" "map v2_capacity_mAh (snd s') = map v2_capacity_mAh (snd s)"
    using frames [where g = v2_capacity_mAh] by simp_all
  show "length (snd s') = length (snd s)"
    using f_charging.distribute_conserves(2) [OF r1] f_discharging.distribute_conserves(2) [OF r2]
      f_max.distribute_conserves(2) [OF r3] by simp
qed

text \<open>The current and then the capacity, both by loops that count down.\<close>

lemma current_down:
  assumes "(if v2_current_mA (fst s) \<ge> 0 then loop_down raise_current (length (snd s)) s
            else loop_down lower_current (length (snd s)) s) = Inr s'"
  shows "sum_list (map v2_current_mA (snd s')) = f_current.total s"
    and "length (snd s') = length (snd s)"
    and "(\<And>h st. g (v2_current_mA_update h st) = g st) \<Longrightarrow> g (fst s') = g (fst s) \<and> map g (snd s') = map g (snd s)"
  using assms f_current.loop_down_conserves f_current.loop_down_frame [where g = g]
  by (auto simp: bodies_hand_on split: if_splits)

lemma capacity_down:
  assumes "(if v2_capacity_mAh (fst s) \<ge> 0 then loop_down raise_capacity (length (snd s)) s
            else loop_down lower_capacity (length (snd s)) s) = Inr s'"
  shows "sum_list (map v2_capacity_mAh (snd s')) = f_capacity.total s"
    and "length (snd s') = length (snd s)"
    and "(\<And>h st. g (v2_capacity_mAh_update h st) = g st) \<Longrightarrow> map g (snd s') = map g (snd s)"
  using assms f_capacity.loop_down_conserves f_capacity.loop_down_frame [where g = g]
  by (auto simp: bodies_hand_on split: if_splits)

lemma reservation_stages:
  "distribute_reservation s = obind (distribute_limits (length (snd s) - 1) s)
     (\<lambda>s1. obind (if v2_current_mA (fst s1) \<ge> 0 then loop_down raise_current (length (snd s1)) s1
                   else loop_down lower_current (length (snd s1)) s1)
       (\<lambda>s2. if v2_capacity_mAh (fst s2) \<ge> 0 then loop_down raise_capacity (length (snd s2)) s2
             else loop_down lower_capacity (length (snd s2)) s2))"
  by (simp add: distribute_reservation_def case_prod_unfold cong: if_cong)

lemma reservation_totals:
  assumes "distribute_reservation s = Inr s'"
  shows "sum_list (map v2_max_charging_current_mA (snd s')) = f_charging.total s"
    and "sum_list (map v2_max_discharging_current_mA (snd s')) = f_discharging.total s"
    and "sum_list (map v2_max_capacity_mAh (snd s')) = f_max.total s"
    and "sum_list (map v2_current_mA (snd s')) = f_current.total s"
    and "sum_list (map v2_capacity_mAh (snd s')) = f_capacity.total s"
proof -
  obtain s1 s2 where r1: "distribute_limits (length (snd s) - 1) s = Inr s1"
    and r2: "(if v2_current_mA (fst s1) \<ge> 0 then loop_down raise_current (length (snd s1)) s1
              else loop_down lower_current (length (snd s1)) s1) = Inr s2"
    and r3: "(if v2_capacity_mAh (fst s2) \<ge> 0 then loop_down raise_capacity (length (snd s2)) s2
              else loop_down lower_capacity (length (snd s2)) s2) = Inr s'"
    using assms unfolding reservation_stages by (elim obind_InrE)
  note l = limits_conserve [OF r1] and c = current_down [OF r2] and k = capacity_down [OF r3]
  show "sum_list (map v2_max_charging_current_mA (snd s')) = f_charging.total s"
    using l(1) c(3) [of v2_max_charging_current_mA] k(3) [of v2_max_charging_current_mA] by simp
  show "sum_list (map v2_max_discharging_current_mA (snd s')) = f_discharging.total s"
    using l(2) c(3) [of v2_max_discharging_current_mA] k(3) [of v2_max_discharging_current_mA] by simp
  show "sum_list (map v2_max_capacity_mAh (snd s')) = f_max.total s"
    using l(3) c(3) [of v2_max_capacity_mAh] k(3) [of v2_max_capacity_mAh] by simp
  show "sum_list (map v2_current_mA (snd s')) = f_current.total s"
    using l(4,5) c(1) k(3) [of v2_current_mA] by simp
  show "sum_list (map v2_capacity_mAh (snd s')) = f_capacity.total s"
    using l(6,7) c(3) [of v2_capacity_mAh] k(1) by simp
qed

text \<open>
  C28: whenever the reservation policy finishes a refresh, the statuses it holds for the children add up to
  the status of the source: current, capacity, maximum capacity and both current limits.
\<close>

theorem reservation_conserves_source:
  assumes "wired sp" and "refresh_reservation source (split_names sp) now sp = Inr sp'"
  shows "sum_list (map v2_current_mA (children_status_now sp')) = v2_current_mA source \<and>
    sum_list (map v2_capacity_mAh (children_status_now sp')) = v2_capacity_mAh source \<and>
    sum_list (map v2_max_capacity_mAh (children_status_now sp')) = v2_max_capacity_mAh source \<and>
    sum_list (map v2_max_charging_current_mA (children_status_now sp')) = v2_max_charging_current_mA source \<and>
    sum_list (map v2_max_discharging_current_mA (children_status_now sp')) = v2_max_discharging_current_mA source"
proof -
  let ?sts = "shares_of source (estimate_all now sp)"
  obtain s' where "distribute_reservation (foldl subtract_share source ?sts, ?sts) = Inr s'"
      "children_status_now sp' = snd s'"
    using assms by (auto simp: refresh_reservation_def refresh_shares_wired Let_def)
  with reservation_totals [of "(foldl subtract_share source ?sts, ?sts)" s'] show ?thesis
    by (simp add: subtract_totals)
qed

lemma tranche_stages:
  "distribute_tranche s = obind (distribute_limits 0 s)
     (\<lambda>s1. obind (if v2_current_mA (fst s1) \<ge> 0 then loop_down raise_current (length (snd s1)) s1
                   else loop_up lower_current (length (snd s1)) s1)
       (\<lambda>s2. if v2_capacity_mAh (fst s2) \<ge> 0 then loop_up raise_capacity (length (snd s2)) s2
             else loop_down lower_capacity (length (snd s2)) s2))"
  by (simp add: distribute_tranche_def case_prod_unfold cong: if_cong)

lemma current_either:
  fixes g :: "v2_status \<Rightarrow> int"
  assumes "(if v2_current_mA (fst s) \<ge> 0 then loop_down raise_current (length (snd s)) s
            else loop_up lower_current (length (snd s)) s) = Inr s'"
    and "\<And>h st. g (v2_current_mA_update h st) = g st"
  shows "g (fst s') = g (fst s) \<and> map g (snd s') = map g (snd s)"
proof (cases "v2_current_mA (fst s) \<ge> 0")
  case True
  with assms(1) have "loop_down (hand_on v2_current_mA v2_current_mA_update discharge_bound) (length (snd s)) s = Inr s'"
    by (simp add: bodies_hand_on)
  from f_current.loop_down_frame [where g = g, OF assms(2) this] show ?thesis by simp
next
  case False
  with assms(1) have "loop_up (hand_on v2_current_mA v2_current_mA_update charge_bound) (length (snd s)) s = Inr s'"
    by (simp add: bodies_hand_on)
  from f_current.loop_up_frame [where g = g, OF assms(2) this] show ?thesis by simp
qed

lemma capacity_either:
  assumes "(if v2_capacity_mAh (fst s) \<ge> 0 then loop_up raise_capacity (length (snd s)) s
            else loop_down lower_capacity (length (snd s)) s) = Inr s'"
  shows "(\<And>h st. g (v2_capacity_mAh_update h st) = g st) \<Longrightarrow> map g (snd s') = map g (snd s)"
    and "sum_list (map v2_capacity_mAh (snd s')) = f_capacity.total s \<or>
         map v2_capacity_mAh (snd s') = map v2_max_capacity_mAh (snd s')"
proof -
  have *: "(\<forall>g. (\<forall>h st. g (v2_capacity_mAh_update h st) = g st) \<longrightarrow> map g (snd s') = map g (snd s)) \<and>
    (sum_list (map v2_capacity_mAh (snd s')) = f_capacity.total s \<or>
         map v2_capacity_mAh (snd s') = map v2_max_capacity_mAh (snd s'))"
  proof (cases "v2_capacity_mAh (fst s) \<ge> 0")
    case True
    with assms have run: "loop_up (hand_on v2_capacity_mAh v2_capacity_mAh_update full_bound) (length (snd s)) s = Inr s'"
      by (simp add: bodies_hand_on)
    note up = f_capacity.loop_up_conserves [OF run] and frame = f_capacity.loop_up_frame [OF _ run]
    have "map v2_capacity_mAh (snd s') = map v2_max_capacity_mAh (snd s')"
      if stuck: "visit (hand_on v2_capacity_mAh v2_capacity_mAh_update full_bound) [0..<length (snd s)] s = (False, s')"
    proof -
      have "\<forall>st r v. True \<and> True \<and> full_bound st r = Some v \<longrightarrow> v = v2_max_capacity_mAh st \<and> True"
        by (simp add: full_bound_def)
      then have "\<forall>j < length (snd s). v2_capacity_mAh (snd s' ! j) = v2_max_capacity_mAh (snd s ! j)"
        using f_capacity.visit_no_break [where P = "\<lambda>_. True" and I = "\<lambda>_. True" and J = "\<lambda>_. True"
            and fin = v2_max_capacity_mAh and bound = full_bound, OF _ _ stuck]
        by (simp add: lessThan_atLeast0)
      then have "map v2_capacity_mAh (snd s') = map v2_max_capacity_mAh (snd s)"
        using up(2) by (intro nth_equalityI) auto
      with frame(2) [where g = v2_max_capacity_mAh] show ?thesis by simp
    qed
    with up frame(2) show ?thesis by auto
  next
    case False
    with assms have run: "loop_down (hand_on v2_capacity_mAh v2_capacity_mAh_update empty_bound) (length (snd s)) s = Inr s'"
      by (simp add: bodies_hand_on)
    with f_capacity.loop_down_conserves [OF run] f_capacity.loop_down_frame(2) [OF _ run] show ?thesis by auto
  qed
  then show "(\<And>h st. g (v2_capacity_mAh_update h st) = g st) \<Longrightarrow> map g (snd s') = map g (snd s)"
    and "sum_list (map v2_capacity_mAh (snd s')) = f_capacity.total s \<or>
         map v2_capacity_mAh (snd s') = map v2_max_capacity_mAh (snd s')" by blast+
qed

section \<open>When a refresh finishes\<close>

lemma limits_return:
  assumes "k < length (snd s)" and "int (length (snd s)) \<le> f_charging.total s"
    and "int (length (snd s)) \<le> f_discharging.total s" and "int (length (snd s)) \<le> f_max.total s"
  shows "\<exists>s'. distribute_limits k s = Inr s'"
proof -
  obtain s1 where r1: "DISTRIBUTE_MAX_STATUS v2_max_charging_current_mA v2_max_charging_current_mA_update k s = Inr s1"
    using f_charging.distribute_returns [OF assms(1,2)] by blast
  note len1 = f_charging.distribute_conserves(2) [OF r1] and fr1 = f_charging.distribute_frame [OF _ r1]
  obtain s2 where r2: "DISTRIBUTE_MAX_STATUS v2_max_discharging_current_mA v2_max_discharging_current_mA_update k s1 = Inr s2"
    using f_discharging.distribute_returns [of k s1] assms len1 fr1 [where g = v2_max_discharging_current_mA] by auto
  note len2 = f_discharging.distribute_conserves(2) [OF r2] and fr2 = f_discharging.distribute_frame [OF _ r2]
  obtain s3 where "DISTRIBUTE_MAX_STATUS v2_max_capacity_mAh v2_max_capacity_mAh_update k s2 = Inr s3"
    using f_max.distribute_returns [of k s2] assms len1 len2 fr1 [where g = v2_max_capacity_mAh]
      fr2 [where g = v2_max_capacity_mAh] by auto
  with r1 r2 show ?thesis by (simp add: distribute_limits_def)
qed

lemma raise_current_returns:
  assumes "0 \<le> v2_current_mA (fst s)" and "\<forall>st \<in> set (snd s). 0 \<le> v2_current_mA st" and "snd s \<noteq> []"
    and "f_current.total s \<le> sum_list (map v2_max_discharging_current_mA (snd s))"
  shows "\<exists>s'. loop_down raise_current (length (snd s)) s = Inr s'"
  unfolding bodies_hand_on
  by (rule f_current.loop_down_returns [where P = "\<lambda>st. 0 \<le> v2_current_mA st" and I = "\<lambda>r. 0 \<le> r" and J = "\<lambda>r. 0 < r"
        and fin = v2_max_discharging_current_mA])
     (use assms in \<open>auto simp: discharge_bound_def Let_def split: if_splits\<close>)

lemma lower_current_returns:
  assumes "v2_current_mA (fst s) < 0" and "\<forall>st \<in> set (snd s). 0 \<le> v2_current_mA st" and "snd s \<noteq> []"
    and "0 \<le> f_current.total s"
  shows "\<exists>s'. loop_down lower_current (length (snd s)) s = Inr s'"
  unfolding bodies_hand_on
  by (rule f_current.loop_down_returns [where P = "\<lambda>st. 0 \<le> v2_current_mA st" and I = "\<lambda>r. r < 0" and J = "\<lambda>r. r < 0"
        and fin = "\<lambda>_. 0"])
     (use assms in \<open>auto simp: charge_bound_def Let_def sum_list_triv split: if_splits\<close>)

lemma capacity_returns:
  assumes "snd s \<noteq> []" and "int (length (snd s)) \<le> f_capacity.total s"
    and "f_capacity.total s \<le> sum_list (map v2_max_capacity_mAh (snd s))"
  shows "0 \<le> v2_capacity_mAh (fst s) \<Longrightarrow> \<exists>s'. loop_down raise_capacity (length (snd s)) s = Inr s'"
    and "v2_capacity_mAh (fst s) < 0 \<Longrightarrow> \<exists>s'. loop_down lower_capacity (length (snd s)) s = Inr s'"
  unfolding bodies_hand_on
   by (rule f_capacity.loop_down_returns [where P = "\<lambda>_. True" and I = "\<lambda>r. 0 \<le> r" and J = "\<lambda>r. 0 < r"
        and fin = v2_max_capacity_mAh];
       use assms in \<open>auto simp: full_bound_def split: if_splits\<close>)
      (rule f_capacity.loop_down_returns [where P = "\<lambda>_. True" and I = "\<lambda>r. r < 0" and J = "\<lambda>r. r < 0"
        and fin = "\<lambda>_. 1"];
       use assms in \<open>auto simp: empty_bound_def sum_list_triv split: if_splits\<close>)

text \<open>
  A source that can be shared: every quantity has room for one unit per child, it discharges within
  its limit or is idle, and its charge is within its capacity.
\<close>

definition shareable :: "nat \<Rightarrow> v2_status \<Rightarrow> bool" where
  "shareable n st \<longleftrightarrow> 0 < n \<and> 0 \<le> v2_current_mA st \<and> v2_current_mA st \<le> v2_max_discharging_current_mA st \<and>
     int n \<le> v2_capacity_mAh st \<and> v2_capacity_mAh st \<le> v2_max_capacity_mAh st \<and>
     int n \<le> v2_max_charging_current_mA st \<and> int n \<le> v2_max_discharging_current_mA st"

text \<open>What the limits leave to the later loops, and what the current leaves to the capacity.\<close>

definition capacity_ready :: "shares \<Rightarrow> bool" where
  "capacity_ready s \<longleftrightarrow> snd s \<noteq> [] \<and> int (length (snd s)) \<le> f_capacity.total s \<and>
     f_capacity.total s \<le> sum_list (map v2_max_capacity_mAh (snd s))"

lemma current_stage:
  assumes "capacity_ready s" and "\<forall>st \<in> set (snd s). 0 \<le> v2_current_mA st" and "0 \<le> f_current.total s"
    and "f_current.total s \<le> sum_list (map v2_max_discharging_current_mA (snd s))"
    and "f \<in> {loop_down lower_current, loop_up lower_current}"
  shows "\<exists>s'. (if 0 \<le> v2_current_mA (fst s) then loop_down raise_current (length (snd s)) s
               else f (length (snd s)) s) = Inr s' \<and> capacity_ready s'"
proof -
  have "snd s \<noteq> []" using assms(1) by (simp add: capacity_ready_def)
  then have "\<exists>s'. (if 0 \<le> v2_current_mA (fst s) then loop_down raise_current (length (snd s)) s
      else f (length (snd s)) s) = Inr s'"
    using assms(2-5) raise_current_returns [of s] lower_current_returns [of s]
    by (cases "0 \<le> v2_current_mA (fst s)") (auto simp: loop_up_def)
  then obtain s' where run: "(if 0 \<le> v2_current_mA (fst s) then loop_down raise_current (length (snd s)) s
      else f (length (snd s)) s) = Inr s'" by blast
  then obtain B where loop: "loop_down (hand_on v2_current_mA v2_current_mA_update B) (length (snd s)) s = Inr s' \<or>
      loop_up (hand_on v2_current_mA v2_current_mA_update B) (length (snd s)) s = Inr s'"
    using assms(5) unfolding bodies_hand_on by (auto split: if_splits)
  have "length (snd s') = length (snd s)"
    using loop f_current.loop_down_conserves(2) [of B s s'] f_current.loop_up_conserves(2) [of B s s'] by blast
  moreover have "g (fst s') = g (fst s) \<and> map g (snd s') = map g (snd s)"
    if "\<And>h st. g (v2_current_mA_update h st) = g st" for g :: "v2_status \<Rightarrow> int"
    using loop
  proof
    assume down: "loop_down (hand_on v2_current_mA v2_current_mA_update B) (length (snd s)) s = Inr s'"
    show ?thesis by (intro conjI f_current.loop_down_frame [where g = g, OF that down])
  next
    assume up: "loop_up (hand_on v2_current_mA v2_current_mA_update B) (length (snd s)) s = Inr s'"
    show ?thesis by (intro conjI f_current.loop_up_frame [where g = g, OF that up])
  qed
  from this [of v2_capacity_mAh] this [of v2_max_capacity_mAh]
  have "v2_capacity_mAh (fst s') = v2_capacity_mAh (fst s)" "map v2_capacity_mAh (snd s') = map v2_capacity_mAh (snd s)"
    "map v2_max_capacity_mAh (snd s') = map v2_max_capacity_mAh (snd s)" by simp_all
  ultimately have "capacity_ready s'" using assms(1) by (auto simp: capacity_ready_def)
  with run show ?thesis by blast
qed

lemma capacity_stage:
  assumes "capacity_ready s" and "f \<in> {loop_down raise_capacity, loop_up raise_capacity}"
  shows "\<exists>s'. (if 0 \<le> v2_capacity_mAh (fst s) then f (length (snd s)) s
               else loop_down lower_capacity (length (snd s)) s) = Inr s'"
  using assms capacity_returns [of s] by (auto simp: capacity_ready_def loop_up_def)

lemma shareable_refresh_returns:
  assumes "wired sp" and "shareable (length (split_names sp)) source"
    and "\<forall>c \<in> set (children_current_now sp). 0 \<le> c"
  shows "\<exists>sp'. refresh_reservation source (split_names sp) now sp = Inr sp'"
    and "\<exists>sp'. refresh_tranche source (split_names sp) now sp = Inr sp'"
proof -
  let ?sp = "estimate_all now sp"
  let ?sts = "shares_of source ?sp"
  let ?s = "(foldl subtract_share source ?sts, ?sts)"
  let ?n = "length (split_names sp)"
  have sp: "wired ?sp" "split_names ?sp = split_names sp" "children_current_now ?sp = children_current_now sp"
    using assms(1) by (simp_all add: estimate_all_def estimate_frame)
  have n: "length ?sts = ?n" "0 < ?n" using assms(2) by (simp_all add: shares_of_def sp(2) shareable_def)
  have cur: "\<forall>c \<in> set (map v2_current_mA ?sts). 0 \<le> c"
    using assms(1,3) sp by (auto simp: shares_of_def child_share_def wired_def Let_def)
  have limits: "\<exists>s1. distribute_limits k ?s = Inr s1 \<and> capacity_ready s1 \<and>
      (\<forall>st \<in> set (snd s1). 0 \<le> v2_current_mA st) \<and> 0 \<le> f_current.total s1 \<and>
      f_current.total s1 \<le> sum_list (map v2_max_discharging_current_mA (snd s1))" if "k < ?n" for k
  proof -
    have "\<exists>s1. distribute_limits k ?s = Inr s1"
      by (rule limits_return) (use that assms(2) n in \<open>simp_all add: subtract_totals shareable_def\<close>)
    then obtain s1 where r: "distribute_limits k ?s = Inr s1" by blast
    note l = limits_conserve [OF r]
    have "\<forall>c \<in> set (map v2_current_mA (snd s1)). 0 \<le> c" unfolding l(5) using cur by simp
    then have "\<forall>st \<in> set (snd s1). 0 \<le> v2_current_mA st" by simp
    moreover have "snd s1 \<noteq> []" using l(8) n by auto
    ultimately show ?thesis
      using r l assms(2) n by (auto simp: subtract_totals shareable_def capacity_ready_def)
  qed
  have run: "\<exists>s'. obind (distribute_limits k ?s)
      (\<lambda>s1. obind (if v2_current_mA (fst s1) \<ge> 0 then loop_down raise_current (length (snd s1)) s1
                    else lower (length (snd s1)) s1)
        (\<lambda>s2. if v2_capacity_mAh (fst s2) \<ge> 0 then raise (length (snd s2)) s2
              else loop_down lower_capacity (length (snd s2)) s2)) = Inr s'"
    if "k < ?n" and low: "lower \<in> {loop_down lower_current, loop_up lower_current}"
      and high: "raise \<in> {loop_down raise_capacity, loop_up raise_capacity}" for k lower raise
  proof -
    obtain s1 where s1: "distribute_limits k ?s = Inr s1" "capacity_ready s1"
        "\<forall>st \<in> set (snd s1). 0 \<le> v2_current_mA st" "0 \<le> f_current.total s1"
        "f_current.total s1 \<le> sum_list (map v2_max_discharging_current_mA (snd s1))"
      using limits [OF \<open>k < ?n\<close>] by blast
    obtain s2 where "(if v2_current_mA (fst s1) \<ge> 0 then loop_down raise_current (length (snd s1)) s1
                    else lower (length (snd s1)) s1) = Inr s2" "capacity_ready s2"
      using current_stage [OF s1(2-5) low] by blast
    with s1(1) capacity_stage [OF _ high] show ?thesis by simp
  qed
  have "\<exists>s'. distribute_reservation ?s = Inr s'" "\<exists>s'. distribute_tranche ?s = Inr s'"
    unfolding reservation_stages tranche_stages by (rule run; use n in simp)+
  then show "\<exists>sp'. refresh_reservation source (split_names sp) now sp = Inr sp'"
    and "\<exists>sp'. refresh_tranche source (split_names sp) now sp = Inr sp'"
    using assms(1) by (auto simp: refresh_reservation_def refresh_tranche_def refresh_shares_wired Let_def)
qed


definition source_100 :: v2_status where
  "source_100 = zero_status\<lparr>v2_current_mA := 3, v2_capacity_mAh := 50, v2_max_capacity_mAh := 90,
     v2_max_charging_current_mA := 100, v2_max_discharging_current_mA := 100\<rparr>"

lemma two_children_wired: "wired (v2_device two_children)"
  unfolding two_children_def by (rule new_BALSplitter_wired) simp_all

lemma two_children_names: "split_names (v2_device two_children) = [''a'', ''b'']"
  by (simp add: two_children_def new_BALSplitter_def new_v2_battery_def Let_def)


definition refreshed_children :: splitter where
  "refreshed_children =
     (case refresh_reservation source_100 [''a'', ''b''] 7 (v2_device two_children) of Inr sp \<Rightarrow> sp)"

lemma refreshed_children_run:
  "refresh_reservation source_100 (split_names (v2_device two_children)) 7 (v2_device two_children) = Inr refreshed_children"
proof -
  have "\<exists>sp'. refresh_reservation source_100 [''a'', ''b''] 7 (v2_device two_children) = Inr sp'"
    using shareable_refresh_returns(1) [OF two_children_wired, of source_100 7] two_children_names two_children_simps(1)
    by (simp add: shareable_def source_100_def zero_status_def)
  then show ?thesis by (auto simp: refreshed_children_def two_children_names)
qed

theorem reservation_conserves_source_witness:
  "sum_list (map v2_capacity_mAh (children_status_now refreshed_children)) = 50 \<and>
   sum_list (map v2_max_capacity_mAh (children_status_now refreshed_children)) = 90"
  using reservation_conserves_source [OF two_children_wired refreshed_children_run]
  by (simp add: source_100_def)

text \<open>
  A source whose charging limit has fallen below one unit per child, one child excepted, drives
  the unsigned index of the descending loop below zero: the refresh reads outside the vector.
\<close>

theorem short_source_leaves_vector:
  assumes "wired sp" and "split_names sp \<noteq> []"
    and "\<forall>st \<in> set (child_original_status sp). 1 \<le> v2_max_charging_current_mA st"
    and "v2_max_charging_current_mA source < int (length (split_names sp)) - 1"
  shows "refresh_tranche source (split_names sp) now sp = Inl Bad_index \<and>
         refresh_reservation source (split_names sp) now sp = Inl Bad_index"
proof -
  let ?sp = "estimate_all now sp"
  let ?sts = "shares_of source ?sp"
  let ?s = "(foldl subtract_share source ?sts, ?sts)"
  have sp: "wired ?sp" "split_names ?sp = split_names sp" "child_original_status ?sp = child_original_status sp"
    using assms(1) by (simp_all add: estimate_all_def estimate_frame)
  have n: "length ?sts = length (split_names sp)" by (simp add: shares_of_def sp(2))
  have one: "\<forall>st \<in> set ?sts. 1 \<le> v2_max_charging_current_mA st"
    using sp assms(1,3) by (auto simp: shares_of_def child_share_def wired_def Let_def)
  then have "int (length ?sts) \<le> sum_list (map v2_max_charging_current_mA ?sts)"
    by (rule f_charging.sum_ge_length)
  then have "distribute_limits k ?s = Inl Bad_index" for k
    using one f_charging.distribute_underflows [of ?s k] assms(4) n
    by (simp add: distribute_limits_def subtract_totals)
  then show ?thesis
    using assms(1) by (simp add: refresh_tranche_def refresh_reservation_def refresh_shares_wired Let_def
        distribute_tranche_def distribute_reservation_def)
qed

theorem short_source_leaves_vector_witness:
  "refresh_tranche zero_status [''a'', ''b''] 7 (v2_device two_children) = Inl Bad_index"
proof -
  have "\<forall>st \<in> set (child_original_status (v2_device two_children)). 1 \<le> v2_max_charging_current_mA st"
    by (simp add: two_children_def new_BALSplitter_def new_v2_battery_def Let_def initial_child_status_def
        scaled_def scale_of_def within_01_range_def in_int64_def)
  then show ?thesis
    using short_source_leaves_vector [OF two_children_wired, of zero_status 7] two_children_names
    by (simp add: zero_status_def)
qed

section \<open>The tranche and proportional policies\<close>

text \<open>
  C29: whenever the tranche policy finishes a refresh, the limits and the maximum capacities of the
  children add up to the source's, and so do their charges, unless every child is full.
\<close>

theorem tranche_conserves_source:
  assumes "wired sp" and "refresh_tranche source (split_names sp) now sp = Inr sp'"
  shows "sum_list (map v2_max_capacity_mAh (children_status_now sp')) = v2_max_capacity_mAh source \<and>
    sum_list (map v2_max_charging_current_mA (children_status_now sp')) = v2_max_charging_current_mA source \<and>
    sum_list (map v2_max_discharging_current_mA (children_status_now sp')) = v2_max_discharging_current_mA source \<and>
    (sum_list (map v2_capacity_mAh (children_status_now sp')) = v2_capacity_mAh source \<or>
     map v2_capacity_mAh (children_status_now sp') = map v2_max_capacity_mAh (children_status_now sp'))"
proof -
  let ?sts = "shares_of source (estimate_all now sp)"
  let ?s = "(foldl subtract_share source ?sts, ?sts)"
  obtain s' where run: "distribute_tranche ?s = Inr s'" and cs: "children_status_now sp' = snd s'"
    using assms by (auto simp: refresh_tranche_def refresh_shares_wired Let_def)
  obtain s1 s2 where r1: "distribute_limits 0 ?s = Inr s1"
    and r2: "(if v2_current_mA (fst s1) \<ge> 0 then loop_down raise_current (length (snd s1)) s1
              else loop_up lower_current (length (snd s1)) s1) = Inr s2"
    and r3: "(if v2_capacity_mAh (fst s2) \<ge> 0 then loop_up raise_capacity (length (snd s2)) s2
              else loop_down lower_capacity (length (snd s2)) s2) = Inr s'"
    using run unfolding tranche_stages by (elim obind_InrE)
  note l = limits_conserve [OF r1, simplified, unfolded subtract_totals, simplified]
  have c: "g (fst s2) = g (fst s1)" "map g (snd s2) = map g (snd s1)"
    if "\<And>h st. g (v2_current_mA_update h st) = g st" for g :: "v2_status \<Rightarrow> int"
    using current_either [OF r2 that] by simp_all
  have k: "map g (snd s') = map g (snd s2)"
    if "\<And>h st. g (v2_capacity_mAh_update h st) = g st" for g :: "v2_status \<Rightarrow> int"
    using capacity_either(1) [OF r3 that] .
  have "sum_list (map v2_capacity_mAh (snd s')) = v2_capacity_mAh source \<or>
      map v2_capacity_mAh (snd s') = map v2_max_capacity_mAh (snd s')"
    using capacity_either(2) [OF r3] c [of v2_capacity_mAh] l(6,7) by simp
  then show ?thesis
    using l(1-3) c [of v2_max_charging_current_mA] c [of v2_max_discharging_current_mA] c [of v2_max_capacity_mAh]
      k [of v2_max_charging_current_mA] k [of v2_max_discharging_current_mA] k [of v2_max_capacity_mAh]
    by (simp add: cs)
qed

definition tranched_children :: splitter where
  "tranched_children = (case refresh_tranche source_100 [''a'', ''b''] 7 (v2_device two_children) of Inr sp \<Rightarrow> sp)"

lemma tranched_children_run:
  "refresh_tranche source_100 (split_names (v2_device two_children)) 7 (v2_device two_children) = Inr tranched_children"
proof -
  have "\<exists>sp'. refresh_tranche source_100 [''a'', ''b''] 7 (v2_device two_children) = Inr sp'"
    using shareable_refresh_returns(2) [OF two_children_wired, of source_100 7] two_children_names two_children_simps(1)
    by (simp add: shareable_def source_100_def zero_status_def)
  then show ?thesis by (auto simp: tranched_children_def two_children_names)
qed

theorem tranche_conserves_source_witness:
  "sum_list (map v2_max_capacity_mAh (children_status_now tranched_children)) = 90"
  using tranche_conserves_source [OF two_children_wired tranched_children_run] by (simp add: source_100_def)

lemma update_prefix:
  "length xs = m \<Longrightarrow> m < length ys \<Longrightarrow> (xs @ drop m ys)[m := y] = xs @ [y] @ drop (Suc m) ys"
  using Cons_nth_drop_Suc [of m ys] by (metis append_Cons append_Nil list_update_length)

lemma proportional_all:
  assumes "wired sp" and "\<not> \<bar>T\<bar> < 1 / 1000000" and "m \<le> length (split_names sp)"
  shows "ofold (proportional_child src T) (take m (split_names sp)) sp =
    Inr (sp\<lparr>children_status_now := map (proportional_status src T sp) [0..<m] @ drop m (children_status_now sp)\<rparr>)"
  using assms(3)
proof (induction m)
  case (Suc m)
  let ?sts = "map (proportional_status src T sp) [0..<m]"
  let ?sp = "sp\<lparr>children_status_now := ?sts @ drop m (children_status_now sp)\<rparr>"
  have m: "m < length (split_names sp)" "m < length (children_status_now sp)" "m < length (child_scales sp)"
    using Suc.prems assms(1) by (simp_all add: wired_def Let_def)
  have id: "child_id_of (split_names sp ! m) ?sp = (m, ?sp)"
    using assms(1) m by (simp add: child_id_of_def wired_def Let_def)
  have "proportional_status src T ?sp m = proportional_status src T sp m" by (simp add: proportional_status_def Let_def)
  then have "proportional_child src T (split_names sp ! m) ?sp =
      Inr (sp\<lparr>children_status_now := ?sts @ [proportional_status src T sp m] @ drop (Suc m) (children_status_now sp)\<rparr>)"
    using m assms(2) by (simp add: proportional_child_def id update_prefix)
  with Suc show ?case by (simp add: take_Suc_conv_app_nth [OF m(1)] ofold_append)
qed simp

lemma c_round_near: "\<bar>of_int (c_round x) - x\<bar> \<le> 1 / 2"
proof (cases "0 \<le> x")
  case True
  then have "c_round x = \<lfloor>x + 1 / 2\<rfloor>" by (simp add: c_round_def)
  then show ?thesis using floor_correct [of "x + 1 / 2"] by linarith
next
  case False
  then have "c_round x = \<lceil>x - 1 / 2\<rceil>" by (simp add: c_round_def)
  then show ?thesis using ceiling_correct [of "x - 1 / 2"] by linarith
qed

lemma c_round_between: "0 \<le> x \<Longrightarrow> x \<le> of_int a \<Longrightarrow> 0 \<le> c_round x \<and> c_round x \<le> a"
  by (simp add: c_round_def) linarith

lemma sum_near:
  "\<forall>i \<in> set is. \<bar>of_int (f i) - g i\<bar> \<le> (1 / 2 :: real) \<Longrightarrow>
   \<bar>of_int (sum_list (map f is)) - sum_list (map g is)\<bar> \<le> real (length is) / 2"
proof (induction "is")
  case (Cons i "is")
  then have "\<bar>of_int (f i) - g i\<bar> \<le> (1 / 2 :: real)" "\<bar>of_int (sum_list (map f is)) - sum_list (map g is)\<bar> \<le> real (length is) / 2"
    by auto
  then have "\<bar>(of_int (f i) - g i) + (of_int (sum_list (map f is)) - sum_list (map g is))\<bar> \<le> 1 / 2 + real (length is) / 2"
    by linarith
  then show ?case by (simp add: field_simps)
qed simp

lemma shares_sum:
  assumes "length es = n" and "T = sum_list es" and "T \<noteq> 0"
  shows "sum_list (map (\<lambda>j. es ! j / T * A) [0..<n]) = (A :: real)"
proof -
  have "sum_list (map (\<lambda>j. es ! j / T * A) [0..<n]) = (\<Sum>j\<leftarrow>[0..<n]. A / T * es ! j)"
    by (simp add: mult.commute)
  also have "\<dots> = A / T * sum_list (map ((!) es) [0..<n])" by (rule sum_list_map_mult)
  also have "map ((!) es) [0..<n] = es" using assms(1) map_nth [of es] by simp
  finally show ?thesis using assms(2,3) by simp
qed

text \<open>
  C31: under the proportional policy, with estimates that are not negative and not all zero, a refresh
  gives every child a charge between nothing and the source's, and the children's charges together
  miss the source's by at most half a unit per child.
\<close>

theorem proportional_shares_bounded:
  fixes sp :: splitter and now :: nanos
  defines "es \<equiv> children_estimated_charge_now (estimate_all now sp)"
  assumes "wired sp" and "\<forall>e \<in> set es. 0 \<le> e" and "1 / 1000000 \<le> sum_list es"
    and "0 \<le> v2_capacity_mAh source" and "in_int64 (v2_capacity_mAh source)"
  shows "\<exists>sp'. refresh_proportional source (split_names sp) now sp = Inr sp' \<and>
    length (children_status_now sp') = length (split_names sp) \<and>
    (\<forall>st \<in> set (children_status_now sp'). 0 \<le> v2_capacity_mAh st \<and> v2_capacity_mAh st \<le> v2_capacity_mAh source) \<and>
    2 * \<bar>sum_list (map v2_capacity_mAh (children_status_now sp')) - v2_capacity_mAh source\<bar> \<le> int (length (split_names sp))"
proof -
  define sp1 where "sp1 = estimate_all now sp"
  define n where "n = length (split_names sp)"
  define T where "T = sum_list es"
  define A where "A = v2_capacity_mAh source"
  define x where "x j = es ! j / T * of_int A" for j
  have sp1: "wired sp1" "split_names sp1 = split_names sp"
    using assms(2) by (simp_all add: sp1_def estimate_all_def estimate_frame)
  have len: "length es = n" "length (children_status_now sp1) = n"
    using sp1 by (simp_all add: wired_def Let_def es_def sp1_def n_def)
  have T: "0 < T" "\<not> \<bar>T\<bar> < 1 / 1000000" using assms(4) by (simp_all add: T_def)
  define cs where "cs = map (proportional_status source T sp1) [0..<n]"
  have run: "refresh_proportional source (split_names sp) now sp = Inr (sp1\<lparr>children_status_now := cs\<rparr>)"
    using proportional_all [OF sp1(1) T(2), of n source] len(2)
    by (simp add: refresh_proportional_def Let_def sp1_def [symmetric] sp1(2) n_def [symmetric] cs_def es_def T_def)
  have x: "0 \<le> x j \<and> x j \<le> of_int A" if "j < n" for j
  proof -
    have e: "0 \<le> es ! j" "es ! j \<le> T"
      using that len(1) assms(3) member_le_sum_list [of "es ! j" es] by (auto simp: T_def)
    then have "es ! j / T \<le> 1" using T(1) by simp
    with e T(1) assms(5) show ?thesis
      using mult_right_mono [of "es ! j / T" 1 "of_int A"] by (simp add: x_def A_def)
  qed
  have cap: "v2_capacity_mAh (proportional_status source T sp1 j) = c_round (x j)" if "j < n" for j
  proof -
    have "in_int64 (c_round (x j))"
      using c_round_between [of "x j" A] x [OF that] assms(6) by (auto simp: in_int64_def A_def)
    then show ?thesis using T(2) by (simp add: proportional_status_def x_def A_def es_def sp1_def Let_def)
  qed
  have caps: "map v2_capacity_mAh cs = map (\<lambda>j. c_round (x j)) [0..<n]"
    by (simp add: cs_def cap)
  have "\<bar>of_int (sum_list (map (\<lambda>j. c_round (x j)) [0..<n])) - sum_list (map x [0..<n])\<bar> \<le> real (length [0..<n]) / 2"
    by (rule sum_near) (blast intro: c_round_near)
  moreover have "sum_list (map x [0..<n]) = of_int A"
    unfolding x_def using shares_sum [OF len(1) T_def] T(1) by simp
  ultimately have "real_of_int (2 * \<bar>sum_list (map v2_capacity_mAh cs) - A\<bar>) \<le> real_of_int (int n)"
    unfolding caps by simp
  then have "2 * \<bar>sum_list (map v2_capacity_mAh cs) - A\<bar> \<le> int n" by (simp only: of_int_le_iff)
  moreover have "0 \<le> v2_capacity_mAh st \<and> v2_capacity_mAh st \<le> A" if "st \<in> set cs" for st
  proof -
    obtain j where "j < n" "st = proportional_status source T sp1 j" using \<open>st \<in> set cs\<close> by (auto simp: cs_def)
    then show ?thesis using cap [of j] x [of j] c_round_between [of "x j" A] by simp
  qed
  ultimately show ?thesis using run by (auto simp: A_def n_def cs_def)
qed

definition charged_children :: splitter where
  "charged_children = (v2_device two_children)\<lparr>children_estimated_charge_now := [10, 20]\<rparr>"

theorem proportional_shares_bounded_witness:
  "\<exists>sp'. refresh_proportional source_100 [''a'', ''b''] 7 charged_children = Inr sp' \<and>
    length (children_status_now sp') = 2 \<and>
    2 * \<bar>sum_list (map v2_capacity_mAh (children_status_now sp')) - 50\<bar> \<le> 2"
proof -
  have "wired charged_children" "split_names charged_children = [''a'', ''b'']"
    using two_children_wired two_children_names by (simp_all add: charged_children_def wired_def Let_def)
  moreover have "children_estimated_charge_now (estimate_all 7 charged_children) = [10, 20]"
    using two_children_simps(1) two_children_names
    by (simp add: charged_children_def estimate_all_def charge_estimate_def)
  ultimately show ?thesis
    using proportional_shares_bounded [of charged_children 7 source_100]
    by (auto simp: source_100_def in_int64_def zero_status_def)
qed

end
