(* ===== verification/V2_Aggregator.thy ===== *)
theory V2_Aggregator
  imports V2_Battery "HOL-Library.Multiset"
begin

text \<open>
  The aggregate battery of BatteryOS-V2 (\<open>AggregatorBattery.cpp\<close>). The sources are reached through two
  functions over the state of the rest of the system: the status of a source by name, and a request
  to it. The threads of a refresh each add one status under a mutex, so a refresh is a fold over the
  statuses in the order in which the threads take the mutex.
\<close>

section \<open>Operations\<close>

record aggregator =
  agg_voltage_mV :: int
  agg_voltage_tolerance_mV :: int

type_synonym agg_battery = "aggregator v2_battery"

record agg_sums =
  sum_max_cap_mAh :: int
  sum_cap_mAh :: int
  sum_current_mA :: int
  max_discharge_time :: dbl
  max_charge_time :: dbl

definition no_sums :: agg_sums where
  "no_sums = \<lparr>sum_max_cap_mAh = 0, sum_cap_mAh = 0, sum_current_mA = 0,
     max_discharge_time = Fin 0, max_charge_time = Fin 0\<rparr>"

definition discharge_time :: "v2_status \<Rightarrow> dbl" where
  "discharge_time st = dbl_div (of_int (v2_capacity_mAh st)) (of_int (v2_max_discharging_current_mA st))"

definition charge_time :: "v2_status \<Rightarrow> dbl" where
  "charge_time st =
     dbl_div (of_int (v2_max_capacity_mAh st - v2_capacity_mAh st)) (of_int (v2_max_charging_current_mA st))"

definition add_source :: "v2_status \<Rightarrow> agg_sums \<Rightarrow> agg_sums" where
  "add_source st acc =
    \<lparr>sum_max_cap_mAh = sum_max_cap_mAh acc + v2_max_capacity_mAh st,
     sum_cap_mAh = sum_cap_mAh acc + v2_capacity_mAh st,
     sum_current_mA = sum_current_mA acc + v2_current_mA st,
     max_discharge_time = dbl_max (max_discharge_time acc) (discharge_time st),
     max_charge_time = dbl_max (max_charge_time acc) (charge_time st)\<rparr>"

text \<open>A quantity over the longest time, with the value 1 when the time is nothing.\<close>

definition rate_limit :: "int \<Rightarrow> dbl \<Rightarrow> int" where
  "rate_limit charge time =
    (case time of
       Fin t \<Rightarrow> if \<bar>t\<bar> < 1 / 1000000 then 1 else to_int64 (of_int charge / t)
     | PInf \<Rightarrow> 0
     | NInf \<Rightarrow> 0
     | NaN \<Rightarrow> - (2 ^ 63))"

definition new_AggregatorBattery ::
  "string \<Rightarrow> int \<Rightarrow> int \<Rightarrow> v2_status list \<Rightarrow> int \<Rightarrow> agg_battery" where
  "new_AggregatorBattery name voltage tolerance initial_status staleness =
    (let b = new_v2_battery name V2_Aggregate staleness
               \<lparr>agg_voltage_mV = voltage, agg_voltage_tolerance_mV = tolerance\<rparr>;
         s = fold add_source initial_status no_sums
     in b\<lparr>v2_bstatus := (v2_bstatus b)\<lparr>v2_voltage_mV := voltage, v2_current_mA := 0,
            v2_capacity_mAh := sum_cap_mAh s, v2_max_capacity_mAh := sum_max_cap_mAh s,
            v2_max_discharging_current_mA := rate_limit (sum_cap_mAh s) (max_discharge_time s),
            v2_max_charging_current_mA := rate_limit (sum_max_cap_mAh s - sum_cap_mAh s) (max_charge_time s)\<rparr>\<rparr>)"

text \<open>A source out of the voltage tolerance is only reported.\<close>

definition agg_refresh :: "CTimestamp \<Rightarrow> v2_status list \<Rightarrow> agg_battery \<Rightarrow> agg_battery" where
  "agg_refresh stamp statuses b =
    (let s = fold add_source statuses no_sums
     in b\<lparr>v2_bstatus := (v2_bstatus b)\<lparr>
            v2_max_charging_current_mA := rate_limit (sum_max_cap_mAh s - sum_cap_mAh s) (max_charge_time s),
            v2_max_discharging_current_mA := rate_limit (sum_cap_mAh s) (max_discharge_time s),
            v2_voltage_mV := agg_voltage_mV (v2_device b), v2_current_mA := sum_current_mA s,
            v2_capacity_mAh := sum_cap_mAh s, v2_max_capacity_mAh := sum_max_cap_mAh s,
            v2_timestamp := stamp\<rparr>\<rparr>)"

definition agg_set_current :: "int \<Rightarrow> bool \<Rightarrow> nat \<Rightarrow> agg_battery \<Rightarrow> bool \<times> agg_battery" where
  "agg_set_current c gt other b = (False, b)"

primrec collect_statuses ::
  "(string \<Rightarrow> 'w \<Rightarrow> v2_status \<times> 'w) \<Rightarrow> string list \<Rightarrow> 'w \<Rightarrow> v2_status list \<times> 'w" where
  "collect_statuses get [] w = ([], w)"
| "collect_statuses get (p # ps) w =
    (let (st, w1) = get p w; (sts, w2) = collect_statuses get ps w1 in (st # sts, w2))"

definition agg_get_status ::
  "(string \<Rightarrow> 'w \<Rightarrow> v2_status \<times> 'w) \<Rightarrow> nanos \<Rightarrow> CTimestamp \<Rightarrow> string list \<Rightarrow> agg_battery \<Rightarrow> 'w \<Rightarrow> agg_battery \<times> 'w" where
  "agg_get_status get now stamp ps b w =
    (if refresh_mode b = V2_LAZY \<and>
        now - c_time_to_timepoint (v2_timestamp (v2_bstatus b)) \<ge> max_staleness b * 1000000
     then (let (sts, w') = collect_statuses get ps w in (agg_refresh stamp sts b, w'))
     else (b, w))"

definition agg_request_refused :: "int \<Rightarrow> v2_status \<Rightarrow> bool" where
  "agg_request_refused target st \<longleftrightarrow>
     target \<ge> 0 \<and> v2_capacity_mAh st = 0 \<or>
     target < 0 \<and> v2_capacity_mAh st \<ge> v2_max_capacity_mAh st \<or>
     target \<ge> 0 \<and> target > v2_max_discharging_current_mA st \<or>
     target < 0 \<and> - target > v2_max_charging_current_mA st"

text \<open>What a source is asked for: so that all sources are empty, or full, at the same time.\<close>

definition source_share :: "int \<Rightarrow> v2_status \<Rightarrow> v2_status \<Rightarrow> int" where
  "source_share target agg st =
    (if target > 0 then
       to_int64 (of_int (v2_capacity_mAh st) / (of_int (v2_capacity_mAh agg) / of_int target))
     else if target < 0 then
       - to_int64 (of_int (v2_max_capacity_mAh st - v2_capacity_mAh st) /
           (of_int (v2_max_capacity_mAh agg - v2_capacity_mAh agg) / of_int (- target)))
     else 0)"

text \<open>With the target 0 the sources are not asked for their status. A refusal is only reported.\<close>

primrec forward_shares ::
  "(string \<Rightarrow> 'w \<Rightarrow> v2_status \<times> 'w) \<Rightarrow> (string \<Rightarrow> int \<Rightarrow> bool \<Rightarrow> nanos \<Rightarrow> nanos \<Rightarrow> 'w \<Rightarrow> bool \<times> 'w) \<Rightarrow>
   int \<Rightarrow> bool \<Rightarrow> nanos \<Rightarrow> nanos \<Rightarrow> v2_status \<Rightarrow> string list \<Rightarrow> 'w \<Rightarrow> 'w" where
  "forward_shares get sched target gt t u agg [] w = w"
| "forward_shares get sched target gt t u agg (p # ps) w =
    (if target = 0 then
       (let (_, w1) = sched p 0 gt t u w in forward_shares get sched target gt t u agg ps w1)
     else
       (let (st, w1) = get p w;
            (_, w2) = sched p (source_share target agg st) gt t u w1
        in forward_shares get sched target gt t u agg ps w2))"

definition agg_schedule_set_current ::
  "(string \<Rightarrow> 'w \<Rightarrow> v2_status \<times> 'w) \<Rightarrow> (string \<Rightarrow> int \<Rightarrow> bool \<Rightarrow> nanos \<Rightarrow> nanos \<Rightarrow> 'w \<Rightarrow> bool \<times> 'w) \<Rightarrow>
   nanos \<Rightarrow> CTimestamp \<Rightarrow> string list \<Rightarrow> int \<Rightarrow> bool \<Rightarrow> nanos \<Rightarrow> nanos \<Rightarrow> agg_battery \<Rightarrow> 'w \<Rightarrow>
   bool \<times> agg_battery \<times> 'w" where
  "agg_schedule_set_current get sched now stamp ps target gt t u b w =
    (let (b1, w1) = agg_get_status get now stamp ps b w;
         st = v2_bstatus b1
     in if agg_request_refused target st then (False, b1, w1)
        else (True, b1, forward_shares get sched target gt t u st ps w1))"

section \<open>The threads of a refresh commute\<close>

lemma dbl_max_commute: "dbl_max (dbl_max t x) y = dbl_max (dbl_max t y) x"
  by (cases t; cases x; cases y) (auto simp: dbl_max_def)

lemma add_source_commute: "add_source a \<circ> add_source b = add_source b \<circ> add_source a"
  by (rule ext) (simp add: add_source_def dbl_max_commute)

text \<open>
  C32: the status an aggregate reports does not depend on the order in which the threads of the
  refresh add their sources, whatever the sources report.
\<close>

theorem agg_refresh_any_order:
  assumes "mset statuses = mset statuses'"
  shows "agg_refresh stamp statuses b = agg_refresh stamp statuses' b"
proof -
  have "fold add_source statuses = fold add_source statuses'"
    using assms by (rule fold_multiset_equiv [rotated]) (rule add_source_commute)
  then show ?thesis by (simp add: agg_refresh_def)
qed

definition big_source :: v2_status where
  "big_source = zero_status\<lparr>v2_capacity_mAh := 30, v2_max_capacity_mAh := 60,
     v2_max_charging_current_mA := 10, v2_max_discharging_current_mA := 10\<rparr>"

definition flat_source :: v2_status where
  "flat_source = zero_status\<lparr>v2_capacity_mAh := 10, v2_max_capacity_mAh := 50\<rparr>"

theorem agg_refresh_any_order_witness:
  "agg_refresh (get_system_time_c None) [big_source, flat_source] (new_AggregatorBattery ''g'' 5 1 [] 1000) =
   agg_refresh (get_system_time_c None) [flat_source, big_source] (new_AggregatorBattery ''g'' 5 1 [] 1000)"
  by (rule agg_refresh_any_order) simp

section \<open>Splitting a request\<close>

lemma fold_sums:
  "sum_cap_mAh (fold add_source sts acc) = sum_cap_mAh acc + sum_list (map v2_capacity_mAh sts)"
  "sum_max_cap_mAh (fold add_source sts acc) = sum_max_cap_mAh acc + sum_list (map v2_max_capacity_mAh sts)"
  "sum_current_mA (fold add_source sts acc) = sum_current_mA acc + sum_list (map v2_current_mA sts)"
  by (induction sts arbitrary: acc) (simp_all add: add_source_def)

lemma fold_discharge_time:
  assumes "\<forall>st \<in> set sts. 0 < v2_max_discharging_current_mA st" and "max_discharge_time acc = Fin t0"
  shows "\<exists>T. max_discharge_time (fold add_source sts acc) = Fin T \<and> t0 \<le> T \<and>
    (\<forall>st \<in> set sts. of_int (v2_capacity_mAh st) / of_int (v2_max_discharging_current_mA st) \<le> T)"
  using assms
proof (induction sts arbitrary: acc t0)
  case (Cons st sts)
  let ?t = "of_int (v2_capacity_mAh st) / of_int (v2_max_discharging_current_mA st) :: real"
  have "max_discharge_time (add_source st acc) = Fin (max t0 ?t)"
    using Cons.prems by (simp add: add_source_def discharge_time_def)
  with Cons.IH [of "add_source st acc" "max t0 ?t"] Cons.prems(1) show ?case by force
qed simp

lemma forward_shares_const:
  "target \<noteq> 0 \<Longrightarrow> forward_shares (\<lambda>p w. (st p, w)) sched target gt t u agg ps w =
     fold (\<lambda>p w. snd (sched p (source_share target agg (st p)) gt t u w)) ps w"
  by (induction ps arbitrary: w) (simp_all add: case_prod_unfold)

lemma collect_const: "collect_statuses (\<lambda>p w. (st p, w)) ps w = (map st ps, w)"
  by (induction ps) simp_all

lemma trunc_share:
  assumes "0 \<le> y" and "y \<le> of_int k" and "in_int64 k"
  shows "to_int64 y = \<lfloor>y\<rfloor>"
proof -
  have "0 \<le> \<lfloor>y\<rfloor>" using assms(1) by simp
  moreover have "\<lfloor>y\<rfloor> \<le> k" using assms(2) by linarith
  ultimately have "in_int64 \<lfloor>y\<rfloor>" using assms(3) unfolding in_int64_def by linarith
  then show ?thesis using assms(1) by (simp add: to_int64_def trunc_def)
qed

lemma to_int64_le_floor: "0 \<le> y \<Longrightarrow> to_int64 y \<le> \<lfloor>y\<rfloor>"
  by (cases "in_int64 \<lfloor>y\<rfloor>") (simp_all add: to_int64_def trunc_def)

lemma sum_floor:
  "of_int (sum_list (map (\<lambda>x. \<lfloor>y x\<rfloor>) xs)) \<le> (sum_list (map y xs) :: real)"
  "xs \<noteq> [] \<Longrightarrow> (sum_list (map y xs) :: real) < of_int (sum_list (map (\<lambda>x. \<lfloor>y x\<rfloor>) xs)) + real (length xs)"
proof (induction xs)
  case (Cons x xs)
  { case 1 show ?case using Cons(1) of_int_floor_le [of "y x"] by (simp del: of_int_floor_le) }
  { case 2
    have "y x < of_int \<lfloor>y x\<rfloor> + 1" by linarith
    with Cons(2) show ?case by (cases "xs = []") (simp_all, linarith) }
qed simp_all

text \<open>The discharging limit is what the source that is empty first allows.\<close>

lemma agg_limit:
  assumes "\<forall>st \<in> set sts. 0 \<le> v2_capacity_mAh st \<and> 0 < v2_max_discharging_current_mA st"
    and "target \<le> rate_limit C (max_discharge_time (fold add_source sts no_sums))"
    and "C = sum_list (map v2_capacity_mAh sts)" and "0 < C" and "0 < target" and "st \<in> set sts"
  shows "of_int (v2_capacity_mAh st) * of_int target / of_int C \<le> (of_int (v2_max_discharging_current_mA st) :: real)"
proof -
  let ?c = "of_int (v2_capacity_mAh st) :: real" and ?d = "of_int (v2_max_discharging_current_mA st) :: real"
  have "max_discharge_time no_sums = Fin 0" by (simp add: no_sums_def)
  then obtain T where T: "max_discharge_time (fold add_source sts no_sums) = Fin T" "0 \<le> T"
      "\<forall>st \<in> set sts. of_int (v2_capacity_mAh st) / of_int (v2_max_discharging_current_mA st) \<le> T"
    using fold_discharge_time [of sts no_sums 0] assms(1) by auto
  have pos: "0 \<le> ?c" "0 < ?d" "1 \<le> ?d" using assms(1,6) by auto
  have "v2_capacity_mAh st \<le> C" using assms(1,3,6) by (auto intro!: member_le_sum_list)
  then have cC: "?c \<le> of_int C" by simp
  show ?thesis
  proof (cases "\<bar>T\<bar> < 1 / 1000000")
    case True
    then have "target = 1" using assms(2,5) T(1) by (simp add: rate_limit_def)
    moreover have "?c / of_int C \<le> 1" using cC assms(4) by simp
    ultimately show ?thesis using pos(3) by simp
  next
    case False
    then have T0: "0 < T" using T(2) by simp
    have "target \<le> to_int64 (of_int C / T)" using assms(2) T(1) False by (simp add: rate_limit_def)
    moreover have "to_int64 (of_int C / T) \<le> \<lfloor>of_int C / T\<rfloor>"
      using T0 assms(4) by (intro to_int64_le_floor) simp
    ultimately have "of_int target \<le> of_int C / T" by (simp add: le_floor_iff)
    then have "of_int target * T \<le> of_int C" using T0 by (simp add: pos_le_divide_eq)
    moreover have "?c \<le> T * ?d" using T(3) [rule_format, OF assms(6)] pos(2) by (simp add: pos_divide_le_eq)
    then have "?c * of_int target \<le> (T * ?d) * of_int target" using assms(5) by (simp add: mult_right_mono)
    moreover have "(T * ?d) * of_int target = ?d * (of_int target * T)" by simp
    ultimately have "?c * of_int target \<le> ?d * of_int C"
      using pos(2) by (metis (no_types, opaque_lifting) less_eq_real_def mult_left_mono order_trans)
    then show ?thesis using assms(4) by (simp add: pos_divide_le_eq)
  qed
qed

text \<open>
  C33: a discharging request that an aggregate with a stale status accepts is forwarded to every
  source once; what the sources are asked for is within the limit of each, together not more than
  the request, and short of it by less than one unit per source.
\<close>

theorem agg_discharge_request_split:
  fixes status_of :: "string \<Rightarrow> v2_status" and b :: agg_battery and w :: 'w and ps :: "string list"
    and stamp :: CTimestamp
  defines "agg \<equiv> v2_bstatus (agg_refresh stamp (map status_of ps) b)"
  assumes "refresh_mode b = V2_LAZY"
    and "now - c_time_to_timepoint (v2_timestamp (v2_bstatus b)) \<ge> max_staleness b * 1000000"
    and "\<forall>p \<in> set ps. 0 \<le> v2_capacity_mAh (status_of p) \<and> 0 < v2_max_discharging_current_mA (status_of p)"
    and "0 < target" and "in_int64 target" and "\<not> agg_request_refused target agg"
  shows "agg_schedule_set_current (\<lambda>p w. (status_of p, w)) sched now stamp ps target gt t u b w =
      (True, agg_refresh stamp (map status_of ps) b,
       fold (\<lambda>p w. snd (sched p (source_share target agg (status_of p)) gt t u w)) ps w) \<and>
    (\<forall>p \<in> set ps. 0 \<le> source_share target agg (status_of p) \<and>
       source_share target agg (status_of p) \<le> v2_max_discharging_current_mA (status_of p)) \<and>
    (\<Sum>p\<leftarrow>ps. source_share target agg (status_of p)) \<le> target \<and>
    target - int (length ps) < (\<Sum>p\<leftarrow>ps. source_share target agg (status_of p))"
proof -
  define C where "C = (\<Sum>p\<leftarrow>ps. v2_capacity_mAh (status_of p))"
  define y where "y p = of_int (v2_capacity_mAh (status_of p)) * of_int target / (of_int C :: real)" for p
  have agg: "v2_capacity_mAh agg = C"
      "v2_max_discharging_current_mA agg = rate_limit C (max_discharge_time (fold add_source (map status_of ps) no_sums))"
    by (simp_all add: agg_def agg_refresh_def fold_sums no_sums_def C_def o_def Let_def)
  have C0: "0 \<le> C" using assms(4) unfolding C_def by (induction ps) auto
  have C: "0 < C" and limit: "target \<le> v2_max_discharging_current_mA agg"
    using assms(5,7) agg C0 by (auto simp: agg_request_refused_def)
  have y: "0 \<le> y p" "y p \<le> of_int target" "y p \<le> of_int (v2_max_discharging_current_mA (status_of p))"
    if "p \<in> set ps" for p
  proof -
    have "v2_capacity_mAh (status_of p) \<le> C"
      unfolding C_def using that assms(4) by (intro member_le_sum_list) auto
    then have "of_int (v2_capacity_mAh (status_of p)) * of_int target \<le> of_int C * (of_int target :: real)"
      using assms(5) by (simp add: mult_right_mono)
    then show "y p \<le> of_int target" using C by (simp add: y_def pos_divide_le_eq mult.commute)
    show "0 \<le> y p" using that assms(4,5) C by (simp add: y_def)
    show "y p \<le> of_int (v2_max_discharging_current_mA (status_of p))"
      unfolding y_def by (rule agg_limit [where sts = "map status_of ps"])
        (use that assms(4,5) C limit agg in \<open>auto simp: C_def o_def\<close>)
  qed
  have share: "source_share target agg (status_of p) = \<lfloor>y p\<rfloor>" if "p \<in> set ps" for p
  proof -
    have "of_int (v2_capacity_mAh (status_of p)) / (of_int C / of_int target) = y p"
      by (simp add: y_def)
    then show ?thesis
      using trunc_share [OF y(1) [OF that] y(2) [OF that] assms(6)] that assms(5) agg(1) by (simp add: source_share_def)
  qed
  have shares: "(\<Sum>p\<leftarrow>ps. source_share target agg (status_of p)) = (\<Sum>p\<leftarrow>ps. \<lfloor>y p\<rfloor>)"
    using share by (intro arg_cong [where f = sum_list] map_cong) simp_all
  have total: "(\<Sum>p\<leftarrow>ps. y p) = of_int target"
  proof -
    have "(\<Sum>p\<leftarrow>ps. y p) = (\<Sum>p\<leftarrow>ps. of_int target / of_int C * of_int (v2_capacity_mAh (status_of p)))"
      by (simp add: y_def mult.commute)
    also have "\<dots> = of_int target / of_int C * (\<Sum>p\<leftarrow>ps. of_int (v2_capacity_mAh (status_of p)))"
      by (rule sum_list_map_mult)
    also have "(\<Sum>p\<leftarrow>ps. of_int (v2_capacity_mAh (status_of p))) = (of_int C :: real)"
      unfolding C_def by (induction ps) simp_all
    finally show ?thesis using C by simp
  qed
  have "ps \<noteq> []" using C by (auto simp: C_def)
  then have bounds: "(\<Sum>p\<leftarrow>ps. \<lfloor>y p\<rfloor>) \<le> target" "target - int (length ps) < (\<Sum>p\<leftarrow>ps. \<lfloor>y p\<rfloor>)"
    using sum_floor(1) [of y ps] sum_floor(2) [of ps y] total by linarith+
  have each: "0 \<le> source_share target agg (status_of p) \<and>
      source_share target agg (status_of p) \<le> v2_max_discharging_current_mA (status_of p)" if "p \<in> set ps" for p
    using share [OF that] y(1,3) [OF that] by (simp add: floor_le_iff)
  have "agg_schedule_set_current (\<lambda>p w. (status_of p, w)) sched now stamp ps target gt t u b w =
      (True, agg_refresh stamp (map status_of ps) b,
       fold (\<lambda>p w. snd (sched p (source_share target agg (status_of p)) gt t u w)) ps w)"
    using assms(2,3,5,7) by (simp add: agg_schedule_set_current_def agg_get_status_def collect_const
        forward_shares_const agg_def)
  with each bounds shares show ?thesis by simp
qed

definition stale_aggregate :: agg_battery where
  "stale_aggregate = new_AggregatorBattery ''g'' 5 1 [] 1000"

definition small_source :: v2_status where
  "small_source = zero_status\<lparr>v2_capacity_mAh := 10, v2_max_capacity_mAh := 20,
     v2_max_charging_current_mA := 10, v2_max_discharging_current_mA := 10\<rparr>"

lemma stale_aggregate_ok: "refresh_mode stale_aggregate = V2_LAZY"
    "c_time_to_timepoint (v2_timestamp (v2_bstatus stale_aggregate)) = 0" "max_staleness stale_aggregate = 1000"
  by (simp_all add: stale_aggregate_def new_AggregatorBattery_def new_v2_battery_def Let_def zero_status_def
      c_time_to_timepoint_def)

lemma aggregate_limit:
  "\<not> agg_request_refused 5 (v2_bstatus (agg_refresh (get_system_time_c None)
      (map (\<lambda>p. if p = ''a'' then big_source else small_source) [''a'', ''b'']) stale_aggregate))"
  by (simp add: agg_request_refused_def agg_refresh_def big_source_def small_source_def add_source_def no_sums_def
      discharge_time_def rate_limit_def to_int64_def trunc_def in_int64_def Let_def)

theorem agg_discharge_request_split_witness:
  "\<exists>b' shares. agg_schedule_set_current (\<lambda>p w. (if p = ''a'' then big_source else small_source, w))
      (\<lambda>p c g t u w. (True, w @ [(p, c)])) 2000000000 (get_system_time_c None) [''a'', ''b''] 5 True 0 9 stale_aggregate [] =
      (True, b', shares) \<and> sum_list (map snd shares) \<le> 5 \<and> 3 < sum_list (map snd shares)"
  using agg_discharge_request_split [of stale_aggregate 2000000000 "[''a'', ''b'']"
      "\<lambda>p. if p = ''a'' then big_source else small_source" 5 "get_system_time_c None"
      "\<lambda>p c g t u w. (True, w @ [(p, c)])" True 0 9 "[]"] aggregate_limit stale_aggregate_ok
  by (simp add: big_source_def small_source_def in_int64_def zero_status_def)

text \<open>
  The aggregate accepts a request whatever its sources say: when every source refuses, the
  answer is still success and nothing has been scheduled.
\<close>

theorem agg_hides_refusals:
  assumes "\<forall>p c g t u w. sched p c g t u w = (False, w)" and "\<forall>p w. \<exists>st. get p w = (st, w)"
    and "agg_get_status get now stamp ps b w = (b1, w1)" and "\<not> agg_request_refused target (v2_bstatus b1)"
  shows "agg_schedule_set_current get sched now stamp ps target gt t u b w = (True, b1, w1)"
proof -
  have "forward_shares get sched target gt t u agg ps w = w" for agg w
  proof (induction ps)
    case (Cons p ps)
    obtain st where "get p w = (st, w)" using assms(2) by blast
    with Cons assms(1) show ?case by (cases "target = 0") simp_all
  qed simp
  with assms(3,4) show ?thesis by (simp add: agg_schedule_set_current_def)
qed

theorem agg_hides_refusals_witness:
  "\<exists>b'. agg_schedule_set_current (\<lambda>p w. (big_source, w)) (\<lambda>p c g t u w. (False, w)) 2000000000
     (get_system_time_c None) [''a''] 5 True 0 9 stale_aggregate () = (True, b', ())"
proof -
  let ?get = "\<lambda>p w. (big_source, w)"
  obtain b1 where b1: "agg_get_status ?get 2000000000 (get_system_time_c None) [''a''] stale_aggregate () = (b1, ())"
      "\<not> agg_request_refused 5 (v2_bstatus b1)"
    using stale_aggregate_ok
    by (simp add: agg_get_status_def agg_request_refused_def agg_refresh_def big_source_def add_source_def no_sums_def
        discharge_time_def rate_limit_def to_int64_def trunc_def in_int64_def Let_def)
  then show ?thesis
    using agg_hides_refusals [of "\<lambda>p c g t u w. (False, w)" ?get 2000000000 "get_system_time_c None" "[''a'']"
        stale_aggregate "()" b1 "()" 5 True 0 9] by auto
qed

end
