(* ===== verification/V2_Factory.thy ===== *)
theory V2_Factory
  imports V2_Remote V2_Split_Refresh V2_Aggregator
begin

text \<open>
  The factories of BatteryOS-V2 (\<open>BOS.cpp\<close>, class \<open>BatteryDirectoryManager\<close>): one directory that holds
  batteries of every kind, and the functions that create them and enter them into the graph. The
  status and the scheduling of a battery found by name are virtual functions over the directory and
  an argument; the dynamic linker is a record of its three answers.
\<close>

section \<open>Devices of every kind\<close>

datatype v2_dev =
    Null_dev
  | Pseudo_dev
  | JBD_dev "byte list jbd2"
  | Remote_dev string string int
  | Aggregate_dev aggregator
  | Splitter_dev splitter
  | Splitted_dev splitted
  | Dynamic_dev nat nat

type_synonym bos_dir = "v2_dev v2_directory"

type_synonym bos_battery = "v2_dev v2_battery"

definition as_dev :: "('a \<Rightarrow> 'b) \<Rightarrow> 'a v2_battery \<Rightarrow> 'b v2_battery" where
  "as_dev f b =
    \<lparr>v2_name = v2_name b, v2_btype = v2_btype b, v2_bstatus = v2_bstatus b, refresh_mode = refresh_mode b,
     max_staleness = max_staleness b, should_quit = should_quit b, event_queue = event_queue b,
     current_sequence_number = current_sequence_number b, current_now = current_now b,
     is_greater_than_current_now = is_greater_than_current_now b, v2_device = f (v2_device b)\<rparr>"

record v2_virtual =
  virt_get_status :: "string \<Rightarrow> bos_dir \<Rightarrow> (v2_status \<times> bos_dir) outcome"
  virt_schedule :: "string \<Rightarrow> int \<Rightarrow> bool \<Rightarrow> nanos \<Rightarrow> nanos \<Rightarrow> bos_dir \<Rightarrow> (32 word \<times> bos_dir) outcome"

definition the_splitter :: "v2_dev \<Rightarrow> splitter option" where
  "the_splitter dev = (case dev of Splitter_dev sp \<Rightarrow> Some sp | _ \<Rightarrow> None)"

text \<open>A policy overrides both functions by one that ends the process.\<close>

definition bat_get_status :: "v2_virtual \<Rightarrow> string \<Rightarrow> bos_dir \<Rightarrow> (v2_status \<times> bos_dir) outcome" where
  "bat_get_status vt name d =
    (case get_battery name d of
       None \<Rightarrow> Inl Null_deref
     | Some b \<Rightarrow> if the_splitter (v2_device b) \<noteq> None then Inl Process_exit else virt_get_status vt name d)"

definition bat_schedule ::
  "v2_virtual \<Rightarrow> string \<Rightarrow> int \<Rightarrow> bool \<Rightarrow> nanos \<Rightarrow> nanos \<Rightarrow> bos_dir \<Rightarrow> (32 word \<times> bos_dir) outcome" where
  "bat_schedule vt name target gt w u d =
    (case get_battery name d of
       None \<Rightarrow> Inl Null_deref
     | Some b \<Rightarrow> if the_splitter (v2_device b) \<noteq> None then Inl Process_exit else virt_schedule vt name target gt w u d)"

section \<open>Edges under the mutexes\<close>

definition is_virtual :: "v2_dev \<Rightarrow> bool" where
  "is_virtual dev = (case dev of Aggregate_dev _ \<Rightarrow> True | Splitter_dev _ \<Rightarrow> True | Splitted_dev _ \<Rightarrow> True | _ \<Rightarrow> False)"

text \<open>Both ends of an edge are locked when they are virtual batteries, one after the other; an edge from a virtual battery to itself waits forever.\<close>

definition link_edge :: "string \<Rightarrow> string \<Rightarrow> bos_dir \<Rightarrow> bos_dir outcome" where
  "link_edge from_name to_name d =
    (if from_name = to_name \<and> (case get_battery from_name d of None \<Rightarrow> False | Some b \<Rightarrow> is_virtual (v2_device b))
     then Inl Deadlock else Inr (snd (add_edge from_name to_name d)))"

section \<open>Single batteries\<close>

definition make_null :: "string \<Rightarrow> int \<Rightarrow> int \<Rightarrow> bos_dir \<Rightarrow> string option \<times> bos_dir" where
  "make_null name voltage staleness d =
    (if name_exists name d then (None, d)
     else add_battery (as_dev (\<lambda>_. Null_dev) (new_NullBattery name voltage staleness)) d)"

definition make_pseudo :: "string \<Rightarrow> v2_status \<Rightarrow> int \<Rightarrow> bos_dir \<Rightarrow> string option \<times> bos_dir" where
  "make_pseudo name status staleness d =
    (if name_exists name d then (None, d)
     else add_battery (as_dev (\<lambda>_. Pseudo_dev) (new_PseudoBattery_v2 name status staleness)) d)"

definition make_JBDBMS :: "string \<Rightarrow> string \<Rightarrow> string \<Rightarrow> int \<Rightarrow> bos_dir \<Rightarrow> (string option \<times> bos_dir) outcome" where
  "make_JBDBMS name device_address rd6006_address staleness d =
    (if name_exists name d then Inr (None, d)
     else obind (new_JBDBMS name [] staleness) (\<lambda>b. Inr (add_battery (as_dev JBD_dev b) d)))"

definition make_networked_battery ::
  "string \<Rightarrow> string \<Rightarrow> string \<Rightarrow> int \<Rightarrow> int \<Rightarrow> bos_dir \<Rightarrow> string option \<times> bos_dir" where
  "make_networked_battery name remote_name address port staleness d =
    (if name_exists name d then (None, d)
     else add_battery (new_v2_battery name V2_Physical staleness (Remote_dev remote_name address port)) d)"

section \<open>Aggregates\<close>

text \<open>The statuses of the sources are invented: this is the branch the build takes.\<close>

definition fake_source_status :: "CTimestamp \<Rightarrow> v2_status" where
  "fake_source_status now_c =
    \<lparr>v2_voltage_mV = 3000, v2_current_mA = 0, v2_capacity_mAh = 20000, v2_max_capacity_mAh = 40000,
     v2_max_charging_current_mA = 60000, v2_max_discharging_current_mA = 60000, v2_timestamp = now_c\<rparr>"

definition make_aggregator ::
  "CTimestamp \<Rightarrow> string \<Rightarrow> int \<Rightarrow> int \<Rightarrow> string list \<Rightarrow> int \<Rightarrow> bos_dir \<Rightarrow> (string option \<times> bos_dir) outcome" where
  "make_aggregator now_c name voltage tolerance src_names staleness d =
    (if name_exists name d then Inr (None, d)
     else
       (let (agg, d1) = add_battery (as_dev Aggregate_dev
              (new_AggregatorBattery name voltage tolerance
                (replicate (length src_names) (fake_source_status now_c)) staleness)) d
        in obind (ofold (\<lambda>src. link_edge src name) src_names d1) (\<lambda>d2. Inr (agg, d2))))"

section \<open>Splitters\<close>

text \<open>The running sum of the scales; \<open>None\<close> when it is refused on the way.\<close>

primrec sum_scales :: "v2_scale list \<Rightarrow> v2_scale \<Rightarrow> v2_scale option" where
  "sum_scales [] total_sum = Some total_sum"
| "sum_scales (sc # scs) total_sum =
    (let total_sum' = scale_plus total_sum sc in
     if is_zero total_sum' then None else sum_scales scs total_sum')"

definition scales_accepted :: "v2_scale list \<Rightarrow> bool" where
  "scales_accepted scs = (case sum_scales scs (scale_of 0) of None \<Rightarrow> False | Some s \<Rightarrow> is_one s)"

definition policy_of_int :: "int \<Rightarrow> BALSplitterType" where
  "policy_of_int k = (if k = 0 then Proportional else if k = 1 then Tranche else if k = 2 then Reservation else Unknown_policy)"

text \<open>
  The status of a child as its policy has it. The policy is not in its background mode yet when
  the children ask, so it refreshes itself if its own status is stale, asking its source again.
\<close>

definition policy_status_of ::
  "(string \<Rightarrow> bos_dir \<Rightarrow> (v2_status \<times> bos_dir) outcome) \<Rightarrow> nanos \<Rightarrow> string \<Rightarrow> string \<Rightarrow> bos_dir \<Rightarrow>
   (v2_status \<times> bos_dir) outcome" where
  "policy_status_of get now policy child_name d =
    (case get_battery policy d of
       None \<Rightarrow> Inl Null_deref
     | Some b \<Rightarrow>
         (case the_splitter (v2_device b) of
            None \<Rightarrow> Inl Bad_cast
          | Some sp \<Rightarrow>
              (case map_of (name_lookup sp) child_name of
                 None \<Rightarrow> Inr (v2_bstatus b, d)
               | Some child_id \<Rightarrow>
                   obind
                     (if refresh_mode b = V2_LAZY \<and>
                         now - c_time_to_timepoint (v2_timestamp (v2_bstatus b)) \<ge> max_staleness b * 1000000
                      then
                        obind (get (src_name sp) d) (\<lambda>(source_status, d1).
                        obind (BALSplitter_refresh source_status (get_children policy d1) now (as_dev (\<lambda>_. sp) b)) (\<lambda>b'.
                        Inr (v2_device b', put_battery policy (as_dev Splitter_dev b') d1)))
                      else Inr (sp, d))
                     (\<lambda>(sp', d').
                        if child_id < length (children_status_now sp')
                        then Inr (children_status_now sp' ! child_id, d') else Inl Bad_index))))"

definition attach_child ::
  "v2_virtual \<Rightarrow> nanos \<Rightarrow> string \<Rightarrow> string \<Rightarrow> bos_dir \<Rightarrow> bos_dir outcome" where
  "attach_child vt now policy cn d =
    (case get_battery cn d of
       None \<Rightarrow> Inl Null_deref
     | Some b \<Rightarrow>
         (case v2_device b of
            Splitted_dev _ \<Rightarrow>
              (case get_battery policy d of
                 None \<Rightarrow> Inr d
               | Some p \<Rightarrow>
                   if v2_btype p \<noteq> V2_BALSplitter \<or> the_splitter (v2_device p) = None then Inr d
                   else obind (policy_status_of (bat_get_status vt) now policy cn d) (\<lambda>(st, d1).
                     Inr (put_battery cn (b\<lparr>v2_device := Splitted_dev \<lparr>attached_policy = Some policy\<rparr>,
                       v2_bstatus := st\<rparr>) d1)))
          | _ \<Rightarrow> Inl Null_deref))"

definition make_children :: "(string \<times> int) list \<Rightarrow> bos_dir \<Rightarrow> string option list \<times> bos_dir" where
  "make_children cs d =
     fold (\<lambda>(cn, staleness) (acc, d).
        let (b, d') = add_battery (as_dev Splitted_dev (new_SplittedBattery cn staleness)) d in (acc @ [b], d'))
       cs ([], d)"

definition start_policy :: "nanos \<Rightarrow> nanos \<Rightarrow> string \<Rightarrow> bos_dir \<Rightarrow> bos_dir outcome" where
  "start_policy now added policy d =
    (case get_battery policy d of
       None \<Rightarrow> Inl Null_deref
     | Some b \<Rightarrow> Inr (put_battery policy (snd (start_background_refresh now added b)) d))"

text \<open>
  A policy that does not get into the directory, because a child has taken its name, is freed there
  and then; the last call goes through the pointer to it.
\<close>

definition make_splitter ::
  "v2_virtual \<Rightarrow> (nat \<Rightarrow> nanos) \<Rightarrow> string \<Rightarrow> string \<Rightarrow> string list \<Rightarrow> v2_scale list \<Rightarrow> int list \<Rightarrow> int \<Rightarrow> int \<Rightarrow>
   bos_dir \<Rightarrow> (string option list \<times> bos_dir) outcome" where
  "make_splitter vt clock name src kid_names scales child_stalenesses policy staleness d =
    (if name_exists name d then Inr ([], d)
     else if \<not> name_exists src d then Inr ([], d)
     else if \<not> (length kid_names = length scales \<and> length kid_names = length child_stalenesses) then Inr ([], d)
     else if \<exists>cn \<in> set kid_names. name_exists cn d then Inr ([], d)
     else if \<not> scales_accepted scales then Inr ([], d)
     else
       (let (kids, d1) = make_children (zip kid_names child_stalenesses) d in
        obind (bat_get_status vt src d1) (\<lambda>(source_status, d2).
        let (p, d3) = add_battery (as_dev Splitter_dev
               (new_BALSplitter name src kid_names scales (policy_of_int policy) staleness source_status (clock 0))) d2
        in obind (link_edge src name d3) (\<lambda>d4.
           obind (ofold (\<lambda>cn d. obind (link_edge name cn d) (attach_child vt (clock 1) name cn)) kid_names d4) (\<lambda>d5.
           case p of
             None \<Rightarrow> Inl Null_deref
           | Some _ \<Rightarrow> obind (start_policy (clock 2) (clock 3) name d5) (\<lambda>d6. Inr (kids, d6)))))))"

section \<open>Dynamic batteries\<close>

record dynamic_linker =
  dl_open :: "string \<Rightarrow> nat option"
  dl_sym :: "nat \<Rightarrow> string \<Rightarrow> bool"
  dl_init :: "nat \<Rightarrow> string \<Rightarrow> nat option"

text \<open>A dynamic battery never sets the field that holds its type; \<open>junk_type\<close> is what the field happens to hold.\<close>

record loaded_libs =
  loaded_dynamic_libs :: "(string \<times> nat) list"
  closed_handles :: "nat list"

definition find_lib :: "string \<Rightarrow> loaded_libs \<Rightarrow> nat option" where
  "find_lib path libs = map_of (loaded_dynamic_libs libs) path"

definition add_lib :: "string \<Rightarrow> nat \<Rightarrow> loaded_libs \<Rightarrow> loaded_libs" where
  "add_lib path handle libs = libs\<lparr>loaded_dynamic_libs := map_insert (<) path handle (loaded_dynamic_libs libs)\<rparr>"

definition make_dynamic ::
  "dynamic_linker \<Rightarrow> v2_type \<Rightarrow> string \<Rightarrow> string \<Rightarrow> int \<Rightarrow> string \<Rightarrow> string \<Rightarrow> string \<Rightarrow> string \<Rightarrow> string \<Rightarrow>
   bos_dir \<Rightarrow> loaded_libs \<Rightarrow> string option \<times> bos_dir \<times> loaded_libs" where
  "make_dynamic dl junk_type name lib_path staleness init_func destruct_func get_status_func set_current_func get_delay_func d libs =
    (case (case find_lib lib_path libs of None \<Rightarrow> dl_open dl lib_path | Some h \<Rightarrow> Some h) of
       None \<Rightarrow> (None, d, libs)
     | Some lib_handle \<Rightarrow>
         if \<not> (\<forall>f \<in> set [init_func, destruct_func, get_status_func, set_current_func]. dl_sym dl lib_handle f)
         then (None, d, libs\<lparr>closed_handles := closed_handles libs @ [lib_handle]\<rparr>)
         else
           (let libs1 = add_lib lib_path lib_handle libs in
            case dl_init dl lib_handle init_func of
              None \<Rightarrow> (None, d, libs1)
            | Some init_result \<Rightarrow>
                (let (r, d1) = add_battery (new_v2_battery name junk_type staleness
                       (Dynamic_dev lib_handle init_result)) d
                 in (r, d1, libs1))))"

section \<open>Removal\<close>

definition manager_remove_battery :: "string \<Rightarrow> bos_dir \<Rightarrow> (int \<times> bos_dir) outcome" where
  "manager_remove_battery name d =
    (case get_battery name d of
       None \<Rightarrow> Inr (0, d)
     | Some b \<Rightarrow> if v2_btype b = V2_Splitted then Inr (0, d) else remove_battery name d)"

section \<open>Scales\<close>

definition scale_ok :: "v2_scale \<Rightarrow> bool" where
  "scale_ok sc \<longleftrightarrow> within_01_range (sc_capacity sc) \<and> within_01_range (sc_max_capacity sc) \<and>
     within_01_range (sc_max_discharge_rate sc) \<and> within_01_range (sc_max_charge_rate sc)"

text \<open>The four sums of a list of scales, started at a scale.\<close>

definition total_from :: "v2_scale \<Rightarrow> v2_scale list \<Rightarrow> v2_scale" where
  "total_from s scs =
    \<lparr>sc_capacity = sc_capacity s + (\<Sum>sc\<leftarrow>scs. sc_capacity sc),
     sc_max_capacity = sc_max_capacity s + (\<Sum>sc\<leftarrow>scs. sc_max_capacity sc),
     sc_max_discharge_rate = sc_max_discharge_rate s + (\<Sum>sc\<leftarrow>scs. sc_max_discharge_rate sc),
     sc_max_charge_rate = sc_max_charge_rate s + (\<Sum>sc\<leftarrow>scs. sc_max_charge_rate sc)\<rparr>"

lemma is_zero_of_0 [simp]: "is_zero (scale_of 0)"
  by (simp add: is_zero_def scale_of_def within_01_range_def DBL_EQUAL_def)

lemma total_from_Nil [simp]: "total_from s [] = s"
  by (simp add: total_from_def)

lemma total_from_Cons: "total_from s (sc # scs) = total_from (total_from s [sc]) scs"
  by (simp add: total_from_def)

lemma scale_plus_cases: "scale_plus a b = (if scale_ok (total_from a [b]) then total_from a [b] else scale_of 0)"
  by (simp add: scale_plus_spec total_from_def scale_ok_def)

lemma scale_ok_total:
  assumes "scale_ok (total_from s (sc # scs))" and "\<forall>sc \<in> set scs. scale_ok sc" and "scale_ok s" and "scale_ok sc"
  shows "scale_ok (total_from s [sc])"
proof -
  have "0 \<le> (\<Sum>x\<leftarrow>scs. sc_capacity x)" "0 \<le> (\<Sum>x\<leftarrow>scs. sc_max_capacity x)"
    "0 \<le> (\<Sum>x\<leftarrow>scs. sc_max_discharge_rate x)" "0 \<le> (\<Sum>x\<leftarrow>scs. sc_max_charge_rate x)"
    using assms(2) by (auto intro!: sum_list_nonneg_map simp: scale_ok_def within_01_range_def)
  then show ?thesis using assms by (simp add: scale_ok_def total_from_def within_01_range_def)
qed

lemma not_zero_grows:
  assumes "\<not> is_zero s" and "scale_ok s" and "scale_ok sc"
  shows "\<not> is_zero (total_from s [sc])"
  using assms by (simp add: is_zero_def DBL_EQUAL_def scale_ok_def total_from_def within_01_range_def)

lemma sum_scales_spec:
  assumes "\<forall>sc \<in> set scs. scale_ok sc" and "scale_ok s" and "\<not> is_zero s"
  shows "sum_scales scs s = (if scale_ok (total_from s scs) then Some (total_from s scs) else None)"
  using assms
proof (induction scs arbitrary: s)
  case (Cons sc scs)
  have nz: "\<not> is_zero (total_from s [sc])" using Cons.prems not_zero_grows by simp
  show ?case
  proof (cases "scale_ok (total_from s [sc])")
    case True
    with nz Cons show ?thesis
      by (simp add: scale_plus_cases total_from_Cons [of s sc scs])
  next
    case False
    then have "\<not> scale_ok (total_from s (sc # scs))" using scale_ok_total Cons.prems by auto
    with False show ?thesis by (simp add: scale_plus_cases)
  qed
qed simp

text \<open>
  Of children whose shares are proportions, the factory accepts exactly those whose four sums
  reach one, to within the rounding unit and not above it, and whose first child has some of each of
  the four quantities.
\<close>

theorem accepted_scales_cover_source:
  assumes "\<forall>sc \<in> set scs. scale_ok sc"
  shows "scales_accepted scs \<longleftrightarrow>
    scs \<noteq> [] \<and> \<not> is_zero (hd scs) \<and> is_one (total_from (scale_of 0) scs) \<and> scale_ok (total_from (scale_of 0) scs)"
proof (cases scs)
  case Nil
  then show ?thesis
    by (simp add: scales_accepted_def is_one_def scale_of_def within_01_range_def DBL_EQUAL_def)
next
  case (Cons sc rest)
  then have ok: "scale_ok sc" "\<forall>sc \<in> set rest. scale_ok sc" using assms by simp_all
  have first: "total_from (scale_of 0) [sc] = sc"
    by (simp add: total_from_def scale_of_def within_01_range_def)
  have all: "total_from (scale_of 0) scs = total_from sc rest"
    using Cons first by (simp add: total_from_Cons [of _ sc rest])
  show ?thesis
  proof (cases "is_zero sc")
    case True
    then show ?thesis using Cons ok first by (simp add: scales_accepted_def scale_plus_cases)
  next
    case False
    then show ?thesis
      using Cons ok first all sum_scales_spec [OF ok(2,1) False]
      by (auto simp: scales_accepted_def scale_plus_cases)
  qed
qed

theorem accepted_scales_cover_source_witness:
  "scales_accepted [scale_of (1 / 4), scale_of (3 / 4)] \<and> \<not> scales_accepted [scale_of 0, scale_of 1]"
proof -
  have ok: "\<forall>sc \<in> set [scale_of (1 / 4), scale_of (3 / 4)]. scale_ok sc" "\<forall>sc \<in> set [scale_of 0, scale_of 1]. scale_ok sc"
    by (simp_all add: scale_ok_def scale_of_def within_01_range_def)
  show ?thesis
    using accepted_scales_cover_source [OF ok(1)] accepted_scales_cover_source [OF ok(2)]
    by (simp add: total_from_def scale_of_def within_01_range_def is_one_def is_zero_def DBL_EQUAL_def scale_ok_def)
qed

section \<open>The graph under the factories\<close>

text \<open>Two directories with the same graph, whose batteries are related one by one.\<close>

definition same_graph :: "(bos_battery \<Rightarrow> bos_battery \<Rightarrow> bool) \<Rightarrow> bos_dir \<Rightarrow> bos_dir \<Rightarrow> bool" where
  "same_graph R d d' \<longleftrightarrow>
     map fst (name_storage_map d') = map fst (name_storage_map d) \<and>
     parent_map d' = parent_map d \<and> children_map d' = children_map d \<and>
     (\<forall>k b b'. get_battery k d = Some b \<longrightarrow> get_battery k d' = Some b' \<longrightarrow>
        v2_name b' = v2_name b \<and> v2_btype b' = v2_btype b \<and> R b b')"

text \<open>The references a device holds to other batteries, which only the factories set.\<close>

datatype dev_shape = Leaf_shape | Serial_shape | Aggregate_shape | Policy_shape string | Child_shape "string option"

primrec shape_of :: "v2_dev \<Rightarrow> dev_shape" where
  "shape_of Null_dev = Leaf_shape"
| "shape_of Pseudo_dev = Leaf_shape"
| "shape_of (JBD_dev j) = Serial_shape"
| "shape_of (Remote_dev r a p) = Leaf_shape"
| "shape_of (Aggregate_dev a) = Aggregate_shape"
| "shape_of (Splitter_dev sp) = Policy_shape (src_name sp)"
| "shape_of (Splitted_dev s) = Child_shape (attached_policy s)"
| "shape_of (Dynamic_dev h i) = Leaf_shape"

lemma shape_of_child: "shape_of dev = Child_shape p \<longleftrightarrow> dev = Splitted_dev \<lparr>attached_policy = p\<rparr>"
  by (cases dev) (auto intro: splitted.equality)

lemma shape_of_aggregate: "shape_of dev = Aggregate_shape \<longleftrightarrow> (\<exists>a. dev = Aggregate_dev a)"
  by (cases dev) simp_all

lemma shape_of_policy: "shape_of dev = Policy_shape src \<longleftrightarrow> (\<exists>sp. the_splitter dev = Some sp \<and> src_name sp = src)"
  by (cases dev) (simp_all add: the_splitter_def)

lemma the_splitter_None: "the_splitter dev = None \<longleftrightarrow> (\<forall>src. shape_of dev \<noteq> Policy_shape src)"
  by (cases dev) (simp_all add: the_splitter_def)

definition shape_kept :: "bos_battery \<Rightarrow> bos_battery \<Rightarrow> bool" where
  "shape_kept b b' \<longleftrightarrow> shape_of (v2_device b') = shape_of (v2_device b)"

text \<open>What the factories rely on of the virtual functions: they leave the graph alone.\<close>

definition keeps_graph :: "v2_virtual \<Rightarrow> bool" where
  "keeps_graph vt \<longleftrightarrow>
     (\<forall>name d st d'. virt_get_status vt name d = Inr (st, d') \<longrightarrow> same_graph shape_kept d d') \<and>
     (\<forall>name target gt w u d r d'. virt_schedule vt name target gt w u d = Inr (r, d') \<longrightarrow> same_graph shape_kept d d')"

lemma name_exists_keys: "name_exists k d \<longleftrightarrow> k \<in> set (map fst (name_storage_map d))"
  by (simp add: name_exists_def has_key_def map_of_eq_None_iff flip: not_None_eq)

lemma get_battery_exists: "name_exists k d \<longleftrightarrow> (\<exists>b. get_battery k d = Some b)"
  by (simp add: name_exists_def get_battery_def has_key_def)

lemma same_graph_exists: "same_graph R d d' \<Longrightarrow> name_exists k d' = name_exists k d"
  unfolding name_exists_keys same_graph_def by simp

lemma same_graph_neighbours:
  "same_graph R d d' \<Longrightarrow> get_children k d' = get_children k d" "same_graph R d d' \<Longrightarrow> get_parents k d' = get_parents k d"
  by (simp_all add: same_graph_def get_children_def get_parents_def)

lemma same_graph_battery:
  assumes "same_graph R d d'" and "get_battery k d = Some b"
  obtains b' where "get_battery k d' = Some b'" and "v2_name b' = v2_name b" and "v2_btype b' = v2_btype b" and "R b b'"
proof -
  obtain b' where "get_battery k d' = Some b'"
    using assms(2) same_graph_exists [OF assms(1), of k] by (auto simp: get_battery_exists)
  with assms that show thesis unfolding same_graph_def by blast
qed

lemma same_graph_inv:
  assumes "same_graph R d d'" and "v2_dir_inv d"
  shows "v2_dir_inv d'"
proof -
  have names: "v2_name b' = k" if k: "get_battery k d' = Some b'" for k b'
  proof -
    obtain b where b: "get_battery k d = Some b"
      using k same_graph_exists [OF assms(1), of k] by (auto simp: get_battery_exists)
    have "v2_name b' = v2_name b" using b k assms(1) unfolding same_graph_def by blast
    moreover have "v2_name b = k" using b assms(2) by (simp add: v2_dir_inv_def)
    ultimately show ?thesis by simp
  qed
  have keys: "has_key k (name_storage_map d') = has_key k (name_storage_map d)" for k
    using same_graph_exists [OF assms(1), of k] by (simp add: name_exists_def)
  have wf: "str.wf_map (name_storage_map d')"
    using assms by (simp add: v2_dir_inv_def same_graph_def str.wf_map_keys)
  have maps: "parent_map d' = parent_map d" "children_map d' = children_map d"
    using assms(1) by (simp_all add: same_graph_def)
  show ?thesis
    using assms(2) wf names
    by (simp add: v2_dir_inv_def same_graph_neighbours [OF assms(1)] name_exists_def keys maps)
qed

lemma same_graph_trans:
  assumes "same_graph shape_kept d1 d2" and "same_graph shape_kept d2 d3"
  shows "same_graph shape_kept d1 d3"
  unfolding same_graph_def
proof (intro conjI allI impI)
  fix k b b' assume k: "get_battery k d1 = Some b" "get_battery k d3 = Some b'"
  then obtain m where m: "get_battery k d2 = Some m" "v2_name m = v2_name b" "v2_btype m = v2_btype b" "shape_kept b m"
    by (metis same_graph_battery [OF assms(1)])
  then obtain m' where "get_battery k d3 = Some m'" "v2_name m' = v2_name m" "v2_btype m' = v2_btype m" "shape_kept m m'"
    by (metis same_graph_battery [OF assms(2)])
  with m k show "v2_name b' = v2_name b" "v2_btype b' = v2_btype b" "shape_kept b b'"
    by (auto simp: shape_kept_def)
qed (use assms in \<open>simp_all add: same_graph_def\<close>)

lemma same_graph_refl: "same_graph shape_kept d d"
  by (auto simp: same_graph_def shape_kept_def)

lemma get_put_battery:
  "name_exists name d \<Longrightarrow> get_battery k (put_battery name b d) = (if k = name then Some b else get_battery k d)"
  by (auto simp: get_battery_def put_battery_def map_of_map_update name_exists_def has_key_def)

lemma same_graph_put:
  assumes "get_battery name d = Some b" and "v2_name b' = v2_name b" and "v2_btype b' = v2_btype b" and "R b b'"
    and "\<forall>b. R b b"
  shows "same_graph R d (put_battery name b' d)"
  using assms get_battery_exists [of name d]
  by (auto simp: same_graph_def get_put_battery split: if_splits) (simp_all add: put_battery_def)

text \<open>What the two operations of the directory do to the graph and to the stored batteries.\<close>

lemma add_battery_fresh:
  assumes "v2_dir_inv d" and "\<not> name_exists (v2_name b) d" and "add_battery b d = (r, d')"
  shows "r = Some (v2_name b)" and "v2_dir_inv d'"
    and "get_battery k d' = (if k = v2_name b then Some b else get_battery k d)"
    and "get_children k d' = get_children k d" and "get_parents k d' = get_parents k d"
proof -
  note d' = assms(3) [unfolded add_battery_def Let_def]
  show "v2_dir_inv d'" using dir_step_inv [OF step_add [of d b]] assms by simp
  show "r = Some (v2_name b)" using d' assms(2) by (auto simp: name_exists_def)
  show "get_battery k d' = (if k = v2_name b then Some b else get_battery k d)"
    using d' assms(1,2)
    by (auto simp: name_exists_def has_key_def get_battery_def v2_dir_inv_def str.map_of_insert split: option.splits)
  show "get_children k d' = get_children k d" "get_parents k d' = get_parents k d"
    using d' assms(1,2) by (auto simp: name_exists_def get_neighbours v2_dir_inv_def neighbours_insert)
qed

lemma add_battery_taken: "name_exists (v2_name b) d \<Longrightarrow> add_battery b d = (None, d)"
  by (simp add: add_battery_def name_exists_def)

lemma add_edge_inv: "v2_dir_inv d \<Longrightarrow> v2_dir_inv (snd (add_edge p c d))"
  using dir_step_inv step_edge by blast

lemma add_edge_battery [simp]: "get_battery k (snd (add_edge p c d)) = get_battery k d"
  by (simp add: add_edge_def get_battery_def)

lemma add_edge_exists [simp]: "name_exists k (snd (add_edge p c d)) = name_exists k d"
  by (simp add: add_edge_def name_exists_def)

lemma add_edge_neighbours:
  assumes "v2_dir_inv d"
  shows "get_children k (snd (add_edge p c d)) =
           (if name_exists p d \<and> name_exists c d \<and> k = p then get_children k d @ [c] else get_children k d)"
    and "get_parents k (snd (add_edge p c d)) =
           (if name_exists p d \<and> name_exists c d \<and> k = c then get_parents k d @ [p] else get_parents k d)"
  using assms by (auto simp: add_edge_def name_exists_def v2_dir_inv_def get_neighbours neighbours_link)

lemma link_edge_other [simp]: "p \<noteq> c \<Longrightarrow> link_edge p c d = Inr (snd (add_edge p c d))"
  by (simp add: link_edge_def)

lemma as_dev_simps [simp]:
  "v2_name (as_dev f b) = v2_name b" "v2_btype (as_dev f b) = v2_btype b" "v2_bstatus (as_dev f b) = v2_bstatus b"
  "v2_device (as_dev f b) = f (v2_device b)" "max_staleness (as_dev f b) = max_staleness b"
  "refresh_mode (as_dev f b) = refresh_mode b"
  by (simp_all add: as_dev_def)

lemma new_battery_names [simp]:
  "v2_name (new_v2_battery n ty s dev) = n" "v2_name (new_NullBattery n v s) = n" "v2_name (new_PseudoBattery_v2 n st s) = n"
  "v2_name (new_AggregatorBattery n v t sts s) = n" "v2_name (new_SplittedBattery n s) = n"
  "v2_name (new_BALSplitter n src ns scs pol s st t) = n"
  by (simp_all add: new_v2_battery_def new_NullBattery_def new_PseudoBattery_v2_def new_AggregatorBattery_def
      new_SplittedBattery_def new_BALSplitter_def Let_def)

text \<open>A directory grown by batteries under new names, the graph unchanged.\<close>

definition entered :: "(bos_battery \<Rightarrow> bool) \<Rightarrow> string set \<Rightarrow> bos_dir \<Rightarrow> bos_dir \<Rightarrow> bool" where
  "entered Q N d d' \<longleftrightarrow> v2_dir_inv d' \<and>
     (\<forall>k. get_children k d' = get_children k d \<and> get_parents k d' = get_parents k d) \<and>
     (\<forall>k. k \<notin> N \<longrightarrow> get_battery k d' = get_battery k d) \<and>
     (\<forall>k \<in> N. \<exists>b. get_battery k d' = Some b \<and> Q b)"

lemma entered_add:
  assumes "v2_dir_inv d" and "\<not> name_exists (v2_name b) d" and "Q b"
  shows "entered Q {v2_name b} d (snd (add_battery b d))"
  using add_battery_fresh [OF assms(1,2)] assms(3) by (cases "add_battery b d") (simp add: entered_def)

definition fresh_child :: "bos_battery \<Rightarrow> bool" where
  "fresh_child b \<longleftrightarrow> v2_btype b = V2_Splitted \<and> v2_device b = Splitted_dev \<lparr>attached_policy = None\<rparr>"

lemma fresh_child_new: "fresh_child (as_dev Splitted_dev (new_SplittedBattery cn s))"
  by (simp add: fresh_child_def new_SplittedBattery_def new_v2_battery_def)

lemma make_children_fold:
  assumes "v2_dir_inv d" and "\<forall>cn \<in> fst ` set cs. \<not> name_exists cn d0" and "entered fresh_child N d0 d"
    and "N \<subseteq> {k. \<not> name_exists k d0}"
    and "fold (\<lambda>(cn, s) (acc, d). let (b, d') = add_battery (as_dev Splitted_dev (new_SplittedBattery cn s)) d in (acc @ [b], d'))
           cs (acc, d) = (kids, d')"
  shows "entered fresh_child (N \<union> fst ` set cs) d0 d' \<and> length kids = length acc + length cs"
  using assms
proof (induction cs arbitrary: d acc N)
  case (Cons c cs)
  obtain cn s where c: "c = (cn, s)" by (cases c)
  define b where "b = as_dev Splitted_dev (new_SplittedBattery cn s)"
  obtain r d1 where add: "add_battery b d = (r, d1)" by fastforce
  have b: "v2_name b = cn" "fresh_child b" by (simp_all add: b_def fresh_child_new)
  have "entered fresh_child (insert cn N) d0 d1 \<and> v2_dir_inv d1"
  proof (cases "name_exists cn d")
    case True
    then have "d1 = d" using add_battery_taken [of b d] add b by simp
    moreover have "cn \<in> N"
      using True Cons.prems(2,3) c get_battery_exists [of cn d] get_battery_exists [of cn d0]
      by (auto simp: entered_def)
    ultimately show ?thesis using Cons.prems(1,3) by (simp add: insert_absorb)
  next
    case False
    from add_battery_fresh [OF Cons.prems(1) _ add] False b Cons.prems(3)
    show ?thesis by (auto simp: entered_def)
  qed
  moreover have "fold (\<lambda>(cn, s) (acc, d). let (b, d') = add_battery (as_dev Splitted_dev (new_SplittedBattery cn s)) d in (acc @ [b], d'))
           cs (acc @ [r], d1) = (kids, d')"
    using Cons.prems(5) add c b_def by simp
  ultimately show ?case
    using Cons.IH [of d1 "insert cn N" "acc @ [r]"] Cons.prems(2,4) c by auto
qed auto

lemma make_children_entered:
  assumes "v2_dir_inv d" and "\<forall>cn \<in> fst ` set cs. \<not> name_exists cn d" and "make_children cs d = (kids, d')"
  shows "entered fresh_child (fst ` set cs) d d'" and "length kids = length cs"
proof -
  have "entered fresh_child {} d d" using assms(1) by (simp add: entered_def)
  from make_children_fold [OF assms(1,2) this _ assms(3) [unfolded make_children_def]]
  show "entered fresh_child (fst ` set cs) d d'" "length kids = length cs" by simp_all
qed

section \<open>A splitter and its children\<close>

lemma bat_get_status_graph:
  "keeps_graph vt \<Longrightarrow> bat_get_status vt name d = Inr (st, d') \<Longrightarrow> same_graph shape_kept d d'"
  by (auto simp: bat_get_status_def keeps_graph_def split: option.splits if_splits)

lemma ofold_keeps:
  assumes "ofold f xs s = Inr t" and "\<And>x s t. f x s = Inr t \<Longrightarrow> g t = g s"
  shows "g t = g s"
  using assms(1) by (induction xs arbitrary: s) (auto dest: assms(2))

lemma estimate_all_src [simp]: "src_name (estimate_all now sp) = src_name sp"
proof -
  have "src_name (fold (charge_estimate now) is sp) = src_name sp" for "is"
    by (induction "is" arbitrary: sp) (simp_all add: charge_estimate_def)
  then show ?thesis by (simp add: estimate_all_def)
qed

lemma child_id_of_src: "child_id_of name sp = (cid, sp') \<Longrightarrow> src_name sp' = src_name sp"
  by (auto simp: child_id_of_def split: option.splits)

lemma take_share_src: "take_share name s = Inr t \<Longrightarrow> src_name (snd t) = src_name (snd s)"
  by (auto simp: take_share_def Let_def child_id_of_src split: prod.splits if_splits)

lemma proportional_child_src: "proportional_child src t name sp = Inr sp' \<Longrightarrow> src_name sp' = src_name sp"
  by (auto simp: proportional_child_def Let_def child_id_of_src split: prod.splits if_splits)

lemma refresh_shares_src:
  assumes "refresh_shares distribute st kids now sp = Inr sp'"
  shows "src_name sp' = src_name sp"
proof -
  obtain src sp1 where "ofold take_share kids (st, estimate_all now sp) = Inr (src, sp1)" "src_name sp' = src_name sp1"
    using assms by (auto simp: refresh_shares_def)
  with ofold_keeps [where g = "\<lambda>s. src_name (snd s)", OF _ take_share_src] show ?thesis by fastforce
qed

lemma BALSplitter_refresh_frame:
  assumes "BALSplitter_refresh st kids now b = Inr b'"
  shows "v2_name b' = v2_name b \<and> v2_btype b' = v2_btype b \<and> src_name (v2_device b') = src_name (v2_device b)"
proof -
  obtain sp where sp: "b' = b\<lparr>v2_device := sp\<rparr>"
      "(case policy_type (v2_device b) of
          Proportional \<Rightarrow> refresh_proportional st kids now (v2_device b)
        | Tranche \<Rightarrow> refresh_tranche st kids now (v2_device b)
        | Reservation \<Rightarrow> refresh_reservation st kids now (v2_device b)
        | Unknown_policy \<Rightarrow> Inr (v2_device b)) = Inr sp"
    using assms by (auto simp: BALSplitter_refresh_def Let_def)
  have "src_name sp = src_name (v2_device b)"
  proof (cases "policy_type (v2_device b)")
    case Proportional
    with sp(2) ofold_keeps [where g = src_name, OF _ proportional_child_src] show ?thesis
      by (fastforce simp: refresh_proportional_def Let_def)
  qed (use sp(2) in \<open>auto simp: refresh_tranche_def refresh_reservation_def dest: refresh_shares_src\<close>)
  with sp(1) show ?thesis by simp
qed

text \<open>A status call that keeps the graph keeps it when a policy makes it.\<close>

lemma policy_status_graph:
  assumes "\<forall>name d st d'. get name d = Inr (st, d') \<longrightarrow> same_graph shape_kept d d'"
    and "policy_status_of get now policy cn d = Inr (st, d')"
  shows "same_graph shape_kept d d'"
proof -
  obtain b sp where b: "get_battery policy d = Some b" "v2_device b = Splitter_dev sp"
    using assms(2) by (auto simp: policy_status_of_def the_splitter_def split: option.splits v2_dev.splits)
  have "same_graph shape_kept d (put_battery policy (as_dev Splitter_dev b') d1)"
    if vt: "get (src_name sp) d = Inr (ss, d1)"
      and r: "BALSplitter_refresh ss (get_children policy d1) now (as_dev (\<lambda>_. sp) b) = Inr b'" for ss d1 b'
  proof -
    have g: "same_graph shape_kept d d1" using assms(1) vt by blast
    obtain b1 where b1: "get_battery policy d1 = Some b1" "v2_name b1 = v2_name b" "v2_btype b1 = v2_btype b" "shape_kept b b1"
      using same_graph_battery [OF g b(1)] .
    have "same_graph shape_kept d1 (put_battery policy (as_dev Splitter_dev b') d1)"
      using b(2) b1 BALSplitter_refresh_frame [OF r] by (intro same_graph_put [OF b1(1)]) (auto simp: shape_kept_def)
    with g show ?thesis by (rule same_graph_trans)
  qed
  then show ?thesis
    using assms(2) b same_graph_refl [of d]
    by (auto simp: policy_status_of_def the_splitter_def split: option.splits if_splits)
qed

definition attached_to :: "string \<Rightarrow> bos_battery \<Rightarrow> bool" where
  "attached_to policy b \<longleftrightarrow> v2_device b = Splitted_dev \<lparr>attached_policy = Some policy\<rparr>"

text \<open>What attaching a child keeps: a battery is as before or is attached now, and no battery becomes a policy.\<close>

definition attaching :: "string \<Rightarrow> bos_battery \<Rightarrow> bos_battery \<Rightarrow> bool" where
  "attaching policy b b' \<longleftrightarrow> shape_kept b b' \<or> attached_to policy b' \<and> the_splitter (v2_device b) = None"

definition is_policy :: "bos_battery \<Rightarrow> bool" where
  "is_policy b \<longleftrightarrow> v2_btype b = V2_BALSplitter \<and> the_splitter (v2_device b) \<noteq> None"

lemma attached_stays: "attaching policy b b' \<Longrightarrow> attached_to policy b \<Longrightarrow> attached_to policy b'"
  unfolding attached_to_def shape_of_child [symmetric] by (auto simp: attaching_def attached_to_def shape_kept_def)

lemma is_policy_stays: "attaching policy b b' \<Longrightarrow> v2_btype b' = v2_btype b \<Longrightarrow> is_policy b \<Longrightarrow> is_policy b'"
  by (auto simp: attaching_def is_policy_def shape_kept_def the_splitter_None)

lemma attach_child_spec:
  assumes "keeps_graph vt" and "attach_child vt now policy cn d = Inr d'"
    and "get_battery policy d = Some p" and "is_policy p"
    and "get_battery cn d = Some b"
  shows "same_graph (attaching policy) d d'"
    and "\<exists>b'. get_battery cn d' = Some b' \<and> attached_to policy b'"
proof -
  obtain st d1 where st: "policy_status_of (bat_get_status vt) now policy cn d = Inr (st, d1)"
      and d': "d' = put_battery cn (b\<lparr>v2_device := Splitted_dev \<lparr>attached_policy = Some policy\<rparr>, v2_bstatus := st\<rparr>) d1"
      and old: "the_splitter (v2_device b) = None"
    using assms by (auto simp: attach_child_def is_policy_def the_splitter_def split: option.splits v2_dev.splits if_splits)
  have g: "same_graph shape_kept d d1"
    using policy_status_graph [OF _ st] bat_get_status_graph [OF assms(1)] by blast
  obtain b1 where b1: "get_battery cn d1 = Some b1" "v2_name b1 = v2_name b" "v2_btype b1 = v2_btype b"
    using same_graph_battery [OF g assms(5)] .
  then have ex: "name_exists cn d1" by (auto simp: get_battery_exists)
  then show "\<exists>b'. get_battery cn d' = Some b' \<and> attached_to policy b'"
    by (simp add: d' get_put_battery attached_to_def)
  have g': "v2_name m = v2_name m0 \<and> v2_btype m = v2_btype m0 \<and> shape_kept m0 m"
    if "get_battery k d = Some m0" "get_battery k d1 = Some m" for k m0 m
    using g that unfolding same_graph_def by blast
  show "same_graph (attaching policy) d d'"
    unfolding same_graph_def
  proof (intro conjI allI impI)
    fix k m0 m assume k: "get_battery k d = Some m0" "get_battery k d' = Some m"
    have "v2_name m = v2_name m0 \<and> v2_btype m = v2_btype m0 \<and> attaching policy m0 m"
    proof (cases "k = cn")
      case True
      with k ex assms(5) old show ?thesis
        by (auto simp: d' get_put_battery attaching_def attached_to_def the_splitter_def)
    next
      case False
      with k ex have "get_battery k d1 = Some m" by (simp add: d' get_put_battery)
      from g' [OF k(1) this] show ?thesis by (simp add: attaching_def shape_kept_def)
    qed
    then show "v2_name m = v2_name m0" "v2_btype m = v2_btype m0" "attaching policy m0 m"
      by simp_all
  qed (use g in \<open>simp_all add: same_graph_def d' put_battery_def\<close>)
qed

text \<open>The state of the loop over the children: those done hang below the policy and know it.\<close>

definition policy_tree :: "string \<Rightarrow> string \<Rightarrow> string list \<Rightarrow> string set \<Rightarrow> bos_dir \<Rightarrow> bool" where
  "policy_tree name src kids N d \<longleftrightarrow> v2_dir_inv d \<and> get_children name d = kids \<and> get_parents name d = [src] \<and>
     (\<forall>k. name_exists k d \<longleftrightarrow> k \<in> N) \<and> (\<exists>p. get_battery name d = Some p \<and> is_policy p) \<and>
     (\<forall>cn \<in> set kids. \<exists>b. get_battery cn d = Some b \<and> attached_to name b)"

lemma policy_tree_same_graph:
  assumes "same_graph (attaching name) d d'" and "policy_tree name src kids N d"
  shows "policy_tree name src kids N d'"
proof -
  obtain p where p: "get_battery name d = Some p" "is_policy p"
    using assms(2) by (auto simp: policy_tree_def)
  then obtain p' where "get_battery name d' = Some p'" "is_policy p'"
    by (metis same_graph_battery [OF assms(1) p(1)] is_policy_stays)
  moreover have "\<exists>b'. get_battery cn d' = Some b' \<and> attached_to name b'" if cn: "cn \<in> set kids" for cn
  proof -
    obtain b where b: "get_battery cn d = Some b" "attached_to name b" using assms(2) cn by (auto simp: policy_tree_def)
    obtain b' where "get_battery cn d' = Some b'" "attaching name b b'"
      using same_graph_battery [OF assms(1) b(1)] .
    with b(2) attached_stays show ?thesis by blast
  qed
  ultimately show ?thesis
    using assms(2) same_graph_inv [OF assms(1)]
    by (simp add: policy_tree_def same_graph_exists [OF assms(1)] same_graph_neighbours [OF assms(1)])
qed

lemma attach_step_tree:
  assumes "keeps_graph vt" and "policy_tree name src kids N d" and "cn \<in> N" and "cn \<noteq> name"
    and "attach_child vt now name cn (snd (add_edge name cn d)) = Inr d'"
  shows "policy_tree name src (kids @ [cn]) N d'"
proof -
  let ?d1 = "snd (add_edge name cn d)"
  obtain p where p: "get_battery name d = Some p" "is_policy p" and inv: "v2_dir_inv d"
    using assms(2) by (auto simp: policy_tree_def)
  have ex: "name_exists name d" "name_exists cn d"
    using p assms(2,3) by (auto simp: get_battery_exists policy_tree_def)
  obtain b where b: "get_battery cn ?d1 = Some b" using ex(2) by (auto simp: get_battery_exists)
  note sp = attach_child_spec [OF assms(1,5) _ p(2) b]
  have g: "same_graph (attaching name) ?d1 d'"
    and c: "\<exists>b'. get_battery cn d' = Some b' \<and> attached_to name b'"
    using sp p(1) by simp_all
  have "v2_dir_inv ?d1" using inv by (rule add_edge_inv)
  then have inv': "v2_dir_inv d'" using same_graph_inv [OF g] by blast
  have nb: "get_children name d' = kids @ [cn]" "get_parents name d' = [src]"
    using assms(2,4) ex by (simp_all add: same_graph_neighbours [OF g] add_edge_neighbours [OF inv] policy_tree_def)
  have att: "\<exists>b'. get_battery k d' = Some b' \<and> attached_to name b'" if k: "k \<in> set kids" for k
  proof -
    obtain m where m: "get_battery k ?d1 = Some m" "attached_to name m" using assms(2) k by (auto simp: policy_tree_def)
    obtain m' where "get_battery k d' = Some m'" "attaching name m m'"
      using same_graph_battery [OF g m(1)] .
    with m(2) attached_stays show ?thesis by blast
  qed
  obtain p' where "get_battery name d' = Some p'" "is_policy p'"
    using same_graph_battery [OF g, of name p] p is_policy_stays by (metis add_edge_battery)
  with inv' nb att c assms(2) show ?thesis
    by (auto simp: policy_tree_def same_graph_exists [OF g])
qed

lemma attach_loop_tree:
  assumes "keeps_graph vt" and "policy_tree name src kids N d" and "set cs \<subseteq> N" and "name \<notin> set cs"
    and "ofold (\<lambda>cn d. obind (link_edge name cn d) (attach_child vt now name cn)) cs d = Inr d'"
  shows "policy_tree name src (kids @ cs) N d'"
  using assms
proof (induction cs arbitrary: kids d)
  case (Cons cn cs)
  then obtain d1 where "attach_child vt now name cn (snd (add_edge name cn d)) = Inr d1"
      and rest: "ofold (\<lambda>cn d. obind (link_edge name cn d) (attach_child vt now name cn)) cs d1 = Inr d'"
    by auto
  then have "policy_tree name src (kids @ [cn]) N d1"
    using Cons.prems by (intro attach_step_tree) auto
  from Cons.IH [OF Cons.prems(1) this _ _ rest] Cons.prems(3,4) show ?case by simp
qed simp

lemma no_neighbours:
  assumes "v2_dir_inv d" and "\<not> name_exists k d"
  shows "get_children k d = []" and "get_parents k d = []"
proof -
  have e: "c \<in> set (get_children p d) \<Longrightarrow> name_exists p d \<and> name_exists c d" for p c
    using assms(1) by (simp add: v2_dir_inv_def)
  then show "get_children k d = []" using assms(2) by (metis list.set_intros(1) neq_Nil_conv)
  have "count_list (get_parents k d) p = count_list (get_children p d) k" for p
    using assms(1) by (simp add: v2_dir_inv_def)
  then have "p \<notin> set (get_parents k d)" for p
    using e [of k p] assms(2) by (metis count_list_0_iff)
  then show "get_parents k d = []" by (metis list.set_intros(1) neq_Nil_conv)
qed

lemma scales_accepted_Nil [simp]: "\<not> scales_accepted []"
  by (simp add: scales_accepted_def is_one_def scale_of_def within_01_range_def DBL_EQUAL_def)

lemma entered_exists: "entered Q N d d' \<Longrightarrow> name_exists k d' \<longleftrightarrow> k \<in> N \<or> name_exists k d"
  unfolding get_battery_exists entered_def by (cases "k \<in> N") auto

lemma splitter_entered:
  assumes "v2_dir_inv d" and "\<not> name_exists name d" and "name_exists src d" and "v2_name b = name"
    and "is_policy b"
  shows "policy_tree name src [] (insert name {k. name_exists k d}) (snd (add_edge src name (snd (add_battery b d))))"
proof -
  obtain r d1 where add: "add_battery b d = (r, d1)" by fastforce
  note f = add_battery_fresh [OF assms(1) _ add, unfolded assms(4), OF assms(2)]
  have ex: "name_exists k d1 \<longleftrightarrow> k = name \<or> name_exists k d" for k
    by (simp add: get_battery_exists f(3))
  show ?thesis
    using ex assms f(2,3) no_neighbours [OF assms(1,2)]
    by (auto simp: policy_tree_def add add_edge_inv add_edge_neighbours [OF f(2)] f(4,5))
qed

text \<open>The guards of the factory, and what it does behind them.\<close>

lemma make_splitter_cases:
  assumes "make_splitter vt clock name src kid_names scales sts policy staleness d = Inr (kids, d')"
  shows "kids = [] \<and> d' = d \<or>
    \<not> name_exists name d \<and> name_exists src d \<and> length sts = length kid_names \<and>
    (\<forall>cn \<in> set kid_names. \<not> name_exists cn d) \<and> scales_accepted scales \<and> length scales = length kid_names \<and>
    (\<exists>d1 ss d2 b d4 d5.
       make_children (zip kid_names sts) d = (kids, d1) \<and> bat_get_status vt src d1 = Inr (ss, d2) \<and>
       v2_name b = name \<and> is_policy b \<and> fst (add_battery b d2) \<noteq> None \<and>
       d4 = snd (add_edge src name (snd (add_battery b d2))) \<and>
       ofold (\<lambda>cn d. obind (link_edge name cn d) (attach_child vt (clock 1) name cn)) kid_names d4 = Inr d5 \<and>
       start_policy (clock 2) (clock 3) name d5 = Inr d')"
proof -
  let ?b = "\<lambda>ss. as_dev Splitter_dev (new_BALSplitter name src kid_names scales (policy_of_int policy) staleness ss (clock 0))"
  have b: "v2_name (?b ss) = name" "is_policy (?b ss)" for ss
    by (simp_all add: is_policy_def the_splitter_def new_BALSplitter_def new_v2_battery_def Let_def)
  show ?thesis
  proof (cases "\<not> name_exists name d \<and> name_exists src d \<and> length kid_names = length scales \<and>
      length kid_names = length sts \<and> (\<forall>cn \<in> set kid_names. \<not> name_exists cn d) \<and> scales_accepted scales")
    case True
    then have "src \<noteq> name" by auto
    note link [simp] = link_edge_other [OF this]
    obtain ks d1 where mk: "make_children (zip kid_names sts) d = (ks, d1)" by fastforce
    with assms True obtain ss d2 where vt: "bat_get_status vt src d1 = Inr (ss, d2)"
      by (auto simp: make_splitter_def)
    obtain p d3 where add: "add_battery (?b ss) d2 = (p, d3)" by fastforce
    with assms True mk vt obtain d5 where
        at: "ofold (\<lambda>cn d. obind (link_edge name cn d) (attach_child vt (clock 1) name cn)) kid_names (snd (add_edge src name d3)) = Inr d5"
      by (auto simp: make_splitter_def)
    then have "p \<noteq> None" "start_policy (clock 2) (clock 3) name d5 = Inr d'" "kids = ks"
      using assms True mk vt add by (auto simp: make_splitter_def split: option.splits)
    with True mk vt add at b show ?thesis
      by (intro disjI2 conjI exI [of _ d1] exI [of _ ss] exI [of _ d2] exI [of _ "?b ss"]
          exI [of _ "snd (add_edge src name d3)"] exI [of _ d5]) simp_all
  next
    case False
    then have "make_splitter vt clock name src kid_names scales sts policy staleness d = Inr ([], d)"
      unfolding make_splitter_def by (auto simp del: obind.simps)
    with assms show ?thesis by simp
  qed
qed

text \<open>
  C35: a splitter that is made is a subtree of the graph: the policy hangs below its source and nothing
  else, its children are the requested ones in their order, each attached to it, the graph stays
  consistent and has no other new battery; a splitter that is refused leaves the directory alone.
\<close>

theorem make_splitter_builds_tree:
  assumes "v2_dir_inv d" and "keeps_graph vt"
    and "make_splitter vt clock name src kid_names scales sts policy staleness d = Inr (kids, d')"
  shows "if kids = [] then d' = d
    else scales_accepted scales \<and> length kids = length kid_names \<and>
      policy_tree name src kid_names ({k. name_exists k d} \<union> set kid_names \<union> {name}) d'"
proof -
  consider "kids = []" "d' = d"
    | d1 ss d2 b d4 d5 where "\<not> name_exists name d" "name_exists src d" "length sts = length kid_names"
        "\<forall>cn \<in> set kid_names. \<not> name_exists cn d" "scales_accepted scales" "length scales = length kid_names"
        "make_children (zip kid_names sts) d = (kids, d1)" "bat_get_status vt src d1 = Inr (ss, d2)"
        "v2_name b = name" "is_policy b" "fst (add_battery b d2) \<noteq> None"
        "d4 = snd (add_edge src name (snd (add_battery b d2)))"
        "ofold (\<lambda>cn d. obind (link_edge name cn d) (attach_child vt (clock 1) name cn)) kid_names d4 = Inr d5"
        "start_policy (clock 2) (clock 3) name d5 = Inr d'"
    using make_splitter_cases [OF assms(3)] by blast
  then show ?thesis
  proof cases
    case 2
    have zip: "fst ` set (zip kid_names sts) = set kid_names" using 2(3) by (metis list.set_map map_fst_zip)
    have kids: "entered fresh_child (set kid_names) d d1" "length kids = length kid_names"
      using make_children_entered [OF assms(1) _ 2(7)] 2(3,4) zip by simp_all
    note g = bat_get_status_graph [OF assms(2) 2(8)]
    have inv: "v2_dir_inv d2" using same_graph_inv [OF g] kids(1) by (simp add: entered_def)
    have ex: "name_exists k d2 \<longleftrightarrow> k \<in> set kid_names \<or> name_exists k d" for k
      using same_graph_exists [OF g] entered_exists [OF kids(1)] by simp
    have new: "\<not> name_exists name d2" using 2(9,11) add_battery_taken [of b d2] by auto
    have "policy_tree name src [] (insert name {k. name_exists k d2}) d4"
      unfolding 2(12) using splitter_entered [OF inv new _ 2(9,10)] ex 2(2) by simp
    from attach_loop_tree [OF assms(2) this _ _ 2(13)] new ex
    have tree: "policy_tree name src kid_names (insert name {k. name_exists k d2}) d5" by auto
    then obtain p where p: "get_battery name d5 = Some p" by (auto simp: policy_tree_def)
    have d': "d' = put_battery name (snd (start_background_refresh (clock 2) (clock 3) p)) d5"
      using 2(14) p by (simp add: start_policy_def)
    have "same_graph (attaching name) d5 d'"
      unfolding d' by (rule same_graph_put [OF p]) (auto simp: start_background_refresh_def attaching_def shape_kept_def)
    note tree_done = policy_tree_same_graph [OF this tree]
    have "insert name {k. name_exists k d2} = {k. name_exists k d} \<union> set kid_names \<union> {name}"
      using ex by auto
    with tree_done have "policy_tree name src kid_names ({k. name_exists k d} \<union> set kid_names \<union> {name}) d'"
      by simp
    moreover have "kids \<noteq> []" using kids(2) 2(5,6) by auto
    ultimately show ?thesis using 2(5) kids(2) by simp
  qed simp
qed

text \<open>Virtual functions that answer from the stored status, and a directory with one battery.\<close>

definition still_calls :: v2_virtual where
  "still_calls =
    \<lparr>virt_get_status = (\<lambda>name d. case get_battery name d of None \<Rightarrow> Inl Null_deref | Some b \<Rightarrow> Inr (v2_bstatus b, d)),
     virt_schedule = (\<lambda>name target gt w u d. Inr (0, d))\<rparr>"

definition one_battery :: bos_dir where
  "one_battery = snd (make_pseudo ''s'' sample_v2_status 1000 new_BOSDirectory)"

lemma still_calls_keep: "keeps_graph still_calls"
  using same_graph_refl by (auto simp: keeps_graph_def still_calls_def split: option.splits)

lemma one_battery_inv: "v2_dir_inv one_battery"
proof -
  have "\<not> name_exists ''s'' (new_BOSDirectory :: bos_dir)"
    by (simp add: name_exists_def new_BOSDirectory_def has_key_def)
  then have "one_battery = snd (add_battery (as_dev (\<lambda>_. Pseudo_dev) (new_PseudoBattery_v2 ''s'' sample_v2_status 1000)) new_BOSDirectory)"
    by (simp add: one_battery_def make_pseudo_def)
  then show ?thesis by (rule ssubst) (rule dir_step_inv [OF step_add new_directory_inv])
qed

abbreviation sample_split :: "(string option list \<times> bos_dir) outcome" where
  "sample_split \<equiv> make_splitter still_calls (\<lambda>i. int i) ''p'' ''s'' [''a'', ''b''] [scale_of (1 / 4), scale_of (3 / 4)]
     [1000, 1000] 0 1000 one_battery"

lemma sample_split_made: "case sample_split of Inl _ \<Rightarrow> False | Inr (kids, _) \<Rightarrow> kids = [Some ''a'', Some ''b'']"
  by code_simp

theorem make_splitter_builds_tree_witness:
  "\<exists>kids d'. sample_split = Inr (kids, d') \<and> get_children ''p'' d' = [''a'', ''b''] \<and> get_parents ''p'' d' = [''s'']"
proof -
  obtain kids d' where run: "sample_split = Inr (kids, d')" "kids \<noteq> []"
    using sample_split_made by (auto split: sum.splits)
  from make_splitter_builds_tree [OF one_battery_inv still_calls_keep run(1)] run show ?thesis
    by (auto simp: policy_tree_def)
qed

text \<open>
  A splitter that is to share its name with one of its own children never returns once its request
  is otherwise in order: the children are entered, the policy is not, and the edge from its name to
  the child of that name locks one mutex twice.
\<close>

theorem splitter_named_as_child_faults:
  assumes "v2_dir_inv d" and "keeps_graph vt" and "name \<in> set kid_names"
    and "\<not> name_exists name d" and "name_exists src d" and "\<forall>cn \<in> set kid_names. \<not> name_exists cn d"
    and "length scales = length kid_names" and "length sts = length kid_names" and "scales_accepted scales"
  shows "\<exists>f. make_splitter vt clock name src kid_names scales sts policy staleness d = Inl f"
proof (rule ccontr)
  assume "\<nexists>f. make_splitter vt clock name src kid_names scales sts policy staleness d = Inl f"
  then obtain kids d' where run: "make_splitter vt clock name src kid_names scales sts policy staleness d = Inr (kids, d')"
    by (metis obj_sumE surj_pair)
  have zip: "fst ` set (zip kid_names sts) = set kid_names" using assms(8) by (metis list.set_map map_fst_zip)
  obtain ks d1 where mk: "make_children (zip kid_names sts) d = (ks, d1)" by fastforce
  have kids: "entered fresh_child (set kid_names) d d1" "length ks = length kid_names"
    using make_children_entered [OF assms(1) _ mk] assms(6,8) zip by simp_all
  then have "ks \<noteq> []" using assms(3) by auto
  moreover have "kids = ks"
    using run assms(3-9) mk by (auto simp: make_splitter_def Let_def case_prod_beta split: option.splits)
  ultimately obtain ss d2 b where vt: "bat_get_status vt src d1 = Inr (ss, d2)" and "v2_name b = name" "fst (add_battery b d2) \<noteq> None"
    using make_splitter_cases [OF run] mk by auto
  moreover have "name_exists name d2"
    using same_graph_exists [OF bat_get_status_graph [OF assms(2) vt]] entered_exists [OF kids(1)] assms(3) by simp
  ultimately show False using add_battery_taken [of b d2] by simp
qed

theorem splitter_named_as_child_faults_witness:
  "\<exists>f. make_splitter still_calls (\<lambda>i. int i) ''a'' ''s'' [''a''] [scale_of 1] [1000] 0 1000 one_battery = Inl f"
proof -
  have "\<not> name_exists ''a'' one_battery" "name_exists ''s'' one_battery" "scales_accepted [scale_of 1]"
    by code_simp+
  then show ?thesis
    using splitter_named_as_child_faults [OF one_battery_inv still_calls_keep, of "''a''" "[''a'']" "''s''" "[scale_of 1]" "[1000]"]
    by simp
qed

section \<open>Aggregates of any names\<close>

lemma add_edges_to:
  assumes "v2_dir_inv d" and "name_exists name d" and "name \<notin> set srcs"
  shows "\<exists>d'. ofold (\<lambda>src. link_edge src name) srcs d = Inr d' \<and> v2_dir_inv d' \<and> (\<forall>k. get_battery k d' = get_battery k d) \<and>
    (\<forall>k. get_parents k d' = get_parents k d @ (if k = name then filter (\<lambda>s. name_exists s d) srcs else []))"
  using assms
proof (induction srcs arbitrary: d)
  case (Cons s srcs)
  let ?d = "snd (add_edge s name d)"
  have "v2_dir_inv ?d" "name_exists name ?d" using Cons.prems by (simp_all add: add_edge_inv)
  from Cons.IH [OF this] Cons.prems show ?case by (auto simp: add_edge_neighbours)
qed simp

lemma self_edge_blocks:
  assumes "get_battery name d = Some b" and "is_virtual (v2_device b)" and "name \<in> set srcs"
  shows "ofold (\<lambda>src. link_edge src name) srcs d = Inl Deadlock"
  using assms
proof (induction srcs arbitrary: d)
  case (Cons s srcs)
  then show ?case by (cases "s = name") (auto simp: link_edge_def)
qed simp

lemma sum_of_fakes:
  "sum_cap_mAh (fold add_source (replicate n (fake_source_status ts)) acc) = sum_cap_mAh acc + 20000 * int n"
  "sum_max_cap_mAh (fold add_source (replicate n (fake_source_status ts)) acc) = sum_max_cap_mAh acc + 40000 * int n"
  by (induction n arbitrary: acc) (simp_all add: add_source_def fake_source_status_def algebra_simps del: fold_replicate)

text \<open>
  An aggregate is made under every free name whatever its other sources: it reports 20000 mAh of charge
  for each requested source, also for those that do not exist, and only the existing ones become its
  parents. The directory stays consistent.
\<close>

theorem aggregate_status_is_invented:
  assumes "v2_dir_inv d" and "\<not> name_exists name d" and "name \<notin> set src_names"
  shows "\<exists>d' b. make_aggregator ts name voltage tolerance src_names staleness d = Inr (Some name, d') \<and> v2_dir_inv d' \<and>
    get_battery name d' = Some b \<and> v2_capacity_mAh (v2_bstatus b) = 20000 * int (length src_names) \<and>
    v2_max_capacity_mAh (v2_bstatus b) = 40000 * int (length src_names) \<and>
    get_parents name d' = filter (\<lambda>s. name_exists s d) src_names"
proof -
  define b where "b = as_dev Aggregate_dev (new_AggregatorBattery name voltage tolerance
      (replicate (length src_names) (fake_source_status ts)) staleness)"
  obtain r d1 where add: "add_battery b d = (r, d1)" by fastforce
  have "v2_name b = name" by (simp add: b_def)
  note f = add_battery_fresh [OF assms(1) _ add, unfolded this, OF assms(2)]
  have ex: "name_exists k d1 \<longleftrightarrow> k = name \<or> name_exists k d" for k by (simp add: get_battery_exists f(3))
  have kept: "filter (\<lambda>s. name_exists s d1) src_names = filter (\<lambda>s. name_exists s d) src_names"
    using assms(3) by (intro filter_cong) (auto simp: ex)
  have st: "v2_capacity_mAh (v2_bstatus b) = 20000 * int (length src_names)"
    "v2_max_capacity_mAh (v2_bstatus b) = 40000 * int (length src_names)"
    by (simp_all add: b_def new_AggregatorBattery_def Let_def sum_of_fakes no_sums_def del: fold_replicate)
  show ?thesis
    using add f(1,3) st assms(2) kept add_edges_to [OF f(2), of name src_names] assms(3) no_neighbours(2) [OF assms(1,2)]
    by (auto simp: make_aggregator_def b_def [symmetric] ex f(5))
qed

theorem aggregate_status_is_invented_witness:
  "\<exists>d' b. make_aggregator (v2_timestamp zero_status) ''g'' 3000 10 [''nobody''] 1000 one_battery = Inr (Some ''g'', d') \<and>
     get_battery ''g'' d' = Some b \<and> v2_capacity_mAh (v2_bstatus b) = 20000 \<and> get_parents ''g'' d' = []"
proof -
  have "\<not> name_exists ''g'' one_battery" "\<not> name_exists ''nobody'' one_battery" by code_simp+
  then show ?thesis
    using aggregate_status_is_invented [OF one_battery_inv, of "''g''" "[''nobody'']" "v2_timestamp zero_status" 3000 10 1000]
    by auto
qed

text \<open>
  An aggregate that names itself among its sources is entered into the directory and then never
  answered: the edge from it to itself waits for the mutex it already holds.
\<close>

theorem aggregate_of_itself_blocks:
  assumes "v2_dir_inv d" and "\<not> name_exists name d" and "name \<in> set src_names"
  shows "make_aggregator ts name voltage tolerance src_names staleness d = Inl Deadlock"
proof -
  define b where "b = as_dev Aggregate_dev (new_AggregatorBattery name voltage tolerance
      (replicate (length src_names) (fake_source_status ts)) staleness)"
  obtain r d1 where add: "add_battery b d = (r, d1)" by fastforce
  have "v2_name b = name" by (simp add: b_def)
  note f = add_battery_fresh [OF assms(1) _ add, unfolded this, OF assms(2)]
  have "is_virtual (v2_device b)" by (simp add: b_def is_virtual_def)
  then have "ofold (\<lambda>src. link_edge src name) src_names d1 = Inl Deadlock"
    using f(3) assms(3) by (intro self_edge_blocks) simp_all
  with add assms(2) show ?thesis by (simp add: make_aggregator_def b_def [symmetric])
qed

theorem aggregate_of_itself_blocks_witness:
  "make_aggregator (v2_timestamp zero_status) ''g'' 3000 10 [''s'', ''g''] 1000 one_battery = Inl Deadlock"
proof -
  have "\<not> name_exists ''g'' one_battery" by code_simp
  then show ?thesis using one_battery_inv by (intro aggregate_of_itself_blocks) simp_all
qed

end
