(* ===== verification/V2_Server.thy ===== *)
theory V2_Server
  imports V2_Factory
begin

text \<open>
  The server of BatteryOS-V2: its messages (\<open>ProtobufMsg.hpp\<close>, \<open>ProtobufMsg.cpp\<close>), the FIFO and socket
  loops of \<open>BOS.cpp\<close> and the client \<open>Remote.hpp\<close>. Messages are the parsed ones; the bytes of protobuf
  are outside the sources. The answers of the operating system are arguments.
\<close>

section \<open>Messages\<close>

record pb_status =
  pbs_timestamp :: CTimestamp
  pbs_voltage_mv :: int
  pbs_current_ma :: int
  pbs_remaining_charge_mah :: int
  pbs_full_charge_capacity_mah :: int
  pbs_max_charging_current_ma :: int
  pbs_max_discharging_current_ma :: int

record pb_scale =
  pbc_remaining_charge :: real
  pbc_full_charge_capacity :: real
  pbc_max_discharge :: real
  pbc_max_charge :: real

definition serialize_ctime :: "CTimestamp \<Rightarrow> CTimestamp" where
  "serialize_ctime ts = \<lparr>secs_since_epoch = secs_since_epoch ts, msec = msec ts\<rparr>"

definition deserialize_ctime :: "CTimestamp \<Rightarrow> CTimestamp" where
  "deserialize_ctime msg = \<lparr>secs_since_epoch = secs_since_epoch msg, msec = msec msg\<rparr>"

definition serialize_status :: "v2_status \<Rightarrow> pb_status" where
  "serialize_status st =
    \<lparr>pbs_timestamp = serialize_ctime (v2_timestamp st), pbs_voltage_mv = v2_voltage_mV st,
     pbs_current_ma = v2_current_mA st, pbs_remaining_charge_mah = v2_capacity_mAh st,
     pbs_full_charge_capacity_mah = v2_max_capacity_mAh st,
     pbs_max_charging_current_ma = v2_max_charging_current_mA st,
     pbs_max_discharging_current_ma = v2_max_discharging_current_mA st\<rparr>"

definition deserialize_status :: "pb_status \<Rightarrow> v2_status" where
  "deserialize_status msg =
    \<lparr>v2_voltage_mV = pbs_voltage_mv msg, v2_current_mA = pbs_current_ma msg,
     v2_capacity_mAh = pbs_remaining_charge_mah msg, v2_max_capacity_mAh = pbs_full_charge_capacity_mah msg,
     v2_max_charging_current_mA = pbs_max_charging_current_ma msg,
     v2_max_discharging_current_mA = pbs_max_discharging_current_ma msg,
     v2_timestamp = deserialize_ctime (pbs_timestamp msg)\<rparr>"

definition serialize_scale :: "v2_scale \<Rightarrow> pb_scale" where
  "serialize_scale sc =
    \<lparr>pbc_remaining_charge = sc_capacity sc, pbc_full_charge_capacity = sc_max_capacity sc,
     pbc_max_discharge = sc_max_discharge_rate sc, pbc_max_charge = sc_max_charge_rate sc\<rparr>"

text \<open>The last assignment goes to the wrong field.\<close>

definition deserialize_scale :: "v2_scale \<Rightarrow> pb_scale \<Rightarrow> v2_scale" where
  "deserialize_scale sc msg =
    (let sc1 = sc\<lparr>sc_capacity := pbc_remaining_charge msg\<rparr>;
         sc2 = sc1\<lparr>sc_max_capacity := pbc_full_charge_capacity msg\<rparr>;
         sc3 = sc2\<lparr>sc_max_charge_rate := pbc_max_charge msg\<rparr>
     in sc3\<lparr>sc_max_capacity := pbc_max_discharge msg\<rparr>)"

datatype v2_call =
    Get_info_call
  | Get_status_call
  | Schedule_call int CTimestamp CTimestamp
  | Call_not_set

record v2_battery_msg =
  msg_name :: string
  msg_call :: v2_call

datatype v2_retval = Ret_status pb_status | Ret_set_current int | Ret_fail string | Ret_not_set

record v2_resp =
  resp_retcode :: int
  resp_retval :: v2_retval

datatype v2_admin_msg =
    Make_null string int int
  | Make_pseudo string pb_status int
  | Make_JBDBMS string string string int
  | Make_networked string string string int int
  | Make_aggregator string int int "string list" int
  | Make_splitter string string "string list" "pb_scale list" "int list" int int
  | Make_dynamic string string int string string string string string
  | Remove_battery string
  | List_battery
  | Get_battery_info string
  | Shutdown
  | Admin_not_set

datatype admin_retval = Success int | Failreason string | Retval_not_set

record admin_resp =
  ar_retcode :: int
  ar_retval :: admin_retval

section \<open>Requests to a battery\<close>

definition handle_battery_msg ::
  "v2_virtual \<Rightarrow> string \<Rightarrow> v2_battery_msg \<Rightarrow> bos_dir \<Rightarrow> (v2_resp \<times> bos_dir) outcome" where
  "handle_battery_msg vt bat msg d =
    (case msg_call msg of
       Schedule_call target when_to_set until_when \<Rightarrow>
         obind (bat_schedule vt bat target False
             (c_time_to_timepoint (deserialize_ctime when_to_set))
             (c_time_to_timepoint (deserialize_ctime until_when)) d)
           (\<lambda>(ret, d'). Inr (\<lparr>resp_retcode = 0, resp_retval = Ret_set_current (uint ret)\<rparr>, d'))
     | Call_not_set \<Rightarrow> Inr (\<lparr>resp_retcode = - 1, resp_retval = Ret_fail ''Function type not set!''\<rparr>, d)
     | _ \<Rightarrow>
         obind (bat_get_status vt bat d)
           (\<lambda>(status, d'). Inr (\<lparr>resp_retcode = 0, resp_retval = Ret_status (serialize_status status)\<rparr>, d')))"

section \<open>The server\<close>

record bos_state =
  bos_directory :: bos_dir
  bos_libs :: loaded_libs
  admin_fifo_ifd :: int
  battery_ifds :: "(string \<times> int) list"
  sock_open :: bool
  bos_should_quit :: bool
  bos_quitted :: bool

record bos_env =
  env_vt :: v2_virtual
  env_clock :: "nat \<Rightarrow> nanos"
  env_time_c :: CTimestamp
  env_linker :: dynamic_linker
  env_junk_type :: v2_type
  env_dirpath :: string
  env_ensure_dir :: int
  env_mkfifo :: "string \<Rightarrow> int"
  env_open :: "string \<Rightarrow> int"

definition new_BatteryOS :: bos_state where
  "new_BatteryOS =
    \<lparr>bos_directory = new_BOSDirectory, bos_libs = \<lparr>loaded_dynamic_libs = [], closed_handles = []\<rparr>,
     admin_fifo_ifd = - 1, battery_ifds = [], sock_open = False, bos_should_quit = False, bos_quitted = False\<rparr>"

definition notify_should_quit :: "bos_state \<Rightarrow> bos_state" where
  "notify_should_quit s = s\<lparr>bos_should_quit := True, sock_open := False\<rparr>"

definition set_ifd :: "string \<Rightarrow> int \<Rightarrow> bos_state \<Rightarrow> bos_state" where
  "set_ifd name fd s =
     s\<lparr>battery_ifds := map_update name (\<lambda>_. fd) (map_insert (<) name 0 (battery_ifds s))\<rparr>"

definition single_battery_fifo_init :: "bos_env \<Rightarrow> string \<Rightarrow> bos_state \<Rightarrow> int \<times> bos_state" where
  "single_battery_fifo_init env name s =
    (let fifo_path = env_dirpath env @ name @ ''_input'' in
     if env_mkfifo env fifo_path < 0 then (- 1, s)
     else
       (let ifd = env_open env fifo_path in
        if ifd < 0 then (- 2, s)
        else
          (let s1 = set_ifd name ifd s in
           if env_mkfifo env (env_dirpath env @ name @ ''_output'') < 0 then (- 1, s1) else (0, s1))))"

definition admin_fifo_init :: "bos_env \<Rightarrow> bos_state \<Rightarrow> int \<times> bos_state" where
  "admin_fifo_init env s =
    (if env_ensure_dir env < 0 then (- 3, s)
     else
       (let path = env_dirpath env @ ''admin'' @ ''_input'' in
        if env_mkfifo env path < 0 then (- 1, s)
        else
          (let ifd = env_open env path in
           if ifd < 0 then (- 2, s)
           else
             (let s1 = s\<lparr>admin_fifo_ifd := ifd\<rparr> in
              if env_mkfifo env (env_dirpath env @ ''admin'' @ ''_output'') < 0 then (- 1, s1) else (0, s1)))))"

primrec init_fifos :: "bos_env \<Rightarrow> string list \<Rightarrow> bos_state \<Rightarrow> int \<times> bos_state" where
  "init_fifos env [] s = (0, s)"
| "init_fifos env (n # ns) s =
    (let (r, s1) = single_battery_fifo_init env n s in if r < 0 then (- 1, s1) else init_fifos env ns s1)"

definition battery_fifo_init :: "bos_env \<Rightarrow> bos_state \<Rightarrow> int \<times> bos_state" where
  "battery_fifo_init env s =
    (let name_list = get_name_list (bos_directory s) in
     if env_ensure_dir env < 0 then (- 3, s) else init_fifos env name_list s)"

definition battery_post_creation :: "bos_env \<Rightarrow> string \<Rightarrow> bos_state \<Rightarrow> bos_state" where
  "battery_post_creation env name s = snd (single_battery_fifo_init env name s)"

section \<open>Administration\<close>

definition creation_reply :: "bos_env \<Rightarrow> string \<Rightarrow> string option \<Rightarrow> bos_state \<Rightarrow> admin_resp \<times> bos_state" where
  "creation_reply env name bat s =
    (case bat of
       None \<Rightarrow> (\<lparr>ar_retcode = - 1, ar_retval = Failreason ''failed to create battery''\<rparr>, s)
     | Some _ \<Rightarrow> (\<lparr>ar_retcode = 0, ar_retval = Success 1\<rparr>, battery_post_creation env name s))"

definition int32 :: "int \<Rightarrow> int" where
  "int32 k = sint (word_of_int k :: 32 word)"

definition splitter_msg ::
  "bos_env \<Rightarrow> string \<Rightarrow> string \<Rightarrow> string list \<Rightarrow> pb_scale list \<Rightarrow> int list \<Rightarrow> int \<Rightarrow> int \<Rightarrow> bos_state \<Rightarrow>
   (admin_resp \<times> bos_state) outcome" where
  "splitter_msg env name src kid_names scales sts policy staleness s =
    (if \<not> (length kid_names = length scales \<and> length scales = length sts) then
       Inr (\<lparr>ar_retcode = - 2, ar_retval = Failreason
         ''number of children is not equal to the number of scales or the number of max_staleness''\<rparr>, s)
     else
       obind (make_splitter (env_vt env) (env_clock env) name src kid_names
           (map (deserialize_scale (scale_of 0)) scales) sts (int32 policy) staleness (bos_directory s))
         (\<lambda>(bat, d'). let s1 = s\<lparr>bos_directory := d'\<rparr> in
            if bat = [] then
              Inr (\<lparr>ar_retcode = - 1, ar_retval = Failreason ''failed to create partitioner''\<rparr>, s1)
            else
              Inr (\<lparr>ar_retcode = 0, ar_retval = Success 1\<rparr>, fold (battery_post_creation env) kid_names s1)))"

definition created :: "bos_env \<Rightarrow> string \<Rightarrow> bos_state \<Rightarrow> string option \<times> bos_dir \<Rightarrow> admin_resp \<times> bos_state" where
  "created env name s r = (case r of (bat, d') \<Rightarrow> creation_reply env name bat (s\<lparr>bos_directory := d'\<rparr>))"

fun handle_admin_msg :: "bos_env \<Rightarrow> v2_admin_msg \<Rightarrow> bos_state \<Rightarrow> (admin_resp \<times> bos_state) outcome" where
  "handle_admin_msg env (Make_null name voltage staleness) s =
     Inr (created env name s (make_null name voltage staleness (bos_directory s)))"
| "handle_admin_msg env (Make_pseudo name status staleness) s =
     Inr (created env name s (make_pseudo name (deserialize_status status) staleness (bos_directory s)))"
| "handle_admin_msg env (Make_JBDBMS name device regulator staleness) s =
     obind (make_JBDBMS name device regulator staleness (bos_directory s)) (\<lambda>r. Inr (created env name s r))"
| "handle_admin_msg env (Make_networked name remote_name address port staleness) s =
     Inr (created env name s (make_networked_battery name remote_name address (int32 port) staleness (bos_directory s)))"
| "handle_admin_msg env (Make_aggregator name voltage tolerance src_names staleness) s =
     obind (make_aggregator (env_time_c env) name voltage tolerance src_names staleness (bos_directory s))
       (\<lambda>r. Inr (created env name s r))"
| "handle_admin_msg env (Make_splitter name src kid_names scales sts policy staleness) s =
     splitter_msg env name src kid_names scales sts policy staleness s"
| "handle_admin_msg env (Make_dynamic name lib_path staleness init_f destruct_f get_status_f set_current_f get_delay_f) s =
     (case make_dynamic (env_linker env) (env_junk_type env) name lib_path staleness init_f destruct_f get_status_f
         set_current_f get_delay_f (bos_directory s) (bos_libs s) of
        (r, d', libs') \<Rightarrow> Inr (created env name (s\<lparr>bos_libs := libs'\<rparr>) (r, d')))"
| "handle_admin_msg env (Remove_battery name) s =
     obind (manager_remove_battery name (bos_directory s))
       (\<lambda>(retcode, d'). Inr (\<lparr>ar_retcode = retcode, ar_retval = Success 1\<rparr>, s\<lparr>bos_directory := d'\<rparr>))"
| "handle_admin_msg env List_battery s =
     Inr (\<lparr>ar_retcode = - 2, ar_retval = Failreason ''Function not supported!''\<rparr>, s)"
| "handle_admin_msg env (Get_battery_info name) s =
     Inr (\<lparr>ar_retcode = - 2, ar_retval = Failreason ''Function not supported!''\<rparr>, s)"
| "handle_admin_msg env Shutdown s =
     Inr (\<lparr>ar_retcode = 0, ar_retval = Success 1\<rparr>, notify_should_quit s)"
| "handle_admin_msg env Admin_not_set s =
     Inr (\<lparr>ar_retcode = - 1, ar_retval = Failreason ''Function type not set!''\<rparr>, s)"

section \<open>The FIFO loop\<close>

text \<open>
  A message that does not parse is handled as the empty one. After the answer the input is opened
  again; an answer that cannot be written is only reported.
\<close>

definition handle_battery ::
  "bos_env \<Rightarrow> string \<Rightarrow> v2_battery_msg option \<Rightarrow> bos_state \<Rightarrow> (int \<times> v2_resp option \<times> bos_state) outcome" where
  "handle_battery env name parsed s =
    (let msg = (case parsed of None \<Rightarrow> \<lparr>msg_name = [], msg_call = Call_not_set\<rparr> | Some m \<Rightarrow> m) in
     case get_battery name (bos_directory s) of
       None \<Rightarrow> Inr (- 1, None, s)
     | Some _ \<Rightarrow>
         obind (handle_battery_msg (env_vt env) name msg (bos_directory s)) (\<lambda>(resp, d').
           Inr (0, Some resp, set_ifd name (env_open env (env_dirpath env @ name @ ''_input'')) (s\<lparr>bos_directory := d'\<rparr>))))"

definition handle_admin ::
  "bos_env \<Rightarrow> v2_admin_msg option \<Rightarrow> bos_state \<Rightarrow> (admin_resp \<times> bos_state) outcome" where
  "handle_admin env parsed s =
    (let msg = (case parsed of None \<Rightarrow> Admin_not_set | Some m \<Rightarrow> m) in
     obind (handle_admin_msg env msg s) (\<lambda>(resp, s').
       Inr (resp, s'\<lparr>admin_fifo_ifd := env_open env (env_dirpath env @ ''admin'' @ ''_input'')\<rparr>)))"

text \<open>
  A turn of the loop: the files that have input, for each of them what parsing it gives, and the
  answers. The array of the poll has 1024 entries, one of them for the administrator.
\<close>

definition poll_turn ::
  "bos_env \<Rightarrow> (string \<Rightarrow> v2_battery_msg option option) \<Rightarrow> v2_admin_msg option option \<Rightarrow> bos_state \<Rightarrow>
   ((string \<times> v2_resp option) list \<times> admin_resp option \<times> bos_state) outcome" where
  "poll_turn env ready admin_ready s =
    (if 1024 < length (battery_ifds s) + 1 then Inl Bad_index
     else
       (let batteries_to_handle = filter (\<lambda>n. ready n \<noteq> None) (map fst (battery_ifds s)) in
        obind (ofold (\<lambda>bn (replies, s).
                  obind (handle_battery env bn (the (ready bn)) s) (\<lambda>(_, r, s'). Inr (replies @ [(bn, r)], s')))
                batteries_to_handle ([], s))
          (\<lambda>(replies, s1).
             case admin_ready of
               None \<Rightarrow> Inr (replies, None, s1)
             | Some parsed \<Rightarrow> obind (handle_admin env parsed s1) (\<lambda>(resp, s2). Inr (replies, Some resp, s2)))))"

definition shutdown_server :: "bos_state \<Rightarrow> bos_state" where
  "shutdown_server s =
     s\<lparr>bos_directory := v2_dir_quit (bos_directory s),
       bos_libs := (bos_libs s)\<lparr>closed_handles := closed_handles (bos_libs s) @ map snd (loaded_dynamic_libs (bos_libs s))\<rparr>,
       bos_should_quit := False, bos_quitted := True\<rparr>"

text \<open>
  The turns to come are a list, \<open>None\<close> a failed poll. The loop ends when it is told to or when a poll
  fails; the end of the list means that it has not ended.
\<close>

type_synonym poll_input = "(string \<Rightarrow> v2_battery_msg option option) \<times> v2_admin_msg option option"

primrec poll_fifos :: "bos_env \<Rightarrow> poll_input option list \<Rightarrow> bos_state \<Rightarrow> bos_state outcome" where
  "poll_fifos env [] s = (if bos_should_quit s then Inr s else Inl No_fuel)"
| "poll_fifos env (t # ts) s =
    (if bos_should_quit s then Inr s
     else
       (case t of
          None \<Rightarrow> Inr s
        | Some (ready, admin_ready) \<Rightarrow>
            obind (poll_turn env ready admin_ready s) (\<lambda>(_, _, s'). poll_fifos env ts s')))"

definition bootup_fifo :: "bos_env \<Rightarrow> poll_input option list \<Rightarrow> bos_state \<Rightarrow> bos_state outcome" where
  "bootup_fifo env turns s =
    (let (r1, s1) = admin_fifo_init env s; (r2, s2) = battery_fifo_init env s1 in
     if r1 < 0 \<or> r2 < 0 then Inr (shutdown_server s2)
     else obind (poll_fifos env turns s2) (\<lambda>s3. Inr (shutdown_server s3)))"

section \<open>The socket loop\<close>

text \<open>What a connection brings: a closed or meaningless start, or a tag and then a message or none.\<close>

datatype tcp_request =
    No_tag
  | Admin_tag "v2_admin_msg option"
  | Battery_tag "v2_battery_msg option"

datatype tcp_reply = No_reply | Admin_reply admin_resp | Battery_reply v2_resp

fun serve_connection :: "bos_env \<Rightarrow> tcp_request \<Rightarrow> bos_state \<Rightarrow> (tcp_reply \<times> bos_state) outcome" where
  "serve_connection env No_tag s = Inr (No_reply, s)"
| "serve_connection env (Admin_tag None) s = Inr (No_reply, s)"
| "serve_connection env (Admin_tag (Some msg)) s =
     obind (handle_admin_msg env msg s) (\<lambda>(resp, s'). Inr (Admin_reply resp, s'))"
| "serve_connection env (Battery_tag None) s = Inr (No_reply, s)"
| "serve_connection env (Battery_tag (Some msg)) s =
    (case get_battery (msg_name msg) (bos_directory s) of
       None \<Rightarrow> Inr (Battery_reply \<lparr>resp_retcode = - 1, resp_retval = Ret_fail ''no such battery''\<rparr>, s)
     | Some _ \<Rightarrow>
         obind (handle_battery_msg (env_vt env) (msg_name msg) msg (bos_directory s))
           (\<lambda>(resp, d'). Inr (Battery_reply resp, s\<lparr>bos_directory := d'\<rparr>)))"

text \<open>The connections to come; a failed \<open>accept\<close> is \<open>None\<close> and ends the process unless the server is told to quit.\<close>

primrec tcp_loop :: "bos_env \<Rightarrow> tcp_request option list \<Rightarrow> bos_state \<Rightarrow> (tcp_reply list \<times> bos_state) outcome" where
  "tcp_loop env [] s = Inl No_fuel"
| "tcp_loop env (c # cs) s =
    (if bos_should_quit s then Inr ([], shutdown_server s)
     else
       (case c of
          None \<Rightarrow> Inl Process_exit
        | Some req \<Rightarrow>
            obind (serve_connection env req s) (\<lambda>(reply, s').
            obind (tcp_loop env cs s') (\<lambda>(replies, s''). Inr (reply # replies, s'')))))"

section \<open>The client of the socket\<close>

text \<open>
  The outcomes of the calls a request makes: connecting, sending the tag, reading its echo, sending
  the message, reading the answer.
\<close>

record tcp_link =
  link_connect :: int
  link_tag_sent :: bool
  link_echo :: int
  link_msg_sent :: bool
  link_answer :: int

text \<open>The answer, if there is one; the server acts once the message is sent.\<close>

definition remote_exchange ::
  "tcp_link \<Rightarrow> ('s \<Rightarrow> (tcp_reply \<times> 's) outcome) \<Rightarrow> 's \<Rightarrow> (v2_resp option \<times> 's) outcome" where
  "remote_exchange link server s =
    (if link_connect link < 0 then Inr (None, s)
     else if \<not> link_tag_sent link then Inr (None, s)
     else if link_echo link \<le> 0 then Inr (None, s)
     else if \<not> link_msg_sent link then Inr (None, s)
     else
       obind (server s) (\<lambda>(reply, s').
         if link_answer link \<le> 0 then Inr (None, s')
         else (case reply of Battery_reply resp \<Rightarrow> Inr (Some resp, s') | _ \<Rightarrow> Inr (None, s'))))"

definition remote_battery_refresh ::
  "tcp_link \<Rightarrow> (tcp_request \<Rightarrow> 's \<Rightarrow> (tcp_reply \<times> 's) outcome) \<Rightarrow> string \<Rightarrow> 'b v2_battery \<Rightarrow> 's \<Rightarrow>
   (v2_status \<times> 'b v2_battery \<times> 's) outcome" where
  "remote_battery_refresh link server remote_name b s =
    (let msg = \<lparr>msg_name = remote_name, msg_call = Get_status_call\<rparr> in
     obind (remote_exchange link (server (Battery_tag (Some msg))) s) (\<lambda>(resp, s').
       case resp of
         None \<Rightarrow> Inr (zero_status, b, s')
       | Some r \<Rightarrow>
           (case resp_retval r of
              Ret_status stat \<Rightarrow>
                (let st = deserialize_status stat in Inr (st, b\<lparr>v2_bstatus := st\<rparr>, s'))
            | _ \<Rightarrow> Inr (zero_status, b, s'))))"

definition remote_battery_set_current :: "int \<Rightarrow> bool \<Rightarrow> nat \<Rightarrow> 'b v2_battery \<Rightarrow> bool \<times> 'b v2_battery" where
  "remote_battery_set_current target gt other b = (False, b)"

definition remote_battery_schedule ::
  "tcp_link \<Rightarrow> (tcp_request \<Rightarrow> 's \<Rightarrow> (tcp_reply \<times> 's) outcome) \<Rightarrow> string \<Rightarrow> int \<Rightarrow> bool \<Rightarrow> nanos \<Rightarrow> nanos \<Rightarrow> 's \<Rightarrow>
   (32 word \<times> 's) outcome" where
  "remote_battery_schedule link server remote_name target gt when_to_set until_when s =
    (let msg = \<lparr>msg_name = remote_name, msg_call = Schedule_call target
           (timepoint_to_c_time when_to_set) (timepoint_to_c_time until_when)\<rparr> in
     obind (remote_exchange link (server (Battery_tag (Some msg))) s) (\<lambda>(resp, s').
       case resp of
         None \<Rightarrow> Inr (0, s')
       | Some r \<Rightarrow>
           (case resp_retval r of
              Ret_set_current k \<Rightarrow> Inr (word_of_int k, s')
            | _ \<Rightarrow> Inr (0, s'))))"

section \<open>Messages of the administrator\<close>

lemma status_message_round_trip [simp]: "deserialize_status (serialize_status st) = st"
  by (simp add: deserialize_status_def serialize_status_def deserialize_ctime_def serialize_ctime_def)

lemma message_scales_refused: "\<not> scales_accepted (map (deserialize_scale (scale_of 0)) scs)"
proof (cases scs)
  case (Cons sc rest)
  have "is_zero (scale_plus (scale_of 0) (deserialize_scale (scale_of 0) sc))"
    by (simp add: scale_plus_cases total_from_def)
       (simp add: is_zero_def DBL_EQUAL_def deserialize_scale_def scale_of_def within_01_range_def Let_def)
  with Cons show ?thesis by (simp add: scales_accepted_def)
qed simp

lemma splitter_msg_refused:
  "\<exists>code reason. code < 0 \<and> splitter_msg env name src kid_names scales sts policy staleness s =
     Inr (\<lparr>ar_retcode = code, ar_retval = Failreason reason\<rparr>, s)"
  by (auto simp: splitter_msg_def make_splitter_def message_scales_refused)

text \<open>
  No message makes a splitter. The scale a message carries is read with one field assigned twice
  and the discharge rate not at all, so the sum of the scales is zero there and every request is
  refused with an error code, the server unchanged.
\<close>

theorem splitter_messages_refused:
  "\<exists>code reason. code < 0 \<and>
     handle_admin_msg env (Make_splitter name src kid_names scales sts policy staleness) s =
       Inr (\<lparr>ar_retcode = code, ar_retval = Failreason reason\<rparr>, s)"
  using splitter_msg_refused by simp

lemma remove_messages_aux:
  "handle_admin_msg env (Remove_battery name) s =
    (case get_battery name (bos_directory s) of
       Some b \<Rightarrow> if v2_btype b = V2_Splitted then Inr (\<lparr>ar_retcode = 0, ar_retval = Success 1\<rparr>, s) else Inl Process_exit
     | None \<Rightarrow> Inr (\<lparr>ar_retcode = 0, ar_retval = Success 1\<rparr>, s))"
  by (simp add: manager_remove_battery_def remove_battery_def split: option.splits)

text \<open>
  No message removes a battery. A request to remove a battery that exists and is not a child
  of a policy ends the process; every other one is answered with success and changes nothing.
\<close>

theorem remove_messages_never_remove:
  "handle_admin_msg env (Remove_battery name) s =
    (case get_battery name (bos_directory s) of
       Some b \<Rightarrow> if v2_btype b = V2_Splitted then Inr (\<lparr>ar_retcode = 0, ar_retval = Success 1\<rparr>, s) else Inl Process_exit
     | None \<Rightarrow> Inr (\<lparr>ar_retcode = 0, ar_retval = Success 1\<rparr>, s))"
  by (rule remove_messages_aux)

section \<open>The state of the server\<close>

text \<open>The directory is consistent, and every FIFO that is polled belongs to a battery.\<close>

definition server_inv :: "bos_state \<Rightarrow> bool" where
  "server_inv s \<longleftrightarrow> v2_dir_inv (bos_directory s) \<and> str.wf_map (battery_ifds s) \<and>
     (\<forall>k \<in> set (map fst (battery_ifds s)). name_exists k (bos_directory s))"

lemma wf_set_ifd: "str.wf_map (battery_ifds s) \<Longrightarrow> str.wf_map (battery_ifds (set_ifd name fd s))"
  by (simp add: set_ifd_def str.wf_map_insert)

lemma keys_set_ifd:
  assumes "str.wf_map (battery_ifds s)"
  shows "set (map fst (battery_ifds (set_ifd name fd s))) = insert name (set (map fst (battery_ifds s)))"
proof -
  have "k \<in> set (map fst (map_insert (<) name 0 (battery_ifds s))) \<longleftrightarrow> k = name \<or> k \<in> set (map fst (battery_ifds s))" for k
    using has_key_insert [OF assms, of k name 0]
    by (simp add: has_key_def map_of_eq_None_iff flip: not_None_eq)
  then show ?thesis by (auto simp: set_ifd_def)
qed

lemma set_ifd_frame [simp]:
  "bos_directory (set_ifd name fd s) = bos_directory s" "bos_should_quit (set_ifd name fd s) = bos_should_quit s"
  by (simp_all add: set_ifd_def)

lemma set_ifd_inv:
  assumes "server_inv s" and "name_exists name (bos_directory s)"
  shows "server_inv (set_ifd name fd s)"
proof -
  have wf: "str.wf_map (battery_ifds s)" using assms(1) by (simp add: server_inv_def)
  show ?thesis
    unfolding server_inv_def keys_set_ifd [OF wf] set_ifd_frame
    using assms wf_set_ifd [OF wf] by (simp add: server_inv_def)
qed

lemma fifo_init_inv:
  "server_inv s \<Longrightarrow> name_exists name (bos_directory s) \<Longrightarrow> server_inv (snd (single_battery_fifo_init env name s))"
  by (simp add: single_battery_fifo_init_def Let_def set_ifd_inv)

lemma fifo_init_frame [simp]:
  "bos_directory (snd (single_battery_fifo_init env name s)) = bos_directory s"
  "bos_should_quit (snd (single_battery_fifo_init env name s)) = bos_should_quit s"
  by (simp_all add: single_battery_fifo_init_def Let_def)

lemma post_creation_frame [simp]:
  "bos_directory (battery_post_creation env name s) = bos_directory s"
  "bos_should_quit (battery_post_creation env name s) = bos_should_quit s"
  by (simp_all add: battery_post_creation_def)

text \<open>A factory that grows the directory and reports the name it entered.\<close>

definition grows :: "string \<Rightarrow> bos_dir \<Rightarrow> string option \<times> bos_dir \<Rightarrow> bool" where
  "grows name d r \<longleftrightarrow> (case r of (bat, d') \<Rightarrow> v2_dir_inv d' \<and> (\<forall>k. name_exists k d \<longrightarrow> name_exists k d') \<and>
     (bat \<noteq> None \<longrightarrow> name_exists name d'))"

lemma add_battery_grows:
  assumes "v2_dir_inv d" and "v2_name b = name"
  shows "grows name d (add_battery b d)"
proof -
  have "v2_dir_inv (snd (add_battery b d))" using dir_step_inv [OF step_add assms(1)] .
  moreover have "name_exists k (snd (add_battery b d)) \<longleftrightarrow> k = name \<or> name_exists k d" for k
    using assms by (auto simp: add_battery_def Let_def name_exists_def has_key_insert v2_dir_inv_def)
  ultimately show ?thesis by (auto simp: grows_def case_prod_beta)
qed

lemma refused_grows: "v2_dir_inv d \<Longrightarrow> grows name d (None, d)"
  by (simp add: grows_def)

lemma factories_grow:
  assumes "v2_dir_inv d"
  shows "grows name d (make_null name v st d)" and "grows name d (make_pseudo name sta st d)"
    and "grows name d (make_networked_battery name r a p st d)"
    and "make_aggregator ts name v t srcs st d = Inr x \<Longrightarrow> grows name d x"
    and "make_JBDBMS name dev reg st d = Inr x \<Longrightarrow> grows name d x"
    and "make_dynamic dl ty name lib st f1 f2 f3 f4 f5 d libs = (bat, d', libs') \<Longrightarrow> grows name d (bat, d')"
proof -
  show "grows name d (make_null name v st d)" "grows name d (make_pseudo name sta st d)"
    "grows name d (make_networked_battery name r a p st d)"
    "make_JBDBMS name dev reg st d = Inr x \<Longrightarrow> grows name d x"
    using assms
    by (auto simp: make_null_def make_pseudo_def make_networked_battery_def make_JBDBMS_def new_JBDBMS_def
        refused_grows intro!: add_battery_grows split: if_splits)
  let ?b = "as_dev Aggregate_dev (new_AggregatorBattery name v t (replicate (length srcs) (fake_source_status ts)) st)"
  obtain r d1 where add: "add_battery ?b d = (r, d1)" by fastforce
  have g: "grows name d (r, d1)" using add_battery_grows [OF assms, of ?b name] add by simp
  show "grows name d x" if run: "make_aggregator ts name v t srcs st d = Inr x"
  proof (cases "name_exists name d")
    case False
    note f = add_battery_fresh [OF assms _ add, simplified, OF False]
    have "name \<notin> set srcs"
      using run False add f(3) [of name] self_edge_blocks [of name d1 ?b srcs]
      by (auto simp: make_aggregator_def is_virtual_def)
    moreover have "name_exists name d1" by (simp add: get_battery_exists f(3))
    ultimately show ?thesis
      using add_edges_to [of d1 name srcs] g False add run
      by (auto simp: make_aggregator_def grows_def get_battery_exists)
  qed (use run in \<open>auto simp: make_aggregator_def refused_grows assms\<close>)
  have "\<And>h i. grows name d (add_battery (new_v2_battery name ty st (Dynamic_dev h i)) d)"
    using assms by (simp add: add_battery_grows)
  then show "grows name d (bat, d')" if "make_dynamic dl ty name lib st f1 f2 f3 f4 f5 d libs = (bat, d', libs')"
    using that assms
    by (auto simp: make_dynamic_def Let_def refused_grows case_prod_beta split: option.splits if_splits)
qed

lemma created_inv:
  assumes "server_inv s" and "grows name (bos_directory s) r"
  shows "server_inv (snd (created env name s r))"
proof -
  obtain bat d' where r: "r = (bat, d')" by (cases r)
  have "server_inv (s\<lparr>bos_directory := d'\<rparr>)" using assms r by (auto simp: server_inv_def grows_def)
  then show ?thesis
    using assms(2) r
    by (auto simp: created_def creation_reply_def battery_post_creation_def grows_def fifo_init_inv split: option.splits)
qed

lemma admin_msg_inv:
  assumes "handle_admin_msg env msg s = Inr (resp, s')" and "server_inv s"
  shows "server_inv s'"
proof -
  have d: "v2_dir_inv (bos_directory s)" using assms(2) by (simp add: server_inv_def)
  note g = factories_grow [OF d] and c = created_inv [OF assms(2)]
  show ?thesis
  proof (cases msg)
    case (Make_splitter name src kid_names scales sts policy staleness)
    then show ?thesis
      using assms splitter_msg_refused [of env name src kid_names scales sts policy staleness s] by auto
  next
    case (Make_dynamic name lib st f1 f2 f3 f4 f5)
    obtain r d' libs' where mk: "make_dynamic (env_linker env) (env_junk_type env) name lib st f1 f2 f3 f4 f5
        (bos_directory s) (bos_libs s) = (r, d', libs')" by (metis prod_cases3)
    have "server_inv (s\<lparr>bos_libs := libs'\<rparr>)" using assms(2) by (simp add: server_inv_def)
    from created_inv [OF this, of name "(r, d')" env] g(6) [OF mk] mk assms(1) Make_dynamic
    show ?thesis by simp
  next
    case (Remove_battery name)
    then show ?thesis using assms remove_messages_aux [of env name s] by (auto split: option.splits if_splits)
  next
    case Shutdown
    then show ?thesis using assms by (clarsimp simp: notify_should_quit_def) (simp add: server_inv_def)
  next
    case (Make_null n v st)
    with assms(1) c [OF g(1) [of n v st], of env] show ?thesis by simp
  next
    case (Make_pseudo n v st)
    with assms(1) c [OF g(2) [of n "deserialize_status v" st], of env] show ?thesis by simp
  next
    case (Make_JBDBMS n v r st)
    with assms(1) obtain x where "make_JBDBMS n v r st (bos_directory s) = Inr x" "(resp, s') = created env n s x"
      by auto
    with c [OF g(5) [OF this(1)], of env] show ?thesis by (metis snd_conv)
  next
    case (Make_networked n r a p st)
    with assms(1) c [OF g(3) [of n r a "int32 p" st], of env] show ?thesis by simp
  next
    case (Make_aggregator n v t srcs st)
    with assms(1) obtain x where "make_aggregator (env_time_c env) n v t srcs st (bos_directory s) = Inr x"
        "(resp, s') = created env n s x"
      by auto
    with c [OF g(4) [OF this(1)], of env] show ?thesis by (metis snd_conv)
  qed (use assms in auto)
qed

lemma battery_msg_graph:
  assumes "keeps_graph vt" and "handle_battery_msg vt bat msg d = Inr (resp, d')"
  shows "same_graph shape_kept d d'"
proof -
  have "bat_schedule vt bat t g w u d = Inr (r, d') \<Longrightarrow> same_graph shape_kept d d'" for t g w u r
    using assms(1) by (auto simp: bat_schedule_def keeps_graph_def split: option.splits if_splits)
  then show ?thesis
    using assms(2) bat_get_status_graph [OF assms(1)] same_graph_refl
    by (auto simp: handle_battery_msg_def split: v2_call.splits)
qed

lemma same_graph_server:
  assumes "server_inv s" and "same_graph R (bos_directory s) d'"
  shows "server_inv (s\<lparr>bos_directory := d'\<rparr>)"
  using assms same_graph_inv [OF assms(2)] same_graph_exists [OF assms(2)] by (simp add: server_inv_def)

lemma connection_inv:
  assumes "keeps_graph (env_vt env)" and "serve_connection env req s = Inr (reply, s')" and "server_inv s"
  shows "server_inv s'"
proof (cases req)
  case (Admin_tag m)
  then show ?thesis using assms admin_msg_inv by (cases m) auto
next
  case (Battery_tag m)
  then show ?thesis
    using assms by (cases m)
      (auto intro: same_graph_server [OF assms(3) battery_msg_graph [OF assms(1)]] split: option.splits)
qed (use assms in simp)

lemma handle_battery_inv:
  assumes "keeps_graph (env_vt env)" and "server_inv s" and "name_exists name (bos_directory s)"
    and "handle_battery env name parsed s = Inr (code, r, s')"
  shows "server_inv s' \<and> r \<noteq> None \<and> code = 0 \<and> (\<forall>k. name_exists k (bos_directory s) \<longrightarrow> name_exists k (bos_directory s'))"
proof -
  obtain b where "get_battery name (bos_directory s) = Some b" using assms(3) by (auto simp: get_battery_exists)
  with assms(4) obtain resp d' msg where h: "handle_battery_msg (env_vt env) name msg (bos_directory s) = Inr (resp, d')"
      and r: "r = Some resp" "code = 0"
      and s': "s' = set_ifd name (env_open env (env_dirpath env @ name @ ''_input'')) (s\<lparr>bos_directory := d'\<rparr>)"
    by (auto simp: handle_battery_def Let_def)
  note g = battery_msg_graph [OF assms(1) h]
  have "server_inv s'"
    unfolding s' using same_graph_server [OF assms(2) g] assms(3) same_graph_exists [OF g] by (intro set_ifd_inv) simp_all
  with r same_graph_exists [OF g] show ?thesis by (simp add: s')
qed

text \<open>The batteries of a turn of the FIFO loop are handled one after the other, each with an answer.\<close>

lemma handle_all_inv:
  assumes "keeps_graph (env_vt env)"
    and "ofold (\<lambda>bn (replies, s). obind (handle_battery env bn (the (ready bn)) s) (\<lambda>(_, r, s'). Inr (replies @ [(bn, r)], s')))
           bns (replies, s) = Inr (replies', s')"
    and "server_inv s" and "\<forall>bn \<in> set bns. name_exists bn (bos_directory s)"
  shows "server_inv s' \<and> map fst replies' = map fst replies @ bns \<and>
    (\<forall>r \<in> set (drop (length replies) replies'). snd r \<noteq> None) \<and> take (length replies) replies' = replies"
  using assms(2-4)
proof (induction bns arbitrary: replies s)
  case (Cons bn bns)
  then obtain code r s1 where h: "handle_battery env bn (the (ready bn)) s = Inr (code, r, s1)"
      and rest: "ofold (\<lambda>bn (replies, s). obind (handle_battery env bn (the (ready bn)) s) (\<lambda>(_, r, s'). Inr (replies @ [(bn, r)], s')))
           bns (replies @ [(bn, r)], s1) = Inr (replies', s')"
    by auto
  have inv: "server_inv s1" "r \<noteq> None" "\<forall>k. name_exists k (bos_directory s) \<longrightarrow> name_exists k (bos_directory s1)"
    using handle_battery_inv [OF assms(1) Cons.prems(2) _ h] Cons.prems(3) by auto
  let ?n = "length replies"
  have ih: "server_inv s'" "map fst replies' = map fst replies @ bn # bns"
      "\<forall>r \<in> set (drop (Suc ?n) replies'). snd r \<noteq> None" "take (Suc ?n) replies' = replies @ [(bn, r)]"
    using Cons.IH [OF rest inv(1)] inv(3) Cons.prems(3) by auto
  have "drop ?n replies' = (bn, r) # drop (Suc ?n) replies'"
    using arg_cong [OF ih(4), of "drop ?n"] by (metis append_eq_conv_conj append_take_drop_id append_Cons append_Nil append.assoc ih(4))
  moreover have "take ?n replies' = replies"
    using arg_cong [OF ih(4), of "take ?n"] by simp
  ultimately show ?case using ih inv(2) by simp
qed simp

lemma poll_turn_inv:
  assumes "keeps_graph (env_vt env)" and "server_inv s" and "poll_turn env ready adm s = Inr (replies, resp, s')"
  shows "server_inv s'" and "map fst replies = filter (\<lambda>n. ready n \<noteq> None) (map fst (battery_ifds s))"
    and "\<forall>r \<in> set replies. snd r \<noteq> None"
proof -
  let ?bns = "filter (\<lambda>n. ready n \<noteq> None) (map fst (battery_ifds s))"
  obtain s1 where all: "ofold (\<lambda>bn (replies, s). obind (handle_battery env bn (the (ready bn)) s) (\<lambda>(_, r, s'). Inr (replies @ [(bn, r)], s')))
           ?bns ([], s) = Inr (replies, s1)"
      and adm: "s' = s1 \<or> (\<exists>parsed resp. handle_admin env parsed s1 = Inr (resp, s'))"
    using assms(3) by (fastforce simp: poll_turn_def Let_def split: if_splits option.splits)
  have ex: "\<forall>bn \<in> set ?bns. name_exists bn (bos_directory s)" using assms(2) by (auto simp: server_inv_def)
  note h = handle_all_inv [OF assms(1) all assms(2) ex]
  then show "map fst replies = ?bns" "\<forall>r \<in> set replies. snd r \<noteq> None" by simp_all
  have "server_inv s2 \<Longrightarrow> server_inv (s2\<lparr>admin_fifo_ifd := fd\<rparr>)" for s2 fd by (simp add: server_inv_def)
  then show "server_inv s'" using h adm by (auto simp: handle_admin_def Let_def dest: admin_msg_inv)
qed

inductive server_step :: "bos_env \<Rightarrow> bos_state \<Rightarrow> bos_state \<Rightarrow> bool" where
  step_connection: "serve_connection env req s = Inr (reply, s') \<Longrightarrow> server_step env s s'"
| step_poll: "poll_turn env ready adm s = Inr (replies, resp, s') \<Longrightarrow> server_step env s s'"
| step_admin_fifo: "server_step env s (snd (admin_fifo_init env s))"
| step_battery_fifos: "server_step env s (snd (battery_fifo_init env s))"
| step_shutdown: "server_step env s (shutdown_server s)"

inductive server_reachable :: "bos_env \<Rightarrow> bos_state \<Rightarrow> bool" for env where
  reach_boot: "server_reachable env new_BatteryOS"
| reach_server_step: "server_reachable env s \<Longrightarrow> server_step env s s' \<Longrightarrow> server_reachable env s'"

lemma init_fifos_inv:
  "server_inv s \<Longrightarrow> \<forall>n \<in> set ns. name_exists n (bos_directory s) \<Longrightarrow> server_inv (snd (init_fifos env ns s))"
proof (induction ns arbitrary: s)
  case (Cons n ns)
  from Cons.prems Cons.IH [of "snd (single_battery_fifo_init env n s)"] show ?case
    by (simp add: fifo_init_inv Let_def case_prod_beta)
qed simp

lemma quit_exists: "name_exists k (v2_dir_quit d) = name_exists k d"
  by (simp add: v2_dir_quit_def name_exists_def has_key_quit)

lemma server_step_inv:
  assumes "keeps_graph (env_vt env)" and "server_step env s s'" and "server_inv s"
  shows "server_inv s'"
  using assms(2)
proof cases
  case (step_connection req reply)
  then show ?thesis using connection_inv assms by blast
next
  case (step_poll ready adm replies resp)
  then show ?thesis using poll_turn_inv(1) assms by blast
next
  case step_admin_fifo
  have "server_inv (s\<lparr>admin_fifo_ifd := fd\<rparr>)" for fd using assms(3) by (simp add: server_inv_def)
  then show ?thesis using step_admin_fifo assms(3) by (simp add: admin_fifo_init_def Let_def)
next
  case step_battery_fifos
  have "\<forall>n \<in> set (get_name_list (bos_directory s)). name_exists n (bos_directory s)"
    using assms(3)
    by (auto simp: get_name_list_def server_inv_def v2_dir_inv_def name_exists_def has_key_def)
       (metis not_None_eq weak_map_of_SomeI)
  then show ?thesis using step_battery_fifos assms(3) by (simp add: battery_fifo_init_def init_fifos_inv)
next
  case step_shutdown
  have "v2_dir_inv (v2_dir_quit (bos_directory s))"
    using assms(3) by (intro dir_step_inv [OF step_quit]) (simp add: server_inv_def)
  then show ?thesis using step_shutdown assms(3) by (simp add: shutdown_server_def server_inv_def quit_exists)
qed

lemma server_reachable_inv:
  assumes "server_reachable env s" and "keeps_graph (env_vt env)"
  shows "server_inv s"
  using assms(1)
proof induction
  case reach_boot
  show ?case using new_directory_inv by (simp add: server_inv_def new_BatteryOS_def)
next
  case (reach_server_step s s')
  then show ?case using server_step_inv assms(2) by blast
qed

text \<open>
  C36: in every state the server reaches, over connections, FIFOs and shutdowns in any order, the graph
  of the directory is consistent and every FIFO that is polled belongs to a battery; a turn of the
  FIFO loop that returns has answered exactly the batteries that had input, each once and in the order
  of their names.
\<close>

theorem server_stays_consistent:
  assumes "server_reachable env s" and "keeps_graph (env_vt env)"
  shows "v2_dir_inv (bos_directory s) \<and>
    (\<forall>k \<in> set (map fst (battery_ifds s)). name_exists k (bos_directory s)) \<and>
    (\<forall>ready adm replies resp s'. poll_turn env ready adm s = Inr (replies, resp, s') \<longrightarrow>
       map fst replies = filter (\<lambda>n. ready n \<noteq> None) (map fst (battery_ifds s)) \<and>
       sorted_wrt (<) (map fst replies) \<and> (\<forall>r \<in> set replies. snd r \<noteq> None))"
proof -
  have inv: "server_inv s" by (rule server_reachable_inv [OF assms])
  then have "sorted_wrt (<) (filter (\<lambda>n. ready n \<noteq> None) (map fst (battery_ifds s)))" for ready
    by (intro filter_sorted_wrt) (simp add: server_inv_def str.wf_map_keys)
  then show ?thesis using inv poll_turn_inv(2,3) [OF assms(2) inv] by (auto simp: server_inv_def)
qed

definition v2_sample_env :: bos_env where
  "v2_sample_env =
    \<lparr>env_vt = still_calls, env_clock = (\<lambda>i. int i), env_time_c = v2_timestamp zero_status,
     env_linker = \<lparr>dl_open = (\<lambda>_. None), dl_sym = (\<lambda>_ _. False), dl_init = (\<lambda>_ _. None)\<rparr>,
     env_junk_type = V2_Physical, env_dirpath = ''d/'', env_ensure_dir = 0, env_mkfifo = (\<lambda>_. 0), env_open = (\<lambda>_. 3)\<rparr>"

lemma v2_sample_env_keeps: "keeps_graph (env_vt v2_sample_env)"
  by (simp add: v2_sample_env_def still_calls_keep)

abbreviation make_s :: tcp_request where
  "make_s \<equiv> Admin_tag (Some (Make_pseudo ''s'' (serialize_status sample_v2_status) 1000))"

definition sample_server :: bos_state where
  "sample_server = snd (projr (serve_connection v2_sample_env make_s new_BatteryOS))"

lemma sample_server_reachable: "server_reachable v2_sample_env sample_server"
proof -
  obtain reply s' where run: "serve_connection v2_sample_env make_s new_BatteryOS = Inr (reply, s')"
    by (simp add: case_prod_beta)
  then have "sample_server = s'" by (simp only: sample_server_def sum.sel snd_conv)
  then show ?thesis using reach_server_step [OF reach_boot step_connection [OF run]] by simp
qed

abbreviation ask_all :: "string \<Rightarrow> v2_battery_msg option option" where
  "ask_all n \<equiv> Some (Some \<lparr>msg_name = n, msg_call = Get_status_call\<rparr>)"

lemma sample_poll: "case poll_turn v2_sample_env ask_all None sample_server of Inl _ \<Rightarrow> False | Inr (replies, _, _) \<Rightarrow> length replies = 1"
  by code_simp

theorem server_stays_consistent_witness:
  "v2_dir_inv (bos_directory sample_server) \<and>
   (\<exists>replies resp s'. poll_turn v2_sample_env ask_all None sample_server = Inr (replies, resp, s') \<and>
      map fst replies = map fst (battery_ifds sample_server) \<and> (\<forall>r \<in> set replies. snd r \<noteq> None))"
proof -
  obtain replies resp s' where run: "poll_turn v2_sample_env ask_all None sample_server = Inr (replies, resp, s')"
    using sample_poll by (auto split: sum.splits)
  with server_stays_consistent [OF sample_server_reachable v2_sample_env_keeps] show ?thesis by fastforce
qed

text \<open>
  A message that asks a policy for its status, or that schedules a current on it, ends the server:
  the policy is a battery of the directory like any other and overrides both functions by an exit.
\<close>

theorem message_to_policy_ends_server:
  assumes "get_battery (msg_name msg) (bos_directory s) = Some b" and "the_splitter (v2_device b) \<noteq> None"
    and "msg_call msg \<noteq> Call_not_set"
  shows "serve_connection env (Battery_tag (Some msg)) s = Inl Process_exit"
  using assms by (cases "msg_call msg") (simp_all add: handle_battery_msg_def bat_get_status_def bat_schedule_def)

theorem message_to_policy_ends_server_witness:
  "\<exists>kids d'. sample_split = Inr (kids, d') \<and>
     serve_connection v2_sample_env (Battery_tag (Some \<lparr>msg_name = ''p'', msg_call = Get_status_call\<rparr>))
       (new_BatteryOS\<lparr>bos_directory := d'\<rparr>) = Inl Process_exit"
proof -
  have "case sample_split of Inl _ \<Rightarrow> False
      | Inr (_, d') \<Rightarrow> (case get_battery ''p'' d' of None \<Rightarrow> False | Some b \<Rightarrow> the_splitter (v2_device b) \<noteq> None)"
    by code_simp
  then obtain kids d' b where run: "sample_split = Inr (kids, d')" "get_battery ''p'' d' = Some b" "the_splitter (v2_device b) \<noteq> None"
    by (auto split: sum.splits option.splits)
  then have "serve_connection v2_sample_env (Battery_tag (Some \<lparr>msg_name = ''p'', msg_call = Get_status_call\<rparr>))
       (new_BatteryOS\<lparr>bos_directory := d'\<rparr>) = Inl Process_exit"
    by (intro message_to_policy_ends_server [of _ _ b]) simp_all
  with run(1) show ?thesis by blast
qed

text \<open>
  Over a link that works, a remote battery is the battery it names: its refresh takes over the
  status that battery reports, and a request has the effect and the verdict of that battery, for the
  times cut to milliseconds and without the flag of the target.
\<close>

theorem remote_battery_refines:
  assumes "0 \<le> link_connect link" and "link_tag_sent link" and "0 < link_echo link" and "link_msg_sent link"
    and "0 < link_answer link" and "get_battery rname (bos_directory s) = Some rb" and "0 \<le> w" and "0 \<le> u"
    and "bat_get_status (env_vt env) rname (bos_directory s) = Inr (st, d1)"
    and "bat_schedule (env_vt env) rname target False (floor_ms w) (floor_ms u) (bos_directory s) = Inr (verdict, d2)"
  shows "remote_battery_refresh link (serve_connection env) rname b s = Inr (st, b\<lparr>v2_bstatus := st\<rparr>, s\<lparr>bos_directory := d1\<rparr>) \<and>
    remote_battery_schedule link (serve_connection env) rname target gt w u s = Inr (verdict, s\<lparr>bos_directory := d2\<rparr>)"
proof -
  have "deserialize_ctime ts = ts" for ts by (simp add: deserialize_ctime_def)
  then show ?thesis
    using assms c_time_floor
    by (simp add: remote_battery_refresh_def remote_battery_schedule_def remote_exchange_def handle_battery_msg_def)
qed

theorem remote_battery_refines_witness:
  "\<exists>d1. remote_battery_refresh \<lparr>link_connect = 4, link_tag_sent = True, link_echo = 2, link_msg_sent = True, link_answer = 9\<rparr>
     (serve_connection v2_sample_env) ''s'' (new_NullBattery ''n'' 5 1000) (new_BatteryOS\<lparr>bos_directory := one_battery\<rparr>) =
     Inr (sample_v2_status, (new_NullBattery ''n'' 5 1000)\<lparr>v2_bstatus := sample_v2_status\<rparr>, new_BatteryOS\<lparr>bos_directory := d1\<rparr>)"
proof -
  let ?s = "new_BatteryOS\<lparr>bos_directory := one_battery\<rparr>"
  have b: "get_battery ''s'' one_battery = Some (as_dev (\<lambda>_. Pseudo_dev) (new_PseudoBattery_v2 ''s'' sample_v2_status 1000))"
    by (simp add: one_battery_def make_pseudo_def add_battery_def get_battery_def name_exists_def has_key_def
        new_BOSDirectory_def map_insert_def Let_def)
  then have "bat_get_status (env_vt v2_sample_env) ''s'' (bos_directory ?s) = Inr (sample_v2_status, one_battery)"
    "bat_schedule (env_vt v2_sample_env) ''s'' 0 False (floor_ms 0) (floor_ms 0) (bos_directory ?s) = Inr (0, one_battery)"
    by (simp_all add: bat_get_status_def bat_schedule_def the_splitter_def v2_sample_env_def still_calls_def new_PseudoBattery_v2_def new_v2_battery_def)
  from remote_battery_refines [OF _ _ _ _ _ _ _ _ this, of "\<lparr>link_connect = 4, link_tag_sent = True, link_echo = 2,
      link_msg_sent = True, link_answer = 9\<rparr>"] b
  show ?thesis by auto
qed

section \<open>The end of the socket loop\<close>

lemma created_running: "created env name s r = (resp, s') \<Longrightarrow> bos_should_quit s' = bos_should_quit s"
  by (auto simp: created_def creation_reply_def split: prod.splits option.splits)

lemma admin_msg_running:
  assumes "handle_admin_msg env msg s = Inr (resp, s')" and "msg \<noteq> Shutdown"
  shows "bos_should_quit s' = bos_should_quit s"
proof (cases msg)
  case (Make_splitter name src kid_names scales sts policy staleness)
  then show ?thesis
    using assms splitter_msg_refused [of env name src kid_names scales sts policy staleness s] by auto
next
  case (Make_dynamic name lib st f1 f2 f3 f4 f5)
  then show ?thesis
    using assms(1) by (auto simp: case_prod_beta dest!: created_running)
next
  case (Remove_battery name)
  then show ?thesis using assms remove_messages_aux [of env name s] by (auto split: option.splits if_splits)
qed (use assms in \<open>auto dest: created_running\<close>)

lemma connection_running:
  assumes "serve_connection env req s = Inr (reply, s')" and "req \<noteq> Admin_tag (Some Shutdown)"
  shows "bos_should_quit s' = bos_should_quit s"
proof (cases req)
  case (Admin_tag m)
  then show ?thesis using assms admin_msg_running by (cases m) auto
next
  case (Battery_tag m)
  then show ?thesis using assms by (cases m) (auto split: option.splits)
qed (use assms in simp)

primrec serve_all :: "bos_env \<Rightarrow> tcp_request list \<Rightarrow> bos_state \<Rightarrow> (tcp_reply list \<times> bos_state) outcome" where
  "serve_all env [] s = Inr ([], s)"
| "serve_all env (r # rs) s =
     obind (serve_connection env r s) (\<lambda>(reply, s').
     obind (serve_all env rs s') (\<lambda>(replies, s''). Inr (reply # replies, s'')))"

text \<open>
  The socket loop stops when it is told to: after any requests that were served, a shutdown request
  is answered, and the next return of \<open>accept\<close>, also a failed one, ends the loop with every battery
  told to quit and every library closed, whatever was still to come.
\<close>

theorem tcp_loop_stops:
  assumes "serve_all env pre s = Inr (replies, s1)" and "\<not> bos_should_quit s"
    and "Admin_tag (Some Shutdown) \<notin> set pre"
  shows "tcp_loop env (map Some pre @ Some (Admin_tag (Some Shutdown)) # c # cs) s =
    Inr (replies @ [Admin_reply \<lparr>ar_retcode = 0, ar_retval = Success 1\<rparr>], shutdown_server (notify_should_quit s1))"
  using assms
proof (induction pre arbitrary: s replies)
  case Nil
  then show ?case by (simp add: notify_should_quit_def)
next
  case (Cons r pre)
  then obtain reply s' rest where run: "serve_connection env r s = Inr (reply, s')"
      "serve_all env pre s' = Inr (rest, s1)" "replies = reply # rest"
    by auto
  moreover have "\<not> bos_should_quit s'" using connection_running [OF run(1)] Cons.prems(2,3) by auto
  ultimately show ?case using Cons.IH [OF run(2)] Cons.prems(2,3) by simp
qed

theorem tcp_loop_stops_witness:
  "tcp_loop v2_sample_env [Some No_tag, Some (Admin_tag (Some Shutdown)), None] new_BatteryOS =
    Inr ([No_reply, Admin_reply \<lparr>ar_retcode = 0, ar_retval = Success 1\<rparr>], shutdown_server (notify_should_quit new_BatteryOS))"
  using tcp_loop_stops [of v2_sample_env "[No_tag]" new_BatteryOS "[No_reply]" new_BatteryOS None "[]"]
  by (simp add: new_BatteryOS_def)

end
