(* ===== verification/V2_Dispatch.thy ===== *)
theory V2_Dispatch
  imports V2_Server
begin

text \<open>
  The virtual calls of BatteryOS-V2 over one directory: what \<open>get_status\<close> and \<open>schedule_set_current\<close> do
  for a battery of each kind, recursing along the references from an aggregate to its sources, from
  a child to its policy and from the policy to its source. A call knows the mutexes its thread holds,
  or that the thread waiting for it holds, and taking one of them again is a deadlock. The clock is
  read under a label that no other reading has; the serial line, the remote machines and the loaded
  libraries are functions of the environment. The threads of a refresh run one after the other here.
\<close>

section \<open>The environment of a call\<close>

record dispatch_env =
  de_clock :: "nat list \<Rightarrow> nat \<Rightarrow> nanos"
  de_line :: "string \<Rightarrow> byte list connection"
  de_link :: "string \<Rightarrow> int \<Rightarrow> tcp_link"
  de_peer :: "string \<Rightarrow> int \<Rightarrow> tcp_request \<Rightarrow> tcp_reply"
  de_lib_status :: "nat \<Rightarrow> nat \<Rightarrow> v2_status"
  de_lib_delay :: "nat \<Rightarrow> nat \<Rightarrow> int \<Rightarrow> int \<Rightarrow> int"

text \<open>The environment of the \<open>k\<close>th call that a call makes.\<close>

definition deeper :: "nat \<Rightarrow> dispatch_env \<Rightarrow> dispatch_env" where
  "deeper k env = env\<lparr>de_clock := (\<lambda>path. de_clock env (k # path))\<rparr>"

definition c_stamp :: "nanos \<Rightarrow> CTimestamp" where
  "c_stamp now = get_system_time_c (Some (now div 1000000000, now mod 1000000000))"

definition is_stale :: "nanos \<Rightarrow> 'b v2_battery \<Rightarrow> bool" where
  "is_stale now b \<longleftrightarrow> refresh_mode b = V2_LAZY \<and>
     now - c_time_to_timepoint (v2_timestamp (v2_bstatus b)) \<ge> max_staleness b * 1000000"

section \<open>The status\<close>

definition loaded_refresh :: "dispatch_env \<Rightarrow> nat \<Rightarrow> nat \<Rightarrow> bos_battery \<Rightarrow> bos_battery" where
  "loaded_refresh env handle init_result b = b\<lparr>v2_bstatus := de_lib_status env handle init_result\<rparr>"

definition leaf_refresh :: "dispatch_env \<Rightarrow> bos_battery \<Rightarrow> bos_battery outcome" where
  "leaf_refresh env b =
    (case v2_device b of
       Null_dev \<Rightarrow> Inr (stamp_now (de_clock env [] 1) b)
     | Pseudo_dev \<Rightarrow> Inr (stamp_now (de_clock env [] 1) b)
     | JBD_dev j \<Rightarrow>
         obind (jbd2_refresh (de_line env (v2_name b)) (c_stamp (de_clock env [] 1)) (as_dev (\<lambda>_. j) b))
           (\<lambda>b'. Inr (as_dev JBD_dev b'))
     | Remote_dev remote_name address port \<Rightarrow>
         obind (remote_battery_refresh (de_link env address port)
             (\<lambda>req s. Inr (de_peer env address port req, s)) remote_name b ())
           (\<lambda>(_, b', _). Inr b')
     | Dynamic_dev handle init_result \<Rightarrow> Inr (loaded_refresh env handle init_result b)
     | _ \<Rightarrow> Inr b)"

text \<open>The calls of an aggregate, numbered, over a world that is a fault after the first fault.\<close>

definition status_call ::
  "(nat \<Rightarrow> string \<Rightarrow> bos_dir \<Rightarrow> (v2_status \<times> bos_dir) outcome) \<Rightarrow> string \<Rightarrow> (nat \<times> bos_dir) outcome \<Rightarrow>
   v2_status \<times> (nat \<times> bos_dir) outcome" where
  "status_call call p w =
    (case w of
       Inl e \<Rightarrow> (zero_status, Inl e)
     | Inr (k, d) \<Rightarrow>
         (case call k p d of Inl e \<Rightarrow> (zero_status, Inl e) | Inr (st, d') \<Rightarrow> (st, Inr (Suc k, d'))))"

definition policy_get_status_of ::
  "(dispatch_env \<Rightarrow> string list \<Rightarrow> string \<Rightarrow> bos_dir \<Rightarrow> (v2_status \<times> bos_dir) outcome) \<Rightarrow> dispatch_env \<Rightarrow>
   string list \<Rightarrow> string \<Rightarrow> string \<Rightarrow> bos_dir \<Rightarrow> (v2_status \<times> bos_dir) outcome" where
  "policy_get_status_of call env held policy child_name d =
    (if policy \<in> set held then Inl Deadlock
     else policy_status_of (call (deeper 0 env) (policy # held)) (de_clock env [] 2) policy child_name d)"

definition get_status_body ::
  "(dispatch_env \<Rightarrow> string list \<Rightarrow> string \<Rightarrow> bos_dir \<Rightarrow> (v2_status \<times> bos_dir) outcome) \<Rightarrow> dispatch_env \<Rightarrow>
   string list \<Rightarrow> string \<Rightarrow> bos_dir \<Rightarrow> (v2_status \<times> bos_dir) outcome" where
  "get_status_body call env held name d =
    (case get_battery name d of
       None \<Rightarrow> Inl Null_deref
     | Some b \<Rightarrow>
         if the_splitter (v2_device b) \<noteq> None then Inl Process_exit
         else if name \<in> set held then Inl Deadlock
         else
           (case v2_device b of
              Aggregate_dev a \<Rightarrow>
                (let (b', w) = agg_get_status (status_call (\<lambda>k. call (deeper k env) (name # held)))
                       (de_clock env [] 0) (c_stamp (de_clock env [] 1)) (get_parents name d)
                       (as_dev (\<lambda>_. a) b) (Inr (0, d))
                 in obind w (\<lambda>(_, d'). Inr (v2_bstatus b', put_battery name (as_dev Aggregate_dev b') d')))
            | Splitted_dev s \<Rightarrow>
                (case attached_policy s of
                   Some policy \<Rightarrow>
                     if is_stale (de_clock env [] 0) b then
                       obind (policy_get_status_of call env (name # held) policy name d)
                         (\<lambda>(st, d'). Inr (st, put_battery name (b\<lparr>v2_bstatus := st\<rparr>) d'))
                     else Inr (v2_bstatus b, d)
                 | None \<Rightarrow> Inr (v2_bstatus b, d))
            | _ \<Rightarrow>
                if is_stale (de_clock env [] 0) b then
                  obind (leaf_refresh env b) (\<lambda>b'. Inr (v2_bstatus b', put_battery name b' d))
                else Inr (v2_bstatus b, d)))"

primrec get_status_fuel ::
  "nat \<Rightarrow> dispatch_env \<Rightarrow> string list \<Rightarrow> string \<Rightarrow> bos_dir \<Rightarrow> (v2_status \<times> bos_dir) outcome" where
  "get_status_fuel 0 env held name d = Inl No_fuel"
| "get_status_fuel (Suc n) env held name d = get_status_body (get_status_fuel n) env held name d"

section \<open>Scheduling\<close>

definition leaf_delay :: "dispatch_env \<Rightarrow> bos_battery \<Rightarrow> int \<Rightarrow> int \<Rightarrow> nanos" where
  "leaf_delay env b from_mA to_mA =
    (case v2_device b of
       Dynamic_dev handle init_result \<Rightarrow> de_lib_delay env handle init_result from_mA to_mA * 1000000
     | _ \<Rightarrow> 0)"

definition base_schedule ::
  "dispatch_env \<Rightarrow> int \<Rightarrow> bool \<Rightarrow> nanos \<Rightarrow> nanos \<Rightarrow> bos_battery \<Rightarrow> bool \<times> bos_battery" where
  "base_schedule env target gt w u b =
     v2_schedule_set_current
       \<lparr>drv_refresh = (\<lambda>_ b. b), drv_set_current = (\<lambda>_ _ _ b. (True, b)), drv_get_delay = leaf_delay env b\<rparr>
       (de_clock env []) target gt w u b"

text \<open>The requests of an aggregate, whose verdicts it only reports, and the one of a policy, whose verdict it returns.\<close>

type_synonym schedule_fun =
  "dispatch_env \<Rightarrow> string list \<Rightarrow> string \<Rightarrow> int \<Rightarrow> bool \<Rightarrow> nanos \<Rightarrow> nanos \<Rightarrow> bos_dir \<Rightarrow> (32 word \<times> bos_dir) outcome"

definition request_call ::
  "(nat \<Rightarrow> string \<Rightarrow> int \<Rightarrow> bool \<Rightarrow> nanos \<Rightarrow> nanos \<Rightarrow> bos_dir \<Rightarrow> (32 word \<times> bos_dir) outcome) \<Rightarrow>
   string \<Rightarrow> int \<Rightarrow> bool \<Rightarrow> nanos \<Rightarrow> nanos \<Rightarrow> (nat \<times> bos_dir) outcome \<Rightarrow> bool \<times> (nat \<times> bos_dir) outcome" where
  "request_call call p target gt w u world =
    (case world of
       Inl e \<Rightarrow> (False, Inl e)
     | Inr (k, d) \<Rightarrow>
         (case call k p target gt w u d of
            Inl e \<Rightarrow> (False, Inl e)
          | Inr (r, d') \<Rightarrow> (r \<noteq> 0, Inr (Suc k, d'))))"

definition source_request ::
  "(int \<Rightarrow> bool \<Rightarrow> nanos \<Rightarrow> nanos \<Rightarrow> bos_dir \<Rightarrow> (32 word \<times> bos_dir) outcome) \<Rightarrow>
   int \<Rightarrow> bool \<Rightarrow> nanos \<Rightarrow> nanos \<Rightarrow> (32 word \<times> bos_dir) outcome \<Rightarrow> bool \<times> (32 word \<times> bos_dir) outcome" where
  "source_request call target gt w u world =
    (let r = obind world (\<lambda>(_, d). call target gt w u d)
     in (case r of Inl _ \<Rightarrow> False | Inr (success, _) \<Rightarrow> success \<noteq> 0, r))"

definition policy_schedule ::
  "schedule_fun \<Rightarrow> dispatch_env \<Rightarrow> string list \<Rightarrow> string \<Rightarrow> string \<Rightarrow> int \<Rightarrow> bool \<Rightarrow> nanos \<Rightarrow> nanos \<Rightarrow> bos_dir \<Rightarrow>
   (32 word \<times> bos_dir) outcome" where
  "policy_schedule call env held policy child_name target gt w u d =
    (case get_battery policy d of
       None \<Rightarrow> Inl Null_deref
     | Some pb \<Rightarrow>
         (case the_splitter (v2_device pb) of
            None \<Rightarrow> Inl Bad_cast
          | Some sp \<Rightarrow>
              if policy \<in> set held then Inl Deadlock
              else
                obind (schedule_set_current_of
                    (source_request (call (deeper 0 env) (policy # held) (src_name sp)))
                    (\<lambda>i. de_clock env [] (3 + i)) child_name target gt w u (as_dev (\<lambda>_. sp) pb) (Inr (0, d)))
                  (\<lambda>(_, pb', world). obind world (\<lambda>(r, d').
                     Inr (r, put_battery policy (as_dev Splitter_dev pb') d')))))"

definition schedule_body ::
  "(dispatch_env \<Rightarrow> string list \<Rightarrow> string \<Rightarrow> bos_dir \<Rightarrow> (v2_status \<times> bos_dir) outcome) \<Rightarrow> schedule_fun \<Rightarrow> schedule_fun" where
  "schedule_body get call env held name target gt w u d =
    (case get_battery name d of
       None \<Rightarrow> Inl Null_deref
     | Some b \<Rightarrow>
         if the_splitter (v2_device b) \<noteq> None then Inl Process_exit
         else
           (case v2_device b of
              Remote_dev remote_name address port \<Rightarrow>
                obind (remote_battery_schedule (de_link env address port)
                    (\<lambda>req s. Inr (de_peer env address port req, s)) remote_name target gt w u ())
                  (\<lambda>(r, _). Inr (r, d))
            | Aggregate_dev a \<Rightarrow>
                if name \<in> set held then Inl Deadlock
                else
                  (let (ok, b', world) = agg_schedule_set_current
                         (status_call (\<lambda>k. get (deeper k env) (name # held)))
                         (request_call (\<lambda>k. call (deeper k env) (name # held)))
                         (de_clock env [] 0) (c_stamp (de_clock env [] 1)) (get_parents name d) target gt w u
                         (as_dev (\<lambda>_. a) b) (Inr (0, d))
                   in obind world (\<lambda>(_, d'). Inr (of_bool ok, put_battery name (as_dev Aggregate_dev b') d')))
            | Splitted_dev s \<Rightarrow>
                if name \<in> set held then Inl Deadlock
                else
                  (case attached_policy s of
                     None \<Rightarrow> Inr (0, d)
                   | Some policy \<Rightarrow> policy_schedule call env (name # held) policy name target gt w u d)
            | _ \<Rightarrow>
                if name \<in> set held then Inl Deadlock
                else
                  (let (ok, b') = base_schedule env target gt w u b in Inr (of_bool ok, put_battery name b' d))))"

primrec schedule_fuel :: "nat \<Rightarrow> schedule_fun" where
  "schedule_fuel 0 = (\<lambda>env held name target gt w u d. Inl No_fuel)"
| "schedule_fuel (Suc n) = schedule_body (get_status_fuel n) (schedule_fuel n)"

definition dispatch :: "nat \<Rightarrow> dispatch_env \<Rightarrow> v2_virtual" where
  "dispatch n env = \<lparr>virt_get_status = get_status_fuel n env [], virt_schedule = schedule_fuel n env []\<rparr>"

section \<open>What every call keeps\<close>

text \<open>An outcome that avoids some faults, and that keeps the graph and the references when it is a result.\<close>

definition good :: "fault set \<Rightarrow> bos_dir \<Rightarrow> ('a \<times> bos_dir) outcome \<Rightarrow> bool" where
  "good E d r \<longleftrightarrow> (case r of Inl e \<Rightarrow> e \<notin> E | Inr (x, d') \<Rightarrow> same_graph shape_kept d d')"

lemma good_simps [simp]:
  "good E d (Inl e) \<longleftrightarrow> e \<notin> E" "good E d (Inr (x, d')) \<longleftrightarrow> same_graph shape_kept d d'"
  by (simp_all add: good_def)

lemma good_Inr: "good E d r \<Longrightarrow> r = Inr (x, d') \<Longrightarrow> same_graph shape_kept d d'"
  by (simp add: good_def)

lemma good_trans: "same_graph shape_kept d d1 \<Longrightarrow> good E d1 r \<Longrightarrow> good E d r"
  by (auto simp: good_def intro: same_graph_trans split: sum.splits)

lemma good_bind:
  assumes "good E d r" and "\<And>x d'. r = Inr (x, d') \<Longrightarrow> same_graph shape_kept d d' \<Longrightarrow> good E d (f (x, d'))"
  shows "good E d (obind r f)"
  using assms by (cases r) auto

lemma put_kept:
  assumes "get_battery name d = Some b" and "same_graph shape_kept d d'"
    and "v2_name b' = v2_name b" and "v2_btype b' = v2_btype b" and "shape_of (v2_device b') = shape_of (v2_device b)"
  shows "same_graph shape_kept d (put_battery name b' d')"
proof -
  obtain b1 where b1: "get_battery name d' = Some b1" "v2_name b1 = v2_name b" "v2_btype b1 = v2_btype b" "shape_kept b b1"
    using same_graph_battery [OF assms(2,1)] .
  have "same_graph shape_kept d' (put_battery name b' d')"
    by (rule same_graph_put [OF b1(1)]) (use b1 assms in \<open>simp_all add: shape_kept_def\<close>)
  with assms(2) show ?thesis by (rule same_graph_trans)
qed

text \<open>Whom a battery asks, and the mutexes it holds meanwhile.\<close>

definition asks :: "bos_dir \<Rightarrow> string \<Rightarrow> string list \<Rightarrow> string \<Rightarrow> bool" where
  "asks d name locks p \<longleftrightarrow>
    (\<exists>b. get_battery name d = Some b \<and>
       (shape_of (v2_device b) = Aggregate_shape \<and> locks = [name] \<and> p \<in> set (get_parents name d) \<or>
        (\<exists>policy pb. shape_of (v2_device b) = Child_shape (Some policy) \<and> get_battery policy d = Some pb \<and>
           shape_of (v2_device pb) = Policy_shape p \<and> locks = [policy, name])))"

definition needs :: "fault set \<Rightarrow> bos_dir \<Rightarrow> string list \<Rightarrow> string \<Rightarrow> bool" where
  "needs E d held name \<longleftrightarrow>
     (Deadlock \<in> E \<longrightarrow> name \<notin> set held \<and>
        (\<forall>b policy. get_battery name d = Some b \<longrightarrow> shape_of (v2_device b) = Child_shape (Some policy) \<longrightarrow>
           policy \<notin> set (name # held))) \<and>
     (\<not> E \<subseteq> {No_fuel, Deadlock} \<longrightarrow>
        (\<exists>b. get_battery name d = Some b \<and> shape_of (v2_device b) \<in> {Leaf_shape, Aggregate_shape}))"

text \<open>What is asked of the calls that a call makes.\<close>

definition call_good :: "fault set \<Rightarrow> bos_dir \<Rightarrow> (nat \<Rightarrow> bos_dir \<Rightarrow> ('a \<times> bos_dir) outcome) \<Rightarrow> bool" where
  "call_good E d call \<longleftrightarrow> (\<forall>k d'. same_graph shape_kept d d' \<longrightarrow> good E d' (call k d'))"

lemma call_goodD: "call_good E d call \<Longrightarrow> same_graph shape_kept d d' \<Longrightarrow> good E d (call k d')"
  unfolding call_good_def by (blast intro: good_trans)

lemma status_call_good:
  assumes "call_good E d (\<lambda>k. call k p)" and "good E d w"
  shows "good E d (snd (status_call call p w))"
proof (cases w)
  case (Inr kd)
  obtain k d' where kd: "kd = (k, d')" by (cases kd)
  have "good E d (call k p d')" using call_goodD [OF assms(1)] assms(2) Inr kd by simp
  then show ?thesis by (cases "call k p d'") (auto simp: status_call_def Inr kd)
qed (use assms(2) in \<open>simp add: status_call_def\<close>)

lemma request_call_good:
  assumes "call_good E d (\<lambda>k. call k p t g a z)" and "good E d w"
  shows "good E d (snd (request_call call p t g a z w))"
proof (cases w)
  case (Inr kd)
  obtain k d' where kd: "kd = (k, d')" by (cases kd)
  have "good E d (call k p t g a z d')" using call_goodD [OF assms(1)] assms(2) Inr kd by simp
  then show ?thesis by (cases "call k p t g a z d'") (auto simp: request_call_def Inr kd)
qed (use assms(2) in \<open>simp add: request_call_def\<close>)

lemma collect_good:
  assumes "\<forall>p \<in> set ps. call_good E d (\<lambda>k. call k p)" and "good E d w"
  shows "good E d (snd (collect_statuses (status_call call) ps w))"
  using assms
proof (induction ps arbitrary: w)
  case (Cons p ps)
  have "good E d (snd (status_call call p w))" using Cons.prems by (intro status_call_good) simp_all
  with Cons.IH Cons.prems(1) show ?case by (simp add: case_prod_beta)
qed simp

lemma forward_good:
  assumes "\<forall>p \<in> set ps. call_good E d (\<lambda>k. get k p)"
    and "\<forall>p \<in> set ps. \<forall>t g a z. call_good E d (\<lambda>k. call k p t g a z)" and "good E d w"
  shows "good E d (forward_shares (status_call get) (request_call call) target gt t u agg ps w)"
  using assms
proof (induction ps arbitrary: w)
  case (Cons p ps)
  have g: "good E d (snd (status_call get p w))" if "good E d w" for w
    using that Cons.prems(1) by (intro status_call_good) simp_all
  have c: "good E d (snd (request_call call p x gt t u w))" if "good E d w" for w x
    using that Cons.prems(2) by (intro request_call_good) simp_all
  show ?case using Cons.IH g c Cons.prems by (cases "target = 0") (simp_all add: case_prod_beta)
qed simp

lemma agg_get_status_frame:
  "agg_get_status get now ts ps b w = (b', w') \<Longrightarrow> v2_name b' = v2_name b \<and> v2_btype b' = v2_btype b \<and> v2_device b' = v2_device b"
  by (auto simp: agg_get_status_def agg_refresh_def Let_def split: if_splits prod.splits)

lemma agg_get_status_good:
  assumes "\<forall>p \<in> set ps. call_good E d (\<lambda>k. call k p)" and "good E d w"
  shows "good E d (snd (agg_get_status (status_call call) now ts ps b w))"
  using collect_good [OF assms] assms(2) by (simp add: agg_get_status_def case_prod_beta)

section \<open>The faults of the parts\<close>

lemma obind_Inl_iff: "obind r f = Inl e \<longleftrightarrow> r = Inl e \<or> (\<exists>x. r = Inr x \<and> f x = Inl e)"
  by (cases r) auto

lemma ofold_fault:
  assumes "ofold f xs s = Inl e" and "\<And>x s e. f x s = Inl e \<Longrightarrow> e = e0"
  shows "e = e0"
  using assms(1) by (induction xs arbitrary: s) (auto simp: obind_Inl_iff dest: assms(2))

lemma max_status_fault: "DISTRIBUTE_MAX_STATUS get put i s = Inl e \<Longrightarrow> e = Bad_index"
  by (auto simp: DISTRIBUTE_MAX_STATUS_def loop_down_def split: if_splits prod.splits bool.splits)

lemma limits_fault: "distribute_limits i s = Inl e \<Longrightarrow> e = Bad_index"
  unfolding distribute_limits_def obind_Inl_iff by (blast dest: max_status_fault)

lemma loops_fault: "loop_up f n s = Inl e \<Longrightarrow> e = Bad_index" "loop_down f n s = Inl e \<Longrightarrow> e = Bad_index"
  by (auto simp: loop_up_def loop_down_def split: prod.splits bool.splits)

lemma distribute_fault:
  "distribute_tranche s = Inl e \<Longrightarrow> e = Bad_index" "distribute_reservation s = Inl e \<Longrightarrow> e = Bad_index"
  unfolding distribute_tranche_def distribute_reservation_def obind_Inl_iff case_prod_beta
  by (metis limits_fault loops_fault)+

lemma take_share_fault: "take_share n s = Inl e \<Longrightarrow> e = Bad_index"
  by (auto simp: take_share_def Let_def split: prod.splits if_splits)

lemma proportional_child_fault: "proportional_child src t n sp = Inl e \<Longrightarrow> e = Bad_index"
  by (auto simp: proportional_child_def Let_def split: prod.splits if_splits)

lemma refresh_fault:
  assumes "BALSplitter_refresh st kids now b = Inl e"
  shows "e = Bad_index"
proof -
  have "refresh_shares dst st kids now sp = Inl e \<Longrightarrow> (\<And>s. dst s = Inl e \<Longrightarrow> e = Bad_index) \<Longrightarrow> e = Bad_index" for dst sp
    by (auto simp: refresh_shares_def obind_Inl_iff dest: ofold_fault [OF _ take_share_fault])
  moreover have "refresh_proportional st kids now sp = Inl e \<Longrightarrow> e = Bad_index" for sp
    by (auto simp: refresh_proportional_def Let_def dest: ofold_fault [OF _ proportional_child_fault])
  ultimately show ?thesis
    using assms distribute_fault
    by (auto simp: BALSplitter_refresh_def Let_def obind_Inl_iff refresh_tranche_def refresh_reservation_def
        split: BALSplitterType.splits)
qed

lemma preview_fault: "preview_children limit c w u q rm cur = Inl e \<Longrightarrow> e = Bad_index"
  by (induction q arbitrary: rm cur) (auto split: if_splits)

lemma enqueue_child_frame [simp]:
  "v2_name (enqueue_child a1 a2 c t r gt w u rm b) = v2_name b" "v2_btype (enqueue_child a1 a2 c t r gt w u rm b) = v2_btype b"
  "v2_device (enqueue_child a1 a2 c t r gt w u rm b) = v2_device b"
  by (simp_all add: enqueue_child_def next_sequence_number_def)

lemma child_schedule_fault: "schedule_set_current_of sched clock cn target gt w u b src = Inl e \<Longrightarrow> e = Bad_index"
  using preview_fault
  by (auto simp: schedule_set_current_of_def obind_Inl_iff Let_def case_prod_beta split: if_splits option.splits)

lemma child_schedule_result:
  assumes "schedule_set_current_of sched clock cn target gt w u b src = Inr (ok, b', src')"
  shows "v2_name b' = v2_name b \<and> v2_btype b' = v2_btype b \<and> v2_device b' = v2_device b \<and>
    (src' = src \<or> (\<exists>t. src' = snd (sched t gt w u src)))"
  using assms
  by (fastforce simp: schedule_set_current_of_def obind_Inr_iff Let_def case_prod_beta split: if_splits option.splits)

text \<open>A remote machine that answers is a remote battery that returns, whatever the answer.\<close>

lemma remote_calls_return:
  "\<exists>st st'. remote_battery_refresh link (\<lambda>req s. Inr (f req, s)) rname b s = Inr (st, b\<lparr>v2_bstatus := st'\<rparr>, s)"
  "\<exists>r. remote_battery_schedule link (\<lambda>req s. Inr (f req, s)) rname target gt w u s = Inr (r, s)"
proof -
  define msg where "msg = \<lparr>msg_name = rname, msg_call = Get_status_call\<rparr>"
  have x: "\<exists>a. remote_exchange link (\<lambda>s. Inr (f req, s)) s = Inr (a, s)" for req
    by (cases "f req") (auto simp: remote_exchange_def)
  have same: "\<exists>st'. b = b\<lparr>v2_bstatus := st'\<rparr>" by (rule exI [of _ "v2_bstatus b"]) simp
  obtain a where "remote_exchange link (\<lambda>s. Inr (f (Battery_tag (Some msg)), s)) s = Inr (a, s)" using x by blast
  then show "\<exists>st st'. remote_battery_refresh link (\<lambda>req s. Inr (f req, s)) rname b s = Inr (st, b\<lparr>v2_bstatus := st'\<rparr>, s)"
    using same
    by (cases a; cases "resp_retval (the a)") (auto simp: remote_battery_refresh_def msg_def Let_def)
  define msg' where "msg' = \<lparr>msg_name = rname, msg_call = Schedule_call target (timepoint_to_c_time w) (timepoint_to_c_time u)\<rparr>"
  obtain a' where "remote_exchange link (\<lambda>s. Inr (f (Battery_tag (Some msg')), s)) s = Inr (a', s)" using x by blast
  then show "\<exists>r. remote_battery_schedule link (\<lambda>req s. Inr (f req, s)) rname target gt w u s = Inr (r, s)"
    by (cases a'; cases "resp_retval (the a')") (auto simp: remote_battery_schedule_def msg'_def Let_def)
qed

lemma jbd2_refresh_cases:
  "jbd2_refresh conn ts b = Inl Bad_index \<or>
   (\<exists>b'. jbd2_refresh conn ts b = Inr b' \<and> v2_name b' = v2_name b \<and> v2_btype b' = v2_btype b)"
  by (auto simp: jbd2_refresh_def get_basic_info_def Let_def split: prod.splits)

lemma leaf_refresh_cases:
  "leaf_refresh env b = Inl Bad_index \<and> shape_of (v2_device b) = Serial_shape \<or>
   (\<exists>b'. leaf_refresh env b = Inr b' \<and> v2_name b' = v2_name b \<and> v2_btype b' = v2_btype b \<and>
      shape_of (v2_device b') = shape_of (v2_device b))"
proof (cases "v2_device b")
  case (JBD_dev j)
  then show ?thesis
    using jbd2_refresh_cases [of "de_line env (v2_name b)" "c_stamp (de_clock env [] 1)" "as_dev (\<lambda>_. j) b"]
    by (auto simp: leaf_refresh_def)
next
  case (Remote_dev r a p)
  then show ?thesis
    using remote_calls_return(1) [of "de_link env a p" "de_peer env a p" r b "()"] by (auto simp: leaf_refresh_def)
qed (auto simp: leaf_refresh_def stamp_now_def loaded_refresh_def)

lemma base_schedule_frame:
  "base_schedule env target gt w u b = (ok, b') \<Longrightarrow> v2_name b' = v2_name b \<and> v2_btype b' = v2_btype b \<and> v2_device b' = v2_device b"
  by (auto simp: base_schedule_def v2_schedule_set_current_def next_sequence_number_def Let_def case_prod_beta split: if_splits)

section \<open>A call is as good as the calls it makes\<close>

lemma policy_status_good:
  assumes "E \<subseteq> {No_fuel, Deadlock}"
    and "\<forall>pb src. get_battery policy d = Some pb \<longrightarrow> shape_of (v2_device pb) = Policy_shape src \<longrightarrow> good E d (get src d)"
  shows "good E d (policy_status_of get now policy cn d)"
proof -
  have out: "Null_deref \<notin> E" "Bad_cast \<notin> E" "Bad_index \<notin> E" using assms(1) by auto
  show ?thesis
  proof (cases "\<exists>b sp child_id. get_battery policy d = Some b \<and> the_splitter (v2_device b) = Some sp \<and>
      map_of (name_lookup sp) cn = Some child_id")
    case True
    then obtain b sp child_id where b: "get_battery policy d = Some b" "the_splitter (v2_device b) = Some sp"
        "map_of (name_lookup sp) cn = Some child_id" by blast
    then have shape: "shape_of (v2_device b) = Policy_shape (src_name sp)" by (auto simp: shape_of_policy)
    have fresh: "good E d (obind (get (src_name sp) d) (\<lambda>(ss, d1).
        obind (BALSplitter_refresh ss (get_children policy d1) now (as_dev (\<lambda>_. sp) b)) (\<lambda>b'.
        Inr (v2_device b', put_battery policy (as_dev Splitter_dev b') d1))))"
    proof (rule good_bind, goal_cases)
      case 1
      show ?case using assms(2) b(1) shape by simp
    next
      case (2 ss d1)
      show ?case
      proof (cases "BALSplitter_refresh ss (get_children policy d1) now (as_dev (\<lambda>_. sp) b)")
        case (Inl e)
        then show ?thesis using refresh_fault [OF Inl] out by simp
      next
        case (Inr b')
        then show ?thesis
          using put_kept [OF b(1) 2(2), of "as_dev Splitter_dev b'"] BALSplitter_refresh_frame [OF Inr] shape by simp
      qed
    qed
    show ?thesis
      using b out same_graph_refl [of d]
      by (auto simp: policy_status_of_def intro!: good_bind [OF fresh])
  qed (use out same_graph_refl in \<open>auto simp: policy_status_of_def split: option.splits\<close>)
qed

lemma needs_exists: "needs E d held name \<Longrightarrow> get_battery name d = None \<Longrightarrow> Null_deref \<notin> E"
  by (auto simp: needs_def)

lemma needs_plain:
  "needs E d held name \<Longrightarrow> get_battery name d = Some b \<Longrightarrow> shape_of (v2_device b) \<notin> {Leaf_shape, Aggregate_shape} \<Longrightarrow>
   E \<subseteq> {No_fuel, Deadlock}"
  by (auto simp: needs_def)

lemma needs_free: "needs E d held name \<Longrightarrow> name \<in> set held \<Longrightarrow> Deadlock \<notin> E"
  by (auto simp: needs_def)

lemma aggregate_status_good:
  assumes "get_battery name d = Some b" and "v2_device b = Aggregate_dev a"
    and "\<forall>p \<in> set (get_parents name d). call_good E d (\<lambda>k. call k p)"
  shows "good E d (let (b', w) = agg_get_status (status_call call) now ts (get_parents name d) (as_dev (\<lambda>_. a) b) (Inr (0, d))
     in obind w (\<lambda>(_, d'). Inr (v2_bstatus b', put_battery name (as_dev Aggregate_dev b') d')))"
proof -
  obtain b' w where run: "agg_get_status (status_call call) now ts (get_parents name d) (as_dev (\<lambda>_. a) b) (Inr (0, d)) = (b', w)"
    by fastforce
  from agg_get_status_good [OF assms(3), of "Inr (0, d)"] have "good E d w"
    using run by (metis good_simps(2) same_graph_refl snd_conv)
  then show ?thesis
    using put_kept [OF assms(1), of _ "as_dev Aggregate_dev b'"] agg_get_status_frame [OF run] assms(2) run
    by (auto intro!: good_bind)
qed

lemma policy_call_good:
  assumes "E \<subseteq> {No_fuel, Deadlock}" and "Deadlock \<in> E \<longrightarrow> policy \<notin> set held"
    and "\<forall>pb src. policy \<notin> set held \<longrightarrow> get_battery policy d = Some pb \<longrightarrow> shape_of (v2_device pb) = Policy_shape src \<longrightarrow>
      call_good E d (\<lambda>k. call (deeper k env) (policy # held) src)"
  shows "good E d (policy_get_status_of call env held policy cn d)"
  using assms policy_status_good [OF assms(1)] call_goodD same_graph_refl
  by (fastforce simp: policy_get_status_of_def)

text \<open>The calls of a battery whose mutex is free.\<close>

definition calls_good ::
  "fault set \<Rightarrow> bos_dir \<Rightarrow> string list \<Rightarrow> string \<Rightarrow> (nat \<Rightarrow> string list \<Rightarrow> string \<Rightarrow> bos_dir \<Rightarrow> ('a \<times> bos_dir) outcome) \<Rightarrow> bool" where
  "calls_good E d held name call \<longleftrightarrow> (\<forall>locks p. name \<notin> set held \<longrightarrow> set locks \<inter> set held = {} \<longrightarrow> asks d name locks p \<longrightarrow>
     call_good E d (\<lambda>k. call k (locks @ held) p))"

lemma calls_good_source:
  assumes "calls_good E d held name call" and "name \<notin> set held" and "get_battery name d = Some b"
    and "v2_device b = Aggregate_dev a" and "p \<in> set (get_parents name d)"
  shows "call_good E d (\<lambda>k. call k (name # held) p)"
proof -
  have "asks d name [name] p" using assms by (simp add: asks_def)
  with assms(1) [unfolded calls_good_def, rule_format, of "[name]" p] assms(2) show ?thesis by simp
qed

lemma calls_good_policy:
  assumes "calls_good E d held name call" and "policy \<notin> set (name # held)" and "name \<notin> set held"
    and "get_battery name d = Some b" and "v2_device b = Splitted_dev s" and "attached_policy s = Some policy"
    and "get_battery policy d = Some pb" and "shape_of (v2_device pb) = Policy_shape src"
  shows "call_good E d (\<lambda>k. call k (policy # name # held) src)"
proof -
  have "asks d name [policy, name] src" using assms by (simp add: asks_def)
  with assms(1) [unfolded calls_good_def, rule_format, of "[policy, name]" src] assms(2,3) show ?thesis by simp
qed

lemma get_status_body_good:
  assumes "needs E d held name" and "calls_good E d held name (\<lambda>k. call (deeper k env))"
  shows "good E d (get_status_body call env held name d)"
proof (cases "get_battery name d")
  case None
  then show ?thesis using needs_exists [OF assms(1)] by (simp add: get_status_body_def)
next
  case (Some b)
  note plain = needs_plain [OF assms(1) Some]
  consider "the_splitter (v2_device b) \<noteq> None" | "the_splitter (v2_device b) = None" "name \<in> set held"
    | "the_splitter (v2_device b) = None" "name \<notin> set held" by blast
  then show ?thesis
  proof cases
    case 1
    then have "Process_exit \<notin> E" using plain by (auto simp: the_splitter_None)
    with 1 Some show ?thesis by (simp add: get_status_body_def)
  next
    case 2
    with Some needs_free [OF assms(1)] show ?thesis by (simp add: get_status_body_def)
  next
    case 3
    have leaf: "good E d (if is_stale (de_clock env [] 0) b then
        obind (leaf_refresh env b) (\<lambda>b'. Inr (v2_bstatus b', put_battery name b' d)) else Inr (v2_bstatus b, d))"
      using leaf_refresh_cases [of env b] plain same_graph_refl put_kept [OF Some same_graph_refl] by auto
    show ?thesis
    proof (cases "v2_device b")
      case (Aggregate_dev a)
      with calls_good_source [OF assms(2) 3(2) Some] aggregate_status_good [OF Some Aggregate_dev] Some 3
      show ?thesis by (simp add: get_status_body_def)
    next
      case (Splitted_dev s)
      have kept: "same_graph shape_kept d d' \<Longrightarrow> same_graph shape_kept d (put_battery name (b\<lparr>v2_bstatus := st\<rparr>) d')" for st d'
        using put_kept [OF Some] by simp
      have "good E d (policy_get_status_of call env (name # held) policy name d)" if "attached_policy s = Some policy" for policy
        using assms(1) plain that Some Splitted_dev calls_good_policy [OF assms(2) _ 3(2) Some Splitted_dev that]
        by (intro policy_call_good) (auto simp: needs_def)
      then show ?thesis
        using Some 3 Splitted_dev same_graph_refl kept
        by (auto simp: get_status_body_def split: option.splits intro!: good_bind)
    qed (use Some 3 leaf in \<open>simp_all add: get_status_body_def the_splitter_def\<close>)
  qed
qed

lemma aggregate_schedule_good:
  assumes "get_battery name d = Some b" and "v2_device b = Aggregate_dev a"
    and "\<forall>p \<in> set (get_parents name d). call_good E d (\<lambda>k. get k p)"
    and "\<forall>p \<in> set (get_parents name d). \<forall>t g a z. call_good E d (\<lambda>k. call k p t g a z)"
  shows "good E d (let (ok, b', world) = agg_schedule_set_current (status_call get) (request_call call) now ts
       (get_parents name d) target gt w u (as_dev (\<lambda>_. a) b) (Inr (0, d))
     in obind world (\<lambda>(_, d'). Inr (of_bool ok :: 32 word, put_battery name (as_dev Aggregate_dev b') d')))"
proof -
  obtain b' w1 where run: "agg_get_status (status_call get) now ts (get_parents name d) (as_dev (\<lambda>_. a) b) (Inr (0, d)) = (b', w1)"
    by fastforce
  from agg_get_status_good [OF assms(3), of "Inr (0, d)"] have w1: "good E d w1"
    using run by (metis good_simps(2) same_graph_refl snd_conv)
  have "good E d (obind world (\<lambda>(_, d'). Inr (ok, put_battery name (as_dev Aggregate_dev b') d')))"
    if "good E d world" for ok :: "32 word" and world :: "(nat \<times> bos_dir) outcome"
    using that put_kept [OF assms(1), of _ "as_dev Aggregate_dev b'"] agg_get_status_frame [OF run] assms(2)
    by (auto intro!: good_bind)
  with w1 forward_good [OF assms(3,4) w1] run show ?thesis
    by (simp add: agg_schedule_set_current_def Let_def)
qed

lemma policy_schedule_good:
  assumes "E \<subseteq> {No_fuel, Deadlock}" and "Deadlock \<in> E \<longrightarrow> policy \<notin> set held"
    and "\<forall>pb src t g a z. policy \<notin> set held \<longrightarrow> get_battery policy d = Some pb \<longrightarrow>
      shape_of (v2_device pb) = Policy_shape src \<longrightarrow> call_good E d (\<lambda>k. call (deeper k env) (policy # held) src t g a z)"
  shows "good E d (policy_schedule call env held policy cn target gt w u d)"
proof -
  have out: "Null_deref \<notin> E" "Bad_cast \<notin> E" "Bad_index \<notin> E" using assms(1) by auto
  show ?thesis
  proof (cases "\<exists>pb sp. get_battery policy d = Some pb \<and> the_splitter (v2_device pb) = Some sp \<and> policy \<notin> set held")
    case True
    then obtain pb sp where b: "get_battery policy d = Some pb" "the_splitter (v2_device pb) = Some sp" "policy \<notin> set held"
      by blast
    then have shape: "shape_of (v2_device pb) = Policy_shape (src_name sp)" by (auto simp: shape_of_policy)
    let ?sched = "source_request (call (deeper 0 env) (policy # held) (src_name sp))"
    have world: "good E d (snd (?sched t gt w u (Inr (0, d))))" for t
      using assms(3) b(1,3) shape call_goodD same_graph_refl by (fastforce simp: source_request_def Let_def)
    show ?thesis
    proof (cases "schedule_set_current_of ?sched (\<lambda>i. de_clock env [] (3 + i)) cn target gt w u (as_dev (\<lambda>_. sp) pb) (Inr (0, d))")
      case (Inl e)
      with child_schedule_fault [OF Inl] b out show ?thesis by (simp add: policy_schedule_def)
    next
      case (Inr r)
      obtain ok pb' src' where r: "r = (ok, pb', src')" by (cases r)
      note res = child_schedule_result [OF Inr [unfolded r]]
      have "good E d src'" using res world same_graph_refl by auto
      then have "good E d (obind src' (\<lambda>(v, d'). Inr (v, put_battery policy (as_dev Splitter_dev pb') d')))"
        using put_kept [OF b(1), of _ "as_dev Splitter_dev pb'"] res shape by (auto intro!: good_bind)
      with b r Inr show ?thesis by (simp add: policy_schedule_def)
    qed
  qed (use out assms(2) in \<open>auto simp: policy_schedule_def split: option.splits\<close>)
qed

lemma schedule_body_good:
  assumes "needs E d held name" and "calls_good E d held name (\<lambda>k. get (deeper k env))"
    and "\<forall>t g a z. calls_good E d held name (\<lambda>k locks p. call (deeper k env) locks p t g a z)"
  shows "good E d (schedule_body get call env held name target gt w u d)"
proof (cases "get_battery name d")
  case None
  then show ?thesis using needs_exists [OF assms(1)] by (simp add: schedule_body_def)
next
  case (Some b)
  note plain = needs_plain [OF assms(1) Some]
  consider "the_splitter (v2_device b) \<noteq> None" | r a p where "v2_device b = Remote_dev r a p"
    | "the_splitter (v2_device b) = None" "\<nexists>r a p. v2_device b = Remote_dev r a p" "name \<in> set held"
    | "the_splitter (v2_device b) = None" "\<nexists>r a p. v2_device b = Remote_dev r a p" "name \<notin> set held" by blast
  then show ?thesis
  proof cases
    case 1
    then have "Process_exit \<notin> E" using plain by (auto simp: the_splitter_None)
    with 1 Some show ?thesis by (simp add: schedule_body_def)
  next
    case 2
    obtain v where "remote_battery_schedule (de_link env a p) (\<lambda>req s. Inr (de_peer env a p req, s)) r target gt w u () = Inr (v, ())"
      using remote_calls_return(2) [of "de_link env a p" "de_peer env a p" r target gt w u "()"] by blast
    with 2 Some same_graph_refl show ?thesis by (simp add: schedule_body_def the_splitter_def)
  next
    case 3
    with Some needs_free [OF assms(1)] show ?thesis
      by (cases "v2_device b") (simp_all add: schedule_body_def the_splitter_def)
  next
    case 4
    obtain ok b' where base: "base_schedule env target gt w u b = (ok, b')" by fastforce
    have leaf: "same_graph shape_kept d (put_battery name b' d)"
      using base_schedule_frame [OF base] put_kept [OF Some same_graph_refl] by simp
    show ?thesis
    proof (cases "v2_device b")
      case (Aggregate_dev a)
      have "\<forall>p \<in> set (get_parents name d). \<forall>t g x z. call_good E d (\<lambda>k. call (deeper k env) (name # held) p t g x z)"
        using calls_good_source [OF _ 4(3) Some Aggregate_dev] assms(3) by blast
      with calls_good_source [OF assms(2) 4(3) Some] aggregate_schedule_good [OF Some Aggregate_dev] Some 4 Aggregate_dev
      show ?thesis by (simp add: schedule_body_def)
    next
      case (Splitted_dev s)
      have c: "call_good E d (\<lambda>k. call (deeper k env) (policy # name # held) src t g x z)"
        if "attached_policy s = Some policy" "policy \<notin> set (name # held)" "get_battery policy d = Some pb"
          "shape_of (v2_device pb) = Policy_shape src" for policy pb src t g x z
        using calls_good_policy [OF assms(3) [rule_format] that(2) 4(3) Some Splitted_dev that(1,3,4)] .
      have "good E d (policy_schedule call env (name # held) policy name target gt w u d)"
        if "attached_policy s = Some policy" for policy
        using assms(1) plain that Some Splitted_dev c [OF that]
        by (intro policy_schedule_good) (auto simp: needs_def)
      then show ?thesis
        using Some 4 Splitted_dev same_graph_refl by (auto simp: schedule_body_def split: option.splits)
    qed (use Some 4 leaf base in \<open>simp_all add: schedule_body_def the_splitter_def\<close>)
  qed
qed

section \<open>Properties that follow the calls\<close>

text \<open>
  The interface between one call and all of them: a condition on a call, with its fuel and the
  mutexes held, that every call it makes meets again, and under which none of a set of faults occurs.
\<close>

locale call_discipline =
  fixes E :: "fault set" and I :: "nat \<Rightarrow> bos_dir \<Rightarrow> string list \<Rightarrow> string \<Rightarrow> bool"
  assumes fuel: "No_fuel \<in> E \<Longrightarrow> \<not> I 0 d held name"
    and need: "I (Suc n) d held name \<Longrightarrow> needs E d held name"
    and calls: "I (Suc n) d held name \<Longrightarrow> name \<notin> set held \<Longrightarrow> set locks \<inter> set held = {} \<Longrightarrow> asks d name locks p \<Longrightarrow>
      same_graph shape_kept d d' \<Longrightarrow> I n d' (locks @ held) p"
begin

lemma status_good: "I n d held name \<Longrightarrow> good E d (get_status_fuel n env held name d)"
proof (induction n arbitrary: env d held name)
  case (Suc n)
  have "calls_good E d held name (\<lambda>k. get_status_fuel n (deeper k env))"
    unfolding calls_good_def call_good_def using Suc.IH calls [OF Suc.prems] by blast
  with get_status_body_good [OF need [OF Suc.prems]] show ?case by simp
qed (use fuel in auto)

lemma schedule_good: "I n d held name \<Longrightarrow> good E d (schedule_fuel n env held name target gt w u d)"
proof (induction n arbitrary: env d held name target gt w u)
  case (Suc n)
  have "calls_good E d held name (\<lambda>k. get_status_fuel n (deeper k env))"
    unfolding calls_good_def call_good_def using status_good calls [OF Suc.prems] by blast
  moreover have "calls_good E d held name (\<lambda>k locks p. schedule_fuel n (deeper k env) locks p t g a z)" for t g a z
    unfolding calls_good_def call_good_def using Suc.IH calls [OF Suc.prems] by blast
  ultimately show ?case using schedule_body_good [OF need [OF Suc.prems]] by simp
qed (use fuel in auto)

end

interpretation any_call: call_discipline "{}" "\<lambda>_ _ _ _. True"
  by unfold_locales (simp_all add: needs_def)

text \<open>Fuel: a call holds a mutex that its caller did not, so it is enough to have one unit for every free one.\<close>

definition free_names :: "bos_dir \<Rightarrow> string list \<Rightarrow> string set" where
  "free_names d held = {k. name_exists k d} - set held"

lemma finite_names: "finite {k. name_exists k d}"
  by (simp add: name_exists_keys)

lemma asks_locks: "asks d name locks p \<Longrightarrow> name_exists name d \<and> name \<in> set locks"
  by (auto simp: asks_def get_battery_exists)

lemma free_names_shrink:
  assumes "asks d name locks p" and "name \<notin> set held" and "same_graph shape_kept d d'"
  shows "card (free_names d' (locks @ held)) < card (free_names d held)"
proof (rule psubset_card_mono)
  show "finite (free_names d held)" using finite_names by (simp add: free_names_def)
  show "free_names d' (locks @ held) \<subset> free_names d held"
    using assms(2) asks_locks [OF assms(1)] same_graph_exists [OF assms(3)] by (auto simp: free_names_def)
qed

interpretation fuelled: call_discipline "{No_fuel}" "\<lambda>n d held name. card (free_names d held) < n"
proof unfold_locales
  fix n d held name locks p d'
  assume "card (free_names d held) < Suc n" "name \<notin> set held" "asks d name locks p" "same_graph shape_kept d d'"
  then show "card (free_names d' (locks @ held)) < n" using free_names_shrink [of d name locks p held d'] by simp
qed (simp_all add: needs_def)

text \<open>An order of the batteries in which everyone refers to lower ones only.\<close>

definition refers_down :: "(string \<Rightarrow> nat) \<Rightarrow> string \<Rightarrow> string list \<Rightarrow> dev_shape \<Rightarrow> bool" where
  "refers_down r name sources shape =
     (case shape of
        Aggregate_shape \<Rightarrow> \<forall>p \<in> set sources. r p < r name
      | Policy_shape src \<Rightarrow> r src < r name
      | Child_shape (Some policy) \<Rightarrow> r policy < r name
      | _ \<Rightarrow> True)"

definition ranked :: "(string \<Rightarrow> nat) \<Rightarrow> bos_dir \<Rightarrow> bool" where
  "ranked r d \<longleftrightarrow> (\<forall>name b. get_battery name d = Some b \<longrightarrow>
     refers_down r name (get_parents name d) (shape_of (v2_device b)))"

lemma ranked_same_graph:
  assumes "same_graph shape_kept d d'" and "ranked r d"
  shows "ranked r d'"
  unfolding ranked_def
proof (intro allI impI)
  fix name b' assume b': "get_battery name d' = Some b'"
  then obtain b where b: "get_battery name d = Some b"
    using same_graph_exists [OF assms(1), of name] by (auto simp: get_battery_exists)
  have "shape_of (v2_device b') = shape_of (v2_device b)"
    using assms(1) b b' unfolding same_graph_def shape_kept_def by blast
  with assms(2) [unfolded ranked_def, rule_format, OF b]
  show "refers_down r name (get_parents name d') (shape_of (v2_device b'))"
    by (simp add: same_graph_neighbours [OF assms(1)])
qed

lemma ranked_asks:
  assumes "ranked r d" and "asks d name locks p"
  shows "r p < r name \<and> (\<forall>l \<in> set locks. r p < r l)"
proof -
  note rank = assms(1) [unfolded ranked_def, rule_format]
  consider b where "get_battery name d = Some b" "shape_of (v2_device b) = Aggregate_shape" "locks = [name]"
      "p \<in> set (get_parents name d)"
    | b policy pb where "get_battery name d = Some b" "shape_of (v2_device b) = Child_shape (Some policy)"
      "get_battery policy d = Some pb" "shape_of (v2_device pb) = Policy_shape p" "locks = [policy, name]"
    using assms(2) by (auto simp: asks_def)
  then show ?thesis
  proof cases
    case 1
    then show ?thesis using rank [OF 1(1)] by (simp add: refers_down_def)
  next
    case 2
    then show ?thesis using rank [OF 2(1)] rank [OF 2(3)] by (simp add: refers_down_def)
  qed
qed

definition above :: "(string \<Rightarrow> nat) \<Rightarrow> string list \<Rightarrow> string \<Rightarrow> bool" where
  "above r held name \<longleftrightarrow> (\<forall>h \<in> set held. r name < r h)"

lemma above_asks:
  assumes "ranked r d" and "above r held name" and "asks d name locks p"
  shows "above r (locks @ held) p"
  using assms(2) ranked_asks [OF assms(1,3)] by (auto simp: above_def)

lemma above_needs:
  assumes "ranked r d" and "above r held name"
  shows "needs {No_fuel, Deadlock} d held name"
proof -
  have "r policy < r name" if "get_battery name d = Some b" "shape_of (v2_device b) = Child_shape (Some policy)" for b policy
    using assms(1) [unfolded ranked_def, rule_format, OF that(1)] that(2) by (simp add: refers_down_def)
  with assms(2) show ?thesis by (fastforce simp: needs_def above_def)
qed

interpretation acyclic: call_discipline "{No_fuel, Deadlock}"
  "\<lambda>n d held name. ranked r d \<and> above r held name \<and> card (free_names d held) < n" for r
proof unfold_locales
  fix n d held name locks p d'
  assume "ranked r d \<and> above r held name \<and> card (free_names d held) < Suc n" "name \<notin> set held"
    "asks d name locks p" "same_graph shape_kept d d'"
  then show "ranked r d' \<and> above r (locks @ held) p \<and> card (free_names d' (locks @ held)) < n"
    using free_names_shrink [of d name locks p held d'] above_asks ranked_same_graph by force
qed (use above_needs in auto)

end
