(* ===== verification/V2_Answers.thy ===== *)
theory V2_Answers
  imports V2_Dispatch
begin

text \<open>
  The server of BatteryOS-V2 together with the calls between its batteries: what its messages do to the
  directory, the order of the batteries that results, and the answers that every reachable server
  gives.
\<close>

section \<open>The directories a server makes\<close>

text \<open>
  What the messages to a server do to its directory, a policy never being among it: the batteries
  change and keep their references, a battery without references is entered, an aggregate is made.
\<close>

inductive dir_event :: "bos_dir \<Rightarrow> bos_dir \<Rightarrow> bool" where
  ev_calls: "same_graph shape_kept d d' \<Longrightarrow> dir_event d d'"
| ev_leaf: "shape_of (v2_device b) = Leaf_shape \<Longrightarrow> dir_event d (snd (add_battery b d))"
| ev_aggregate: "make_aggregator ts name v t srcs st d = Inr (r, d') \<Longrightarrow> dir_event d d'"

abbreviation dir_events :: "bos_dir \<Rightarrow> bos_dir \<Rightarrow> bool" where
  "dir_events \<equiv> dir_event\<^sup>*\<^sup>*"

lemma quit_same_graph: "same_graph shape_kept d (v2_dir_quit d)"
proof -
  have "get_battery k (v2_dir_quit d) = (if quitted d then get_battery k d else map_option v2_quit (get_battery k d))" for k
    by (simp add: v2_dir_quit_def get_battery_def map_of_map)
  moreover have "map fst (name_storage_map (v2_dir_quit d)) = map fst (name_storage_map d)"
    by (simp add: v2_dir_quit_def case_prod_beta comp_def)
  ultimately show ?thesis
    by (auto simp: same_graph_def shape_kept_def v2_quit_def split: if_splits) (simp_all add: v2_dir_quit_def)
qed

lemma created_directory [simp]: "bos_directory (snd (created env name s r)) = snd r"
  by (cases r) (simp add: created_def creation_reply_def split: option.splits)

lemma leaf_events: "shape_of (v2_device b) = Leaf_shape \<Longrightarrow> dir_events d (snd (add_battery b d))"
  by (intro r_into_rtranclp ev_leaf)

lemma new_battery_device [simp]: "v2_device (new_v2_battery n ty s dev) = dev"
  by (simp add: new_v2_battery_def)

lemma make_dynamic_events:
  "make_dynamic dl ty name lib st f1 f2 f3 f4 f5 d libs = (r, d', libs') \<Longrightarrow> dir_events d d'"
  by (auto simp: make_dynamic_def Let_def case_prod_beta intro!: leaf_events split: option.splits if_splits)

lemma admin_msg_events:
  assumes "handle_admin_msg env msg s = Inr (resp, s')"
  shows "dir_events (bos_directory s) (bos_directory s')"
proof -
  have made: "bos_directory s' = snd r" if "created env n s1 r = (resp, s')" for env n s1 r
    using created_directory [of env n s1 r] that by simp
  show ?thesis
  proof (cases msg)
    case (Make_null n v st)
    then have "created env n s (make_null n v st (bos_directory s)) = (resp, s')" using assms by simp
    from made [OF this] show ?thesis by (auto simp: make_null_def intro!: leaf_events)
  next
    case (Make_pseudo n v st)
    then have "created env n s (make_pseudo n (deserialize_status v) st (bos_directory s)) = (resp, s')" using assms by simp
    from made [OF this] show ?thesis by (auto simp: make_pseudo_def intro!: leaf_events)
  next
    case (Make_networked n r a p st)
    then have "created env n s (make_networked_battery n r a (int32 p) st (bos_directory s)) = (resp, s')" using assms by simp
    from made [OF this] show ?thesis
      by (auto simp: make_networked_battery_def intro!: leaf_events)
  next
    case (Make_JBDBMS n a r st)
    then obtain x where mk: "make_JBDBMS n a r st (bos_directory s) = Inr x" "created env n s x = (resp, s')" using assms by auto
    then show ?thesis using made [OF mk(2)] by (auto simp: make_JBDBMS_def new_JBDBMS_def split: if_splits)
  next
    case (Make_aggregator n v t srcs st)
    then obtain r d' where mk: "make_aggregator (env_time_c env) n v t srcs st (bos_directory s) = Inr (r, d')"
        "created env n s (r, d') = (resp, s')" using assms by auto
    then show ?thesis using made [OF mk(2)] ev_aggregate [OF mk(1)] by auto
  next
    case (Make_splitter name src kid_names scales sts policy staleness)
    then show ?thesis
      using assms splitter_msg_refused [of env name src kid_names scales sts policy staleness s] by auto
  next
    case (Make_dynamic name lib st f1 f2 f3 f4 f5)
    obtain r d' libs' where mk: "make_dynamic (env_linker env) (env_junk_type env) name lib st f1 f2 f3 f4 f5
        (bos_directory s) (bos_libs s) = (r, d', libs')" by (metis prod_cases3)
    have "created env name (s\<lparr>bos_libs := libs'\<rparr>) (r, d') = (resp, s')" using assms Make_dynamic mk by simp
    from made [OF this] make_dynamic_events [OF mk] show ?thesis by simp
  next
    case (Remove_battery name)
    then show ?thesis using assms remove_messages_aux [of env name s] by (auto split: option.splits if_splits)
  next
    case Shutdown
    then show ?thesis using assms by (auto simp: notify_should_quit_def)
  qed (use assms in auto)
qed

lemma connection_events:
  assumes "keeps_graph (env_vt env)" and "serve_connection env req s = Inr (reply, s')"
  shows "dir_events (bos_directory s) (bos_directory s')"
proof (cases req)
  case (Admin_tag m)
  then show ?thesis using assms admin_msg_events by (cases m) auto
next
  case (Battery_tag m)
  then show ?thesis
    using assms by (cases m) (auto dest: battery_msg_graph [OF assms(1)] intro!: r_into_rtranclp ev_calls split: option.splits)
qed (use assms in simp)

lemma handle_battery_events:
  assumes "keeps_graph (env_vt env)" and "handle_battery env name parsed s = Inr (code, r, s')"
  shows "dir_events (bos_directory s) (bos_directory s')"
  using assms
  by (auto simp: handle_battery_def Let_def dest: battery_msg_graph [OF assms(1)] intro!: r_into_rtranclp ev_calls
      split: option.splits)

lemma poll_turn_events:
  assumes "keeps_graph (env_vt env)" and "poll_turn env ready adm s = Inr (replies, resp, s')"
  shows "dir_events (bos_directory s) (bos_directory s')"
proof -
  obtain bns s1 where all: "ofold (\<lambda>bn (replies, s). obind (handle_battery env bn (the (ready bn)) s) (\<lambda>(_, r, s'). Inr (replies @ [(bn, r)], s')))
           bns ([], s) = Inr (replies, s1)"
      and adm: "s' = s1 \<or> (\<exists>parsed resp. handle_admin env parsed s1 = Inr (resp, s'))"
    using assms(2) by (fastforce simp: poll_turn_def Let_def split: if_splits option.splits)
  have "dir_events (bos_directory s) (bos_directory (snd (replies, s1)))"
    by (rule ofold_invariant [OF all, where P = "\<lambda>_ st. dir_events (bos_directory s) (bos_directory (snd st))"])
       (auto dest: handle_battery_events [OF assms(1)])
  moreover have "dir_events (bos_directory s1) (bos_directory s')"
    using adm by (auto simp: handle_admin_def dest: admin_msg_events)
  ultimately show ?thesis by simp
qed

lemma init_fifos_directory [simp]: "bos_directory (snd (init_fifos env ns s)) = bos_directory s"
  by (induction ns arbitrary: s) (simp_all add: Let_def case_prod_beta)

text \<open>The server refines the events of its directory.\<close>

lemma server_step_events:
  assumes "keeps_graph (env_vt env)" and "server_step env s s'"
  shows "dir_events (bos_directory s) (bos_directory s')"
  using assms(2)
proof cases
  case (step_connection req reply)
  then show ?thesis using connection_events assms(1) by blast
next
  case (step_poll ready adm replies resp)
  then show ?thesis using poll_turn_events assms(1) by blast
next
  case step_shutdown
  then show ?thesis using ev_calls [OF quit_same_graph] by (auto simp: shutdown_server_def)
qed (simp_all add: admin_fifo_init_def battery_fifo_init_def Let_def)

text \<open>No policy and no serial line, sources that are entered, and an order of the references.\<close>

definition plain :: "bos_dir \<Rightarrow> bool" where
  "plain d \<longleftrightarrow> (\<forall>k b. get_battery k d = Some b \<longrightarrow> shape_of (v2_device b) \<in> {Leaf_shape, Aggregate_shape})"

definition layered :: "bos_dir \<Rightarrow> bool" where
  "layered d \<longleftrightarrow> v2_dir_inv d \<and> plain d \<and> (\<exists>r. ranked r d)"

lemma plain_same_graph:
  assumes "same_graph shape_kept d d'" and "plain d"
  shows "plain d'"
  unfolding plain_def
proof (intro allI impI)
  fix k b' assume b': "get_battery k d' = Some b'"
  then obtain b where b: "get_battery k d = Some b"
    using same_graph_exists [OF assms(1), of k] by (auto simp: get_battery_exists)
  have "shape_of (v2_device b') = shape_of (v2_device b)"
    using assms(1) b b' unfolding same_graph_def shape_kept_def by blast
  with b assms(2) show "shape_of (v2_device b') \<in> {Leaf_shape, Aggregate_shape}" by (simp add: plain_def)
qed

lemma add_leaf_layered:
  assumes "layered d" and "shape_of (v2_device b) = Leaf_shape"
  shows "layered (snd (add_battery b d))"
proof (cases "name_exists (v2_name b) d")
  case True
  then show ?thesis using assms(1) by (simp add: add_battery_taken)
next
  case False
  obtain r d1 where add: "add_battery b d = (r, d1)" by fastforce
  have d: "v2_dir_inv d" using assms(1) by (simp add: layered_def)
  note f = add_battery_fresh [OF d False add]
  obtain rk where "ranked rk d" using assms(1) by (auto simp: layered_def)
  then have "ranked rk d1" using f(3,5) assms(2) by (simp add: ranked_def) (simp add: refers_down_def)
  then show ?thesis using assms f add by (auto simp: layered_def plain_def split: if_splits)
qed

lemma get_parents_exist:
  assumes "v2_dir_inv d" and "p \<in> set (get_parents c d)"
  shows "name_exists p d"
proof -
  have "count_list (get_children p d) c = count_list (get_parents c d) p" using assms(1) by (simp add: v2_dir_inv_def)
  then have "c \<in> set (get_children p d)" using assms(2) by (metis count_list_0_iff)
  with assms(1) show ?thesis by (simp add: v2_dir_inv_def)
qed

lemma source_ranks:
  fixes r :: "string \<Rightarrow> nat"
  shows "\<exists>m. \<forall>p \<in> set srcs. r p < m"
proof
  show "\<forall>p \<in> set srcs. r p < Suc (sum_list (map r srcs))"
    by (simp add: member_le_sum_list less_Suc_eq_le)
qed

lemma make_aggregator_layered:
  assumes "layered d" and run: "make_aggregator ts name v t srcs st d = Inr (x, d')"
  shows "layered d'"
proof (cases "name_exists name d")
  case True
  then show ?thesis using assms by (simp add: make_aggregator_def)
next
  case False
  define b where "b = as_dev Aggregate_dev (new_AggregatorBattery name v t (replicate (length srcs) (fake_source_status ts)) st)"
  have b: "v2_name b = name" "shape_of (v2_device b) = Aggregate_shape" "is_virtual (v2_device b)"
    by (simp_all add: b_def is_virtual_def)
  obtain y d1 where add: "add_battery b d = (y, d1)" by fastforce
  have d: "v2_dir_inv d" using assms(1) by (simp add: layered_def)
  note f = add_battery_fresh [OF d _ add, unfolded b(1), OF False]
  have made: "obind (ofold (\<lambda>src. link_edge src name) srcs d1) (\<lambda>d2. Inr (y, d2)) = Inr (x, d')"
    using run False add by (simp add: make_aggregator_def b_def [symmetric])
  then have self: "name \<notin> set srcs" using self_edge_blocks [of name d1 b srcs] f(3) b(3) by auto
  have "name_exists name d1" by (simp add: get_battery_exists f(3))
  from add_edges_to [OF f(2) this self] obtain d2 where
    edges: "ofold (\<lambda>src. link_edge src name) srcs d1 = Inr d2" and d2: "v2_dir_inv d2" "\<forall>k. get_battery k d2 = get_battery k d1"
      "\<forall>k. get_parents k d2 = get_parents k d1 @ (if k = name then filter (\<lambda>s. name_exists s d1) srcs else [])"
    by blast
  have "d' = d2" using made edges by simp
  note d' = d2 [folded this]
  obtain r where r: "ranked r d" using assms(1) by (auto simp: layered_def)
  obtain m where m: "\<forall>p \<in> set srcs. r p < m" using source_ranks [of srcs r] by blast
  have "ranked (r(name := m)) d'"
    unfolding ranked_def
  proof (intro allI impI)
    fix k b1 assume b1: "get_battery k d' = Some b1"
    show "refers_down (r(name := m)) k (get_parents k d') (shape_of (v2_device b1))"
    proof (cases "k = name")
      case True
      then have "b1 = b" using b1 d'(2) f(3) by simp
      moreover have "set (get_parents k d') \<subseteq> set srcs"
        using True d'(3) f(5) no_neighbours(2) [OF d False] by auto
      ultimately show ?thesis using True b(2) m self by (auto simp: refers_down_def)
    next
      case kn: False
      then have bd: "get_battery k d = Some b1" using b1 d'(2) f(3) by simp
      then have "shape_of (v2_device b1) = Leaf_shape \<or> shape_of (v2_device b1) = Aggregate_shape"
        using assms(1) by (simp add: layered_def plain_def)
      moreover have "\<forall>p \<in> set (get_parents k d). p \<noteq> name"
        using False get_parents_exist [OF d] by blast
      moreover have "get_parents k d' = get_parents k d" using d'(3) f(5) kn by simp
      ultimately show ?thesis
        using r [unfolded ranked_def, rule_format, OF bd] kn by (elim disjE) (simp_all add: refers_down_def)
    qed
  qed
  moreover have "plain d'"
    using assms(1) d'(2) f(3) b(2) by (auto simp: plain_def layered_def)
  ultimately show ?thesis using d'(1) by (auto simp: layered_def)
qed

lemma dir_event_layered: "dir_event d d' \<Longrightarrow> layered d \<Longrightarrow> layered d'"
proof (induction rule: dir_event.induct)
  case (ev_calls d d')
  then show ?case
    using same_graph_inv plain_same_graph ranked_same_graph unfolding layered_def by blast
qed (use add_leaf_layered make_aggregator_layered in blast)+

lemma server_layered:
  assumes "server_reachable env s" and "keeps_graph (env_vt env)"
  shows "layered (bos_directory s)"
  using assms(1)
proof induction
  case reach_boot
  have "get_battery k (new_BOSDirectory :: bos_dir) = None" for k by (simp add: get_battery_def new_BOSDirectory_def)
  then show ?case
    using new_directory_inv by (simp add: new_BatteryOS_def layered_def plain_def ranked_def)
next
  case (reach_server_step s s')
  have "dir_events (bos_directory s) (bos_directory s')" using server_step_events assms(2) reach_server_step by blast
  then show ?case using reach_server_step by induction (auto intro: dir_event_layered)
qed

section \<open>What the calls promise\<close>

lemma dispatch_keeps: "keeps_graph (dispatch n env)"
proof -
  have "same_graph shape_kept d d'" if "get_status_fuel n env [] name d = Inr (st, d')" for name d st d'
    using any_call.status_good [of d n env "[]" name] that by simp
  moreover have "same_graph shape_kept d d'" if "schedule_fuel n env [] name t g w u d = Inr (st, d')" for name t g w u d st d'
    using any_call.schedule_good [of d n env "[]" name t g w u] that by simp
  ultimately show ?thesis by (auto simp: keeps_graph_def dispatch_def)
qed

text \<open>
  The calls of the code keep the graph: whatever they refresh, schedule and store on their way, no
  battery is entered, renamed or moved, and no reference to another battery changes.
\<close>

theorem calls_keep_graph: "keeps_graph (dispatch n env)"
  by (rule dispatch_keeps)

lemma enough_fuel:
  assumes "length (get_names d) < n"
  shows "card (free_names d []) < n"
proof -
  have "free_names d [] = set (get_names d)" by (simp add: free_names_def name_exists_keys get_names_def)
  then show ?thesis using assms card_length [of "get_names d"] by simp
qed

text \<open>
  Every call comes to an end: it goes no deeper than there are batteries, because each level holds a
  mutex of its own and a mutex that is already held stops it.
\<close>

theorem calls_end:
  assumes "length (get_names d) < n"
  shows "get_status_fuel n env [] name d \<noteq> Inl No_fuel \<and> schedule_fuel n env [] name target gt w u d \<noteq> Inl No_fuel"
  using fuelled.status_good [of d "[]" n env name] fuelled.schedule_good [of d "[]" n env name target gt w u]
    enough_fuel [OF assms] by (auto simp: good_def)

text \<open>
  C38: When every aggregate, child and policy refers only to batteries below it in some order, no call
  waits for a mutex that it holds itself, and every call comes to an end.
\<close>

theorem ordered_calls_do_not_block:
  assumes "ranked r d" and "length (get_names d) < n"
  shows "get_status_fuel n env [] name d \<notin> {Inl Deadlock, Inl No_fuel} \<and>
    schedule_fuel n env [] name target gt w u d \<notin> {Inl Deadlock, Inl No_fuel}"
  using acyclic.status_good [of r d "[]" name n env] acyclic.schedule_good [of r d "[]" name n env target gt w u]
    assms enough_fuel [OF assms(2)] by (auto simp: good_def above_def)

interpretation layers: call_discipline UNIV
  "\<lambda>n d held name. v2_dir_inv d \<and> plain d \<and> name_exists name d \<and> ranked r d \<and> above r held name \<and> card (free_names d held) < n" for r
proof unfold_locales
  fix n d held name locks p d'
  assume I: "v2_dir_inv d \<and> plain d \<and> name_exists name d \<and> ranked r d \<and> above r held name \<and> card (free_names d held) < Suc n"
    and new: "name \<notin> set held" "asks d name locks p" and g: "same_graph shape_kept d d'"
  then have "p \<in> set (get_parents name d)" unfolding asks_def plain_def by fastforce
  then have "name_exists p d" using get_parents_exist I by blast
  then show "v2_dir_inv d' \<and> plain d' \<and> name_exists p d' \<and> ranked r d' \<and> above r (locks @ held) p \<and> card (free_names d' (locks @ held)) < n"
    using I free_names_shrink [OF new(2,1) g] above_asks [OF _ _ new(2)] same_graph_inv [OF g] plain_same_graph [OF g]
      ranked_same_graph [OF g] same_graph_exists [OF g] by force
next
  fix n d held name
  assume I: "v2_dir_inv d \<and> plain d \<and> name_exists name d \<and> ranked r d \<and> above r held name \<and> card (free_names d held) < Suc n"
  then have "needs {No_fuel, Deadlock} d held name" using above_needs by blast
  moreover have "\<exists>b. get_battery name d = Some b \<and> shape_of (v2_device b) \<in> {Leaf_shape, Aggregate_shape}"
    using I by (auto simp: plain_def get_battery_exists)
  ultimately show "needs UNIV d held name" by (simp add: needs_def)
qed simp


section \<open>Samples\<close>

definition sample_calls :: dispatch_env where
  "sample_calls =
    \<lparr>de_clock = (\<lambda>path i. 9000000000 + int i),
     de_line = (\<lambda>name. \<lparr>conn_read = (\<lambda>n c. (take n c, drop n c)), conn_write = (\<lambda>bs c. (int (length bs), c)), conn_flush = (\<lambda>c. c)\<rparr>),
     de_link = (\<lambda>address port. \<lparr>link_connect = - 1, link_tag_sent = False, link_echo = 0, link_msg_sent = False, link_answer = 0\<rparr>),
     de_peer = (\<lambda>address port req. No_reply), de_lib_status = (\<lambda>h i. zero_status), de_lib_delay = (\<lambda>h i from_mA to_mA. 0)\<rparr>"

definition dispatch_env_of :: "nat \<Rightarrow> bos_env" where
  "dispatch_env_of n = v2_sample_env\<lparr>env_vt := dispatch n sample_calls\<rparr>"

definition after_request :: "tcp_request \<Rightarrow> bos_state \<Rightarrow> bos_state" where
  "after_request req s = (case serve_connection (dispatch_env_of 3) req s of Inl _ \<Rightarrow> s | Inr (_, s') \<Rightarrow> s')"

text \<open>A server with one battery and an aggregate of it.\<close>

definition two_level_server :: bos_state where
  "two_level_server =
     after_request (Admin_tag (Some (Make_aggregator ''g'' 3000 100 [''s''] 1000)))
       (after_request (Admin_tag (Some (Make_pseudo ''s'' (serialize_status sample_v2_status) 1000))) new_BatteryOS)"

lemma after_request_reachable:
  "server_reachable (dispatch_env_of 3) s \<Longrightarrow> server_reachable (dispatch_env_of 3) (after_request req s)"
  by (auto simp: after_request_def split: sum.splits intro: reach_server_step step_connection)

lemma two_level_server_reachable: "server_reachable (dispatch_env_of 3) two_level_server"
  unfolding two_level_server_def by (intro after_request_reachable reach_boot)

lemma two_level_names: "get_names (bos_directory two_level_server) = [''g'', ''s'']"
  by code_simp

lemma ranked_check:
  assumes "list_all (\<lambda>(k, b). refers_down r k (get_parents k d) (shape_of (v2_device b))) (name_storage_map d)"
  shows "ranked r d"
  using assms by (auto simp: ranked_def get_battery_def list_all_iff dest!: map_of_SomeD)

lemma two_level_ranked: "ranked (\<lambda>k. if k = ''g'' then 1 else 0) (bos_directory two_level_server)"
  by (rule ranked_check) code_simp

theorem calls_end_witness: "get_status_fuel 3 sample_calls [] ''g'' (bos_directory two_level_server) \<noteq> Inl No_fuel"
proof -
  have "length (get_names (bos_directory two_level_server)) < 3" by (simp add: two_level_names)
  then show ?thesis using calls_end by blast
qed

theorem ordered_calls_do_not_block_witness:
  "schedule_fuel 3 sample_calls [] ''g'' 5 False 10000000000 20000000000 (bos_directory two_level_server) \<noteq> Inl Deadlock"
proof -
  have "length (get_names (bos_directory two_level_server)) < 3" by (simp add: two_level_names)
  with ordered_calls_do_not_block [OF two_level_ranked] show ?thesis by blast
qed


end
