(* ===== verification/V2_Drivers.thy ===== *)
theory V2_Drivers
  imports V2_Split_Refresh
begin

text \<open>
  Two drivers of BatteryOS-V2: the Sonnen battery behind an HTTP service (\<open>sonnen.hpp\<close> and the plugin
  \<open>plugins/sonnen.cpp\<close>) and the client of an IEC 61850 server (\<open>iec61850.cpp\<close>). What the service answers
  and what the server holds are arguments; the requests and the writes are recorded in order.
\<close>

section \<open>The Sonnen battery\<close>

record sonnen_reply =
  reply_Uac :: int
  reply_Pac_total_W :: int
  reply_USOC :: int

text \<open>A setpoint is a direction, true for discharging, and a power in watts.\<close>

record sonnen =
  max_capacity_Wh :: int
  sonnen_max_discharging_mA :: int
  sonnen_max_charging_mA :: int
  setpoints :: "(bool \<times> int) list"

text \<open>The quotient of two doubles, rounded into an \<open>int64_t\<close>.\<close>

definition round_int64 :: "dbl \<Rightarrow> int" where
  "round_int64 x = (case x of Fin r \<Rightarrow> to_int64 (of_int (c_round r)) | _ \<Rightarrow> - (2 ^ 63))"

definition sonnen_status :: "CTimestamp \<Rightarrow> sonnen_reply \<Rightarrow> sonnen \<Rightarrow> v2_status" where
  "sonnen_status now_c r d =
    \<lparr>v2_voltage_mV = reply_Uac r * 1000,
     v2_current_mA = round_int64 (dbl_scale 1000 (dbl_div (of_int (reply_Pac_total_W r)) (of_int (reply_Uac r)))),
     v2_capacity_mAh = round_int64 (dbl_scale 1000
       (dbl_div (of_int (max_capacity_Wh d) * of_int (reply_USOC r) / 100) (of_int (reply_Uac r)))),
     v2_max_capacity_mAh = round_int64 (dbl_scale 1000 (dbl_div (of_int (max_capacity_Wh d)) (of_int (reply_Uac r)))),
     v2_max_charging_current_mA = sonnen_max_charging_mA d,
     v2_max_discharging_current_mA = sonnen_max_discharging_mA d,
     v2_timestamp = now_c\<rparr>"

text \<open>A reply without one of the fields stops the process in the parser.\<close>

definition sonnen_refresh :: "CTimestamp \<Rightarrow> sonnen_reply option \<Rightarrow> sonnen v2_battery \<Rightarrow> sonnen v2_battery outcome" where
  "sonnen_refresh now_c reply b =
    (case reply of
       None \<Rightarrow> Inl Process_exit
     | Some r \<Rightarrow> Inr (b\<lparr>v2_bstatus := sonnen_status now_c r (v2_device b)\<rparr>))"

definition new_Sonnen :: "CTimestamp \<Rightarrow> sonnen_reply option \<Rightarrow> string \<Rightarrow> int \<Rightarrow> int \<Rightarrow> int \<Rightarrow> int \<Rightarrow> sonnen v2_battery outcome" where
  "new_Sonnen now_c reply name capacity_Wh discharging_mA charging_mA staleness =
     sonnen_refresh now_c reply (new_v2_battery name V2_Physical staleness
       \<lparr>max_capacity_Wh = capacity_Wh, sonnen_max_discharging_mA = discharging_mA,
        sonnen_max_charging_mA = charging_mA, setpoints = []\<rparr>)"

text \<open>In milliseconds.\<close>

definition sonnen_get_delay :: "int \<Rightarrow> int \<Rightarrow> int" where
  "sonnen_get_delay from_current to_current =
    (if from_current = to_current then 0
     else if from_current = 0 \<and> to_current \<noteq> 0 then 30000
     else 5000)"

definition sonnen_setpoint :: "int \<Rightarrow> v2_status \<Rightarrow> bool \<times> int" where
  "sonnen_setpoint target st = (target > 0, \<bar>tdiv target 1000 * tdiv (v2_voltage_mV st) 1000\<bar>)"

definition sonnen_set_current :: "int \<Rightarrow> bool \<Rightarrow> nat \<Rightarrow> sonnen v2_battery \<Rightarrow> bool \<times> sonnen v2_battery" where
  "sonnen_set_current target gt other b =
     (True, b\<lparr>v2_device := (v2_device b)\<lparr>setpoints := setpoints (v2_device b) @ [sonnen_setpoint target (v2_bstatus b)]\<rparr>\<rparr>)"

text \<open>The driver, with a service that always answers in full.\<close>

definition sonnen_driver :: "(nanos \<Rightarrow> CTimestamp \<times> sonnen_reply) \<Rightarrow> sonnen v2_driver" where
  "sonnen_driver service =
    \<lparr>drv_refresh = (\<lambda>now b. case service now of (now_c, r) \<Rightarrow> b\<lparr>v2_bstatus := sonnen_status now_c r (v2_device b)\<rparr>),
     drv_set_current = sonnen_set_current,
     drv_get_delay = (\<lambda>from_mA to_mA. sonnen_get_delay from_mA to_mA * 1000000)\<rparr>"

section \<open>The IEC 61850 client\<close>

record iec2 =
  iec2_device :: string
  iec2_ZBAT :: string
  iec2_ZBTC :: string
  iec2_ZINV :: string
  iec2_writes :: "(string \<times> int) list"

definition iec2_object :: "iec2 \<Rightarrow> string \<Rightarrow> string \<Rightarrow> string" where
  "iec2_object d node attr = iec2_device d @ ''/'' @ node @ attr"

text \<open>A value that cannot be read leaves the field as it is.\<close>

definition iec2_value :: "(string \<Rightarrow> real option) \<Rightarrow> string \<Rightarrow> int \<Rightarrow> int" where
  "iec2_value readObject obj old = (case readObject obj of None \<Rightarrow> old | Some v \<Rightarrow> to_int64 v)"

definition iec2_status :: "(string \<Rightarrow> real option) \<Rightarrow> CTimestamp \<Rightarrow> iec2 \<Rightarrow> v2_status \<Rightarrow> v2_status" where
  "iec2_status readObject now_c d st =
     st\<lparr>v2_voltage_mV := iec2_value readObject (iec2_object d (iec2_ZBAT d) ''.Vol.mag.f'') (v2_voltage_mV st),
        v2_current_mA := iec2_value readObject (iec2_object d (iec2_ZBAT d) ''.Amp.mag.f'') (v2_current_mA st),
        v2_max_capacity_mAh := iec2_value readObject (iec2_object d (iec2_ZBAT d) ''.AhrRtg.setMag.f'') (v2_max_capacity_mAh st),
        v2_max_discharging_current_mA :=
          iec2_value readObject (iec2_object d (iec2_ZBAT d) ''.MaxBatA.setMag.f'') (v2_max_discharging_current_mA st),
        v2_timestamp := now_c, v2_max_charging_current_mA := 10\<rparr>"

definition iec2_refresh :: "(string \<Rightarrow> real option) \<Rightarrow> CTimestamp \<Rightarrow> iec2 v2_battery \<Rightarrow> iec2 v2_battery" where
  "iec2_refresh readObject now_c b = b\<lparr>v2_bstatus := iec2_status readObject now_c (v2_device b) (v2_bstatus b)\<rparr>"

definition iec2_write :: "string \<Rightarrow> int \<Rightarrow> iec2 v2_battery \<Rightarrow> iec2 v2_battery" where
  "iec2_write obj v b = b\<lparr>v2_device := (v2_device b)\<lparr>iec2_writes := iec2_writes (v2_device b) @ [(obj, v)]\<rparr>\<rparr>"

text \<open>The charging current goes through an \<open>int\<close>. A request that is carried out is answered with 0, one that is not with 1.\<close>

definition iec2_set_current :: "int \<Rightarrow> bool \<Rightarrow> nat \<Rightarrow> iec2 v2_battery \<Rightarrow> bool \<times> iec2 v2_battery" where
  "iec2_set_current target gt other b =
    (let d = v2_device b; st = v2_bstatus b;
         charge_mode = iec2_object d (iec2_ZBTC d) ''.BatChaMod.setVal'';
         current_limit = iec2_object d (iec2_ZINV d) ''.InALim.setMag.i'';
         recharge_rate = iec2_object d (iec2_ZBTC d) ''.ReChaRte.setMag.i'' in
     if target < 0 \<and> - target < v2_max_charging_current_mA st then
       (False, iec2_write charge_mode 2 (iec2_write recharge_rate (sint (word_of_int (- target) :: 32 word)) b))
     else if target > 0 \<and> target < v2_max_discharging_current_mA st then
       (False, iec2_write current_limit target (iec2_write charge_mode 1 b))
     else (True, b))"

definition iec2_driver :: "(nanos \<Rightarrow> string \<Rightarrow> real option) \<Rightarrow> (nanos \<Rightarrow> CTimestamp) \<Rightarrow> iec2 v2_driver" where
  "iec2_driver server stamp_c =
    \<lparr>drv_refresh = (\<lambda>now. iec2_refresh (server now) (stamp_c now)), drv_set_current = iec2_set_current,
     drv_get_delay = (\<lambda>_ _. 0)\<rparr>"

section \<open>What the Sonnen driver promises\<close>

lemma c_round_mono: "x \<le> y \<Longrightarrow> c_round x \<le> c_round y"
  by (auto simp: c_round_def intro: floor_mono ceiling_mono) (linarith | simp)+

text \<open>
  A reply with a positive voltage and a charge between 0 and 100 percent gives a status whose charge is
  between nothing and the capacity, and whose current times the voltage is the reported power to
  within the rounding of a milliampere.
\<close>

theorem sonnen_status_consistent:
  assumes "0 < reply_Uac r" and "0 \<le> reply_USOC r" and "reply_USOC r \<le> 100" and "0 \<le> max_capacity_Wh d"
    and "in_int64 (1000 * max_capacity_Wh d)" and "in_int64 (1000 * \<bar>reply_Pac_total_W r\<bar>)"
  shows "0 \<le> v2_capacity_mAh (sonnen_status now_c r d) \<and>
    v2_capacity_mAh (sonnen_status now_c r d) \<le> v2_max_capacity_mAh (sonnen_status now_c r d) \<and>
    2 * \<bar>v2_current_mA (sonnen_status now_c r d) * reply_Uac r - 1000 * reply_Pac_total_W r\<bar> \<le> reply_Uac r"
proof -
  let ?U = "of_int (reply_Uac r) :: real" and ?M = "of_int (max_capacity_Wh d) :: real"
  define x where "x = 1000 * (?M * of_int (reply_USOC r) / 100 / ?U)"
  define m where "m = 1000 * (?M / ?U)"
  define c where "c = 1000 * (of_int (reply_Pac_total_W r) / ?U)"
  have U: "1 \<le> ?U" using assms(1) by simp
  have "?M * of_int (reply_USOC r) \<le> ?M * 100" using assms(3,4) by (intro mult_left_mono) simp_all
  then have xm: "0 \<le> x" "x \<le> m" using assms(2,4) U by (simp_all add: x_def m_def divide_right_mono)
  have m: "m \<le> of_int (1000 * max_capacity_Wh d)"
    using U assms(4) by (simp add: m_def divide_le_eq mult_le_cancel_left1)
  have M: "in_int64 (c_round y)" if "0 \<le> y" "y \<le> m" for y
    using c_round_between [OF that(1), of "1000 * max_capacity_Wh d"] that m assms(5) by (auto simp: in_int64_def)
  have "\<bar>c\<bar> \<le> of_int \<bar>1000 * reply_Pac_total_W r\<bar>"
    using U by (simp add: c_def abs_mult divide_le_eq mult_le_cancel_left1)
  then have "\<bar>c_round c\<bar> \<le> \<bar>1000 * reply_Pac_total_W r\<bar>" using c_round_near [of c] by linarith
  then have c64: "in_int64 (c_round c)" using assms(6) by (auto simp: in_int64_def)
  have nz: "?U \<noteq> 0" using U by linarith
  have eqs: "v2_capacity_mAh (sonnen_status now_c r d) = c_round x" "v2_max_capacity_mAh (sonnen_status now_c r d) = c_round m"
    "v2_current_mA (sonnen_status now_c r d) = c_round c"
    using M xm c64 nz by (simp_all add: sonnen_status_def round_int64_def to_int64_def x_def m_def c_def)
  have "\<bar>of_int (c_round c) * ?U - c * ?U\<bar> \<le> ?U / 2"
    using c_round_near [of c] U by (simp add: abs_mult flip: left_diff_distrib)
  moreover have "c * ?U = of_int (1000 * reply_Pac_total_W r)" using nz by (simp add: c_def)
  ultimately have "\<bar>real_of_int (c_round c * reply_Uac r - 1000 * reply_Pac_total_W r)\<bar> \<le> ?U / 2" by simp
  then have "real_of_int (2 * \<bar>c_round c * reply_Uac r - 1000 * reply_Pac_total_W r\<bar>) \<le> ?U" by simp
  then have "2 * \<bar>c_round c * reply_Uac r - 1000 * reply_Pac_total_W r\<bar> \<le> reply_Uac r" by (simp only: of_int_le_iff)
  moreover have "c_round 0 = 0" by (simp add: c_round_def)
  ultimately show ?thesis using c_round_mono [OF xm(2)] c_round_mono [OF xm(1)] unfolding eqs by simp
qed

theorem sonnen_status_consistent_witness:
  "v2_capacity_mAh (sonnen_status (v2_timestamp zero_status) \<lparr>reply_Uac = 230, reply_Pac_total_W = 460, reply_USOC = 50\<rparr>
     \<lparr>max_capacity_Wh = 10000, sonnen_max_discharging_mA = 10, sonnen_max_charging_mA = 10, setpoints = []\<rparr>) \<le>
   v2_max_capacity_mAh (sonnen_status (v2_timestamp zero_status) \<lparr>reply_Uac = 230, reply_Pac_total_W = 460, reply_USOC = 50\<rparr>
     \<lparr>max_capacity_Wh = 10000, sonnen_max_discharging_mA = 10, sonnen_max_charging_mA = 10, setpoints = []\<rparr>)"
  using sonnen_status_consistent [of "\<lparr>reply_Uac = 230, reply_Pac_total_W = 460, reply_USOC = 50\<rparr>"
      "\<lparr>max_capacity_Wh = 10000, sonnen_max_discharging_mA = 10, sonnen_max_charging_mA = 10, setpoints = []\<rparr>"]
  by (simp add: in_int64_def)

text \<open>
  The power asked of the service never exceeds the request, keeps its direction, and is short of it by
  less than a volt for the current and an ampere for the voltage; a request below an ampere
  asks for nothing.
\<close>

theorem sonnen_setpoint_below_request:
  assumes "0 \<le> v2_voltage_mV st"
  shows "0 \<le> snd (sonnen_setpoint target st) \<and>
    1000000 * snd (sonnen_setpoint target st) \<le> \<bar>target\<bar> * v2_voltage_mV st \<and>
    \<bar>target\<bar> * v2_voltage_mV st < 1000000 * snd (sonnen_setpoint target st) + 1000 * (\<bar>target\<bar> + v2_voltage_mV st) + 1000000 \<and>
    (fst (sonnen_setpoint target st) \<longleftrightarrow> 0 < target) \<and> (\<bar>target\<bar> < 1000 \<longrightarrow> snd (sonnen_setpoint target st) = 0)"
proof -
  define a where "a = \<bar>target\<bar> div 1000"
  define v where "v = v2_voltage_mV st div 1000"
  have w: "snd (sonnen_setpoint target st) = a * v"
    using assms by (auto simp: sonnen_setpoint_def tdiv_def a_def v_def abs_mult pos_imp_zdiv_nonneg_iff)
  have a: "1000 * a \<le> \<bar>target\<bar>" "\<bar>target\<bar> < 1000 * a + 1000" "0 \<le> a" by (auto simp: a_def)
  have v: "1000 * v \<le> v2_voltage_mV st" "v2_voltage_mV st < 1000 * v + 1000" "0 \<le> v" using assms by (auto simp: v_def)
  have "(1000 * a) * (1000 * v) \<le> \<bar>target\<bar> * v2_voltage_mV st" using a v by (intro mult_mono) auto
  moreover have "\<bar>target\<bar> * v2_voltage_mV st < (1000 * a + 1000) * (1000 * v + 1000)"
    using a v assms by (intro mult_strict_mono) auto
  moreover have "0 \<le> a * v" using a(3) v(3) by simp
  moreover have "\<bar>target\<bar> < 1000 \<Longrightarrow> a = 0" by (simp add: a_def)
  ultimately show ?thesis using a v unfolding w by (auto simp: sonnen_setpoint_def algebra_simps)
qed

theorem sonnen_setpoint_below_request_witness:
  "1000000 * snd (sonnen_setpoint (- 2500) (zero_status\<lparr>v2_voltage_mV := 230000\<rparr>)) \<le> 2500 * 230000"
  using sonnen_setpoint_below_request [of "zero_status\<lparr>v2_voltage_mV := 230000\<rparr>" "- 2500"] by simp

text \<open>
  From rest the battery is started thirty seconds before the interval that was asked for and
  stopped five seconds before its end: these are the delays the driver declares, and the schedule
  compensates them.
\<close>

theorem sonnen_schedule_compensates:
  fixes b :: "sonnen v2_battery"
  assumes "event_queue b = []" and "current_now b = 0" and "target \<noteq> 0" and "clock 0 \<le> w" and "w < u"
    and "unat (current_sequence_number b) + 2 < 2 ^ 64"
  shows "\<exists>b'. v2_schedule_set_current (sonnen_driver service) clock target gt w u b = (True, b') \<and>
    (\<forall>t. profile b' t = (if w - 30000000000 \<le> t \<and> t < u - 5000000000 then (target, gt) else now_value b))"
proof -
  have inv: "v2_inv b" using assms(1) by (simp add: v2_inv_def)
  have d: "delayed_interval (sonnen_driver service) target w u b = (w - 30000000000, u - 5000000000)"
    using assms(1-3) by (simp add: delayed_interval_def now_value_def sonnen_driver_def sonnen_get_delay_def)
  have "profile b t = now_value b" for t using assms(1) by (simp add: profile_def last_by_def)
  moreover have lt: "w - 30000000000 < u - 5000000000" using assms(5) by simp
  ultimately show ?thesis using v2_schedule_assigns [where clock = clock and gt = gt, OF inv assms(4) d lt assms(6)] by auto
qed

definition resting_sonnen :: "sonnen v2_battery" where
  "resting_sonnen = new_v2_battery ''n'' V2_Physical 1000
     \<lparr>max_capacity_Wh = 10000, sonnen_max_discharging_mA = 40000, sonnen_max_charging_mA = 40000, setpoints = []\<rparr>"

definition steady_service :: "nanos \<Rightarrow> CTimestamp \<times> sonnen_reply" where
  "steady_service now = (v2_timestamp zero_status, \<lparr>reply_Uac = 230, reply_Pac_total_W = 0, reply_USOC = 50\<rparr>)"

theorem sonnen_schedule_compensates_witness:
  "\<exists>b'. v2_schedule_set_current (sonnen_driver steady_service) (\<lambda>i. int i) 20000 True 60000000000 90000000000 resting_sonnen = (True, b') \<and>
     profile b' 40000000000 = (20000, True) \<and> profile b' 86000000000 = (0, False)"
proof -
  have "event_queue resting_sonnen = []" "current_now resting_sonnen = 0" "now_value resting_sonnen = (0, False)"
    "unat (current_sequence_number resting_sonnen) + 2 < 2 ^ 64"
    by (simp_all add: resting_sonnen_def new_v2_battery_def now_value_def)
  with sonnen_schedule_compensates [of resting_sonnen 20000 "\<lambda>i. int i" 60000000000 90000000000] show ?thesis by force
qed

section \<open>What the IEC 61850 client does with its verdicts\<close>

definition iec2_accepts :: "int \<Rightarrow> v2_status \<Rightarrow> bool" where
  "iec2_accepts target st \<longleftrightarrow> target < 0 \<and> - target < v2_max_charging_current_mA st \<or>
     target > 0 \<and> target < v2_max_discharging_current_mA st"

lemma iec2_write_frame [simp]:
  "current_now (iec2_write obj v b) = current_now b" "v2_bstatus (iec2_write obj v b) = v2_bstatus b"
  "is_greater_than_current_now (iec2_write obj v b) = is_greater_than_current_now b"
  "iec2_writes (v2_device (iec2_write obj v b)) = iec2_writes (v2_device b) @ [(obj, v)]"
  by (simp_all add: iec2_write_def)

text \<open>
  The verdict of the client is the wrong way round: a request that is written to the server leaves
  the current on record as it was, and one that is refused, and of which nothing is written, becomes the
  current on record.
\<close>

theorem iec2_records_refused_current:
  assumes "v2_btype b \<noteq> V2_BALSplitter" and "\<not> has_cancel_event d" and "set_current_events d = es @ [e]"
  shows "let b' = execute_events (iec2_driver server stamp_c) d b in
    if iec2_accepts (ev_current_mA e) (v2_bstatus b)
    then current_now b' = current_now b \<and> length (iec2_writes (v2_device b')) = length (iec2_writes (v2_device b)) + 2
    else current_now b' = ev_current_mA e \<and> iec2_writes (v2_device b') = iec2_writes (v2_device b)"
  using assms by (auto simp: execute_events_def iec2_driver_def iec2_set_current_def iec2_accepts_def Let_def)

definition resting_iec :: "iec2 v2_battery" where
  "resting_iec = (new_v2_battery ''i'' V2_Physical 1000
     \<lparr>iec2_device = ''d'', iec2_ZBAT = ''b'', iec2_ZBTC = ''c'', iec2_ZINV = ''i'', iec2_writes = []\<rparr>)
     \<lparr>v2_bstatus := zero_status\<lparr>v2_max_discharging_current_mA := 100\<rparr>\<rparr>"

theorem iec2_records_refused_current_witness:
  "current_now (execute_events (iec2_driver (\<lambda>_ _. None) (\<lambda>_. v2_timestamp zero_status))
     \<lparr>has_refresh = False, has_cancel_event = False, set_current_events = [set_event 0 0 0 V2_SET_CURRENT 500 False 0]\<rparr>
     resting_iec) = 500"
  using iec2_records_refused_current [of resting_iec "\<lparr>has_refresh = False, has_cancel_event = False,
      set_current_events = [set_event 0 0 0 V2_SET_CURRENT 500 False 0]\<rparr>" "[]" "set_event 0 0 0 V2_SET_CURRENT 500 False 0"]
  by (simp add: resting_iec_def new_v2_battery_def iec2_accepts_def set_event_def Let_def)

end
