(* ===== verification/V2_Connections.thy ===== *)
theory V2_Connections
  imports V2_Remote
begin

text \<open>
  The three connections of V2 (\<open>Connections.hpp\<close>): a serial line, a TCP socket and a FIFO. An object
  holds a descriptor, with 0 for none; the descriptors the process has open and the FIFO files
  that exist are the part of the system the objects change. What the system calls return is an
  argument.
\<close>

datatype line_kind =
    Serial_line
  | Tcp_line
  | Fifo_line (newfifo: bool)

record v2_line =
  line_kind :: line_kind
  line_path :: string
  line_fd :: int
  line_connected :: bool

record os_state =
  open_fds :: "int set"
  fifo_files :: "string set"

record connect_answers =
  opened :: int
  pton :: int
  connected_to :: int
  made :: int

definition new_line :: "line_kind \<Rightarrow> string \<Rightarrow> v2_line" where
  "new_line k path = \<lparr>line_kind = k, line_path = path, line_fd = 0, line_connected = False\<rparr>"

section \<open>Connecting and closing\<close>

definition serial_connect :: "connect_answers \<Rightarrow> v2_line \<Rightarrow> os_state \<Rightarrow> bool \<times> v2_line \<times> os_state" where
  "serial_connect e c w =
    (if opened e < 0 then (False, c\<lparr>line_fd := 0\<rparr>, w)
     else (True, c\<lparr>line_fd := opened e, line_connected := True\<rparr>,
           w\<lparr>open_fds := insert (opened e) (open_fds w)\<rparr>))"

text \<open>After a failure that follows the creation of the socket the socket is forgotten, not closed.\<close>

definition tcp_connect :: "connect_answers \<Rightarrow> v2_line \<Rightarrow> os_state \<Rightarrow> bool \<times> v2_line \<times> os_state" where
  "tcp_connect e c w =
    (if opened e < 0 then (False, c\<lparr>line_fd := 0\<rparr>, w)
     else
       (let w1 = w\<lparr>open_fds := insert (opened e) (open_fds w)\<rparr> in
        if pton e \<le> 0 then (False, c\<lparr>line_fd := 0\<rparr>, w1)
        else if connected_to e < 0 then (False, c\<lparr>line_fd := 0\<rparr>, w1)
        else (True, c\<lparr>line_fd := opened e, line_connected := True\<rparr>, w1)))"

definition fifo_connect :: "connect_answers \<Rightarrow> v2_line \<Rightarrow> os_state \<Rightarrow> bool \<times> v2_line \<times> os_state" where
  "fifo_connect e c w =
    (if newfifo (line_kind c) \<and> made e < 0 then (False, c, w)
     else
       (let w1 = (if newfifo (line_kind c) then w\<lparr>fifo_files := insert (line_path c) (fifo_files w)\<rparr> else w);
            c1 = c\<lparr>line_fd := opened e\<rparr>
        in if opened e < 0 then (False, c1, w1)
           else (True, c1\<lparr>line_connected := True\<rparr>, w1\<lparr>open_fds := insert (opened e) (open_fds w1)\<rparr>)))"

definition line_connect :: "connect_answers \<Rightarrow> v2_line \<Rightarrow> os_state \<Rightarrow> bool \<times> v2_line \<times> os_state" where
  "line_connect e c w =
    (case line_kind c of
       Serial_line \<Rightarrow> serial_connect e c w
     | Tcp_line \<Rightarrow> tcp_connect e c w
     | Fifo_line _ \<Rightarrow> fifo_connect e c w)"

definition line_close :: "v2_line \<Rightarrow> os_state \<Rightarrow> v2_line \<times> os_state" where
  "line_close c w =
    (c\<lparr>line_connected := False, line_fd := 0\<rparr>,
     (case line_kind c of
        Fifo_line True \<Rightarrow> w\<lparr>open_fds := open_fds w - {line_fd c}, fifo_files := fifo_files w - {line_path c}\<rparr>
      | _ \<Rightarrow> w\<lparr>open_fds := open_fds w - {line_fd c}\<rparr>))"

text \<open>The destructors close what holds a descriptor, a negative one included.\<close>

definition line_destroy :: "v2_line \<Rightarrow> os_state \<Rightarrow> os_state" where
  "line_destroy c w = (if line_fd c \<noteq> 0 then snd (line_close c w) else w)"

section \<open>Reading, writing, flushing\<close>

definition serial_read ::
  "int \<Rightarrow> int list \<Rightarrow> nat \<Rightarrow> byte list \<Rightarrow> (byte list \<times> byte list \<times> int list) outcome" where
  "serial_read available calls num_bytes pending =
    (if available < 0 then Inr ([], pending, calls) else stream_fill calls num_bytes [] pending)"

definition line_write :: "int \<Rightarrow> byte list \<Rightarrow> byte list \<Rightarrow> int \<times> byte list" where
  "line_write nbytes bytes sent = (nbytes, sent @ take (nat nbytes) bytes)"

text \<open>The loop of \<open>flush\<close>, two bytes a call; it ends at the first call that finds nothing or fails.\<close>

primrec line_flush :: "int list \<Rightarrow> byte list \<Rightarrow> (byte list \<times> int list) outcome" where
  "line_flush [] pending = Inl No_fuel"
| "line_flush (res # calls) pending =
    (if res \<le> 0 then Inr (pending, calls) else line_flush calls (drop (min (nat res) 2) pending))"

section \<open>The life of a connection\<close>

lemmas connect_defs = line_connect_def serial_connect_def tcp_connect_def fifo_connect_def
  line_close_def line_destroy_def new_line_def Let_def

text \<open>
  The life of a connection, whatever the system answers. After \<open>connect\<close> the object says that it is
  connected exactly when the call succeeded, and then holds an open descriptor. When the object is
  destroyed, the files and the open descriptors are what they were before, with one exception: a
  socket that was created for a connection that failed stays open for the life of the process.
\<close>

theorem connection_leaks_failed_socket:
  assumes connect: "line_connect e (new_line k path) w = (ok, c, w')"
    and fds: "\<forall>fd \<in> open_fds w. 0 < fd" and fresh: "opened e \<noteq> 0" "opened e \<notin> open_fds w"
    and mkfifo: "0 \<le> made e \<Longrightarrow> path \<notin> fifo_files w"
  shows "line_connected c = ok \<and> (ok \<longrightarrow> line_fd c \<in> open_fds w') \<and>
    fifo_files (line_destroy c w') = fifo_files w \<and>
    open_fds (line_destroy c w') =
      (if k = Tcp_line \<and> \<not> ok \<and> 0 \<le> opened e then insert (opened e) (open_fds w) else open_fds w)"
proof (cases k)
  case (Fifo_line n)
  have "opened e \<noteq> 0 \<and> fd \<noteq> opened e" if "fd \<in> open_fds w" for fd using that fresh by auto
  then show ?thesis
    using assms Fifo_line by (cases n) (auto simp: connect_defs split: if_splits)
qed (use assms in \<open>auto simp: connect_defs split: if_splits\<close>)

theorem connection_leaks_failed_socket_witness:
  "\<exists>c w'. line_connect \<lparr>opened = 5, pton = 1, connected_to = - 1, made = 0\<rparr> (new_line Tcp_line ''host'')
      \<lparr>open_fds = {1, 2}, fifo_files = {}\<rparr> = (False, c, w') \<and>
    open_fds (line_destroy c w') = {5, 1, 2}"
proof -
  obtain c w' where run: "line_connect \<lparr>opened = 5, pton = 1, connected_to = - 1, made = 0\<rparr>
      (new_line Tcp_line ''host'') \<lparr>open_fds = {1, 2}, fifo_files = {}\<rparr> = (False, c, w')"
    by (simp add: connect_defs)
  from run connection_leaks_failed_socket [OF run] show ?thesis by auto
qed

text \<open>
  A flush drops two bytes for every call that moves two, and needs a call that moves none to end. On
  a FIFO, opened for reading and writing and without \<open>O_NONBLOCK\<close>, such a call does not come: the
  flush does not return.
\<close>

theorem flush_needs_empty_call:
  "line_flush (replicate k 2 @ 0 # calls) pending = Inr (drop (2 * k) pending, calls)"
  "(\<forall>c \<in> set calls. 0 < c) \<Longrightarrow> line_flush calls pending = Inl No_fuel"
proof -
  show "line_flush (replicate k 2 @ 0 # calls) pending = Inr (drop (2 * k) pending, calls)"
    by (induction k arbitrary: pending) (simp_all add: numeral_2_eq_2)
  show "(\<forall>c \<in> set calls. 0 < c) \<Longrightarrow> line_flush calls pending = Inl No_fuel"
    by (induction calls arbitrary: pending) simp_all
qed

end
