(* ===== verification/Spec2Isabelle.thy ===== *)
theory Spec2Isabelle
  imports V3_Event_Thread V3_Charging V3_Client V3_Drivers V3_Answers V3_Streams V3_Net V3_Secure
    V2_Answers V2_Dispatch V2_Drivers V2_Connections
begin

text \<open>
  BatteryOS virtualises batteries: physical batteries are entered in a directory, and aggregates and
  partitions of them are batteries again, with the same operations, reading a status and scheduling a
  current over an interval. The repository holds two C++ generations of it, \<open>BatteryOS-V3\<close> (the current
  one) and \<open>BatteryOS-V2\<close>; this development models the core of both.

  \<^bold>\<open>Conventions.\<close> A C++ operation that may fault is a function into \<open>fault + 'a\<close> (\<open>Prelude\<close>): reads
  through \<open>end()\<close>, \<open>std::out_of_range\<close>, null dereferences, indices outside a vector, process exits and,
  for unbounded recursion and loops, the end of the fuel. \<open>double\<close> is \<open>real\<close>, with extended doubles
  where the code divides by an unchecked quantity; \<open>int64_t\<close> is \<open>int\<close> where the code does not rely on
  the width (overflow is undefined there) and a word where it does. \<open>std::set\<close> and \<open>std::map\<close> are ordered
  lists (\<open>Std_Containers\<close>): the locale \<open>std_order\<close> holds the laws of a comparison, and is interpreted on
  the event orders of both generations and on strings. An operation that
  holds its lock is one step; where threads interleave, the steps are explicit. The mutexes themselves
  are modelled in V2 where one call takes several of them (\<open>V2_Factory\<close>, \<open>V2_Dispatch\<close>).

  \<^bold>\<open>BatteryOS-V3.\<close>
  \<^item> \<open>V3_Status\<close>: \<open>BatteryStatus.cpp\<close>, \<open>scale.hpp\<close>, the enumerations.
  \<^item> \<open>V3_Events\<close>: \<open>event_t.hpp\<close> and \<open>Battery::checkMergeAndInsertEvents\<close>. The pair of containers is an
    \<open>event_queue\<close>; the merge keeps its invariant and refines the assignment of a current to an interval.
  \<^item> \<open>V3_Battery\<close>: the battery classes (\<open>BatteryInterface.cpp\<close>, \<open>AggregateBattery.cpp\<close>,
    \<open>PartitionBattery.cpp\<close>, \<open>PartitionManager.cpp\<close>, \<open>PhysicalBattery.cpp\<close>, \<open>PseudoBattery.cpp\<close>,
    \<open>DynamicBattery.cpp\<close>) as objects on a heap, with virtual calls as case distinctions. Calls follow
    the links between batteries with fuel; the rank of a battery is enough fuel (\<open>getStatus_returns\<close>).
  \<^item> \<open>V3_Event_Thread\<close>: \<open>Battery::runEventThread\<close>, one turn at a time.
  \<^item> \<open>V3_Charging\<close>: the charging threads of pseudo and partition batteries as a step relation with
    \<open>set_current\<close>; capacities stay bounded under every interleaving.
  \<^item> \<open>V3_Directory\<close>, \<open>V3_Manager\<close>, \<open>V3_BOS\<close>: \<open>BatteryDirectory.cpp\<close>, \<open>BatteryDirectoryManager.cpp\<close>,
    \<open>BOS.cpp\<close> with \<open>ProtoParameters.cpp\<close>: names and graphs, creation and removal, the handlers of
    requests.
  \<^item> \<open>V3_Creation\<close>, \<open>V3_Answers\<close>: the batteries of a server stay well formed (\<open>server_ok\<close>) through every
    creation and removal, so that in every state requests reach (\<open>served\<close>) a query and a request for a
    current are answered, and a creation is, up to one fault that the theorem names.
  \<^item> \<open>V3_Connection\<close>, \<open>V3_Client\<close>: \<open>util.cpp\<close>, \<open>BatteryConnection.cpp\<close> and the clients \<open>Admin.cpp\<close>,
    \<open>ClientBattery.cpp\<close>, \<open>FifoBattery.cpp\<close>, \<open>SecureClientBattery.cpp\<close>. A client talks to a peer, which is
    instantiated with the handlers of \<open>V3_BOS\<close>, so that requests over the wire refine local calls.
  \<^item> \<open>V3_Streams\<close>: the loops over TLS of \<open>util.cpp\<close>, \<open>TLSSocket.cpp\<close>, \<open>Socket.cpp\<close> and the serial line of
    \<open>Connections.cpp\<close>.
  \<^item> \<open>V3_Net\<close>: \<open>NetService.cpp\<close>, \<open>Fifo.cpp\<close>, \<open>Acceptor.cpp\<close> and the loop of \<open>BOS.cpp\<close>. What the service
    needs of the objects it polls is the locale \<open>poll_service\<close>; its interpretation on the objects of the
    server, with their ownership as the invariant (\<open>net_wf\<close>), gives that a turn visits exactly the
    objects with input, and with \<open>V3_Answers\<close> that a query is answered within its turn.
  \<^item> \<open>V3_Secure\<close>: \<open>SecureBattery.cpp\<close>, \<open>Aggregator.cpp\<close> and their client as a labelled step relation; a
    process that waits for a message keeps the point where it waits in its state.
  \<^item> \<open>V3_Drivers\<close>: \<open>device_drivers/JBDBMS.cpp\<close>, \<open>Driver.cpp\<close>, \<open>iec61850.cpp\<close>.

  \<^bold>\<open>BatteryOS-V2.\<close>
  \<^item> \<open>V2_Status\<close>: the byte format of \<open>util.hpp\<close>, \<open>BatteryStatus.cpp\<close> and \<open>RPC.cpp\<close>, and the conversions of
    time.
  \<^item> \<open>V2_Battery\<close>: \<open>BatteryInterface.cpp\<close>: the event queue promises a profile of currents; scheduling
    assigns to an interval of it, the background thread follows it. A driver is a record of functions.
  \<^item> \<open>V2_Directory\<close>: \<open>BOSDirectory.hpp\<close>, with the reachable directories as an inductive predicate.
  \<^item> \<open>V2_Splitter\<close>, \<open>V2_Split_Refresh\<close>: \<open>BALSplitter.hpp\<close>, \<open>BALSplitter.cpp\<close>, \<open>SplittedBattery.hpp\<close>. The
    scheduling of a child refines an assignment to the child's profile and is composed with the source
    battery of \<open>V2_Battery\<close>. The loops that divide the source among the children are instances of one
    rule, proved once in the locale \<open>status_field\<close> and interpreted on the five fields of a status; they
    conserve the source and, when it can be shared, stay inside the vectors.
  \<^item> \<open>V2_Aggregator\<close>: \<open>AggregatorBattery.cpp\<close>; the refresh threads commute, a request is split within the
    limits of the sources.
  \<^item> \<open>V2_JBDBMS\<close>: \<open>JBDBMS.cpp\<close>, over any connection.
  \<^item> \<open>V2_Remote\<close>: the streams of \<open>Connections.hpp\<close>, the handler of remote requests in \<open>BOS.cpp\<close> and its
    client \<open>NetworkBattery.hpp\<close>. What the client needs of a line is the locale \<open>request_line\<close>; its
    interpretation is the line on which the handler answers, so that a network battery refines the
    battery it names, down to the bytes of \<open>V2_Status\<close>.
  \<^item> \<open>V2_Connections\<close>: the serial, TCP and FIFO objects of \<open>Connections.hpp\<close> with the descriptors and files
    they leave behind.
  \<^item> \<open>V2_Factory\<close>: the factories of \<open>BOS.cpp\<close> over one directory with batteries of every kind. The virtual
    functions of a stored battery are an argument that leaves the graph alone (\<open>keeps_graph\<close>).
  \<^item> \<open>V2_Server\<close>: \<open>ProtobufMsg.cpp\<close>, the FIFO and the socket loop of \<open>BOS.cpp\<close>, and the client \<open>Remote.hpp\<close>.
    The reachable states of the server are an inductive predicate; the loops take the list of the
    inputs to come.
  \<^item> \<open>V2_Dispatch\<close>: the virtual \<open>get_status\<close> and \<open>schedule_set_current\<close> of batteries of every kind over one
    directory, each call with the mutexes held. What a call needs and hands on to the calls it makes is
    the locale \<open>call_discipline\<close>; its interpretations give that calls keep the graph, that they end, that
    they do not wait for themselves and, in \<open>V2_Answers\<close>, that every battery of a reachable server answers.
  \<^item> \<open>V2_Answers\<close>: the server as a refinement of the events of its directory (\<open>dir_event\<close>), the order of its
    batteries as their invariant, and the answers of reachable servers.
  \<^item> \<open>V2_Drivers\<close>: \<open>sonnen.hpp\<close> with its plugin, and \<open>iec61850.cpp\<close>, under the schedule of \<open>V2_Battery\<close>.

  \<^bold>\<open>Fuel.\<close> The recursion of V3 along the battery graph needs no more than the rank of a battery, which the
  number of heap cells bounds; \<open>V3_Answers\<close> and \<open>V3_Net\<close> take twice that number (\<open>bos_fuel\<close>) and prove it
  enough. In \<open>V3_Net\<close> the end of fuel also stands for a read that never returns; the calls of V2 take one unit for every battery of the directory (\<open>calls_end\<close>); the loops over system calls take the list of their results. The loops of V2 that count an
  unsigned index down to zero need none: they either break or fault at the first index outside.

  \<^bold>\<open>Outside the sources.\<close> Clocks, random and uninitialised values, protobuf encoding, OpenSSL, serial
  lines, libiec61850, Python, shared objects and the secret sharing library are arguments of the
  definitions that use them, with what is relied on as hypotheses of the theorems.

  \<^bold>\<open>Not modelled.\<close> Creating sockets, loading certificates and the serial port library, which are
  sequences of system calls; the bridges into Python (\<open>RD6006\<close> in both generations); rounding of
  doubles; the command line programs and experiments (\<open>main.cpp\<close>, the example clients), which only
  call the modelled parts; the FIFO bodies that are commented out in the sources. The first generation
  and the transformer protection are Python programs.
\<close>

end
